(* ===== verification/Prelude.thy ===== *)
theory Prelude
  imports Main "HOL-Library.AList" "HOL-Library.Char_ord" "HOL-Library.List_Lexorder"
    "HOL-Library.Multiset" "HOL-Library.Word"
begin

text \<open>
  The shared vocabulary of the development: the JSON value lattice of
  \<^verbatim>\<open>ts/src/kernel/json.ts\<close> and the pieces of JavaScript the frontend kernel is written in.

  \<^item> A JavaScript string is represented by its UTF-8 encoding, a list of bytes
    (\<^typ>\<open>string\<close>); \<open>js_length\<close> counts UTF-16 code units as \<^verbatim>\<open>s.length\<close> does.
  \<^item> A plain object and a \<^verbatim>\<open>Map\<close> are association lists in insertion order:
    \<^const>\<open>map_of\<close> reads, \<^const>\<open>AList.update\<close> is \<^verbatim>\<open>o[k] = v\<close> / \<^verbatim>\<open>m.set\<close> (an existing key
    keeps its place, a new key goes last), \<^const>\<open>AList.delete\<close> is \<^verbatim>\<open>delete\<close>.
    Integer-like keys (which JavaScript enumerates first) and the key \<^verbatim>\<open>__proto__\<close> are not
    given their special treatment.
  \<^item> A \<^verbatim>\<open>Set\<close> is a list without duplicates in insertion order (\<open>set_add\<close>, \<open>set_del\<close>).
  \<^item> Numbers of the JSON lattice are integers.
  \<^item> An absent property (\<^verbatim>\<open>undefined\<close>) is \<^const>\<open>None\<close>; \<^verbatim>\<open>x ?? null\<close> is \<open>nullish\<close>.
\<close>

named_theorems js_defs \<open>definitions of the JavaScript operations, for evaluation\<close>
named_theorems alist_simps \<open>laws of insertion-ordered maps\<close>

section \<open>The JSON value lattice\<close>

text \<open>
  \<open>JBuf\<close> and \<open>JView\<close> are the two binary values a wire envelope may carry (an
  \<^verbatim>\<open>ArrayBuffer\<close> and a typed-array view of one); they never occur in a record.
\<close>

datatype json =
    JNull
  | JBool bool
  | JNum int
  | JStr string
  | JArr "json list"
  | JObj "(string \<times> json) list"
  | JBuf "8 word list"
  | JView "8 word list"

type_synonym payload = "(string \<times> json) list"

definition str :: "payload \<Rightarrow> string \<Rightarrow> string \<Rightarrow> string" where
  "str payload key fallback =
     (case map_of payload key of Some (JStr v) \<Rightarrow> v | _ \<Rightarrow> fallback)"

text \<open>\<^verbatim>\<open>v ?? null\<close> for a property that may be absent or null.\<close>

definition nullish :: "json option \<Rightarrow> json option" where
  "nullish v = (if v = Some JNull then None else v)"

definition as_string :: "json option \<Rightarrow> string option" where
  "as_string v = (case v of Some (JStr s) \<Rightarrow> Some s | _ \<Rightarrow> None)"

definition json_of_opt :: "string option \<Rightarrow> json" where
  "json_of_opt v = (case v of None \<Rightarrow> JNull | Some s \<Rightarrow> JStr s)"

declare str_def [js_defs] nullish_def [js_defs] as_string_def [js_defs] json_of_opt_def [js_defs]

lemma nullish_None_iff: "nullish v = None \<longleftrightarrow> v = None \<or> v = Some JNull"
  by (auto simp: nullish_def)

lemma nullish_simps [simp]:
  "nullish None = None" "nullish (Some JNull) = None"
  "nullish (Some (JStr s)) = Some (JStr s)"
  by (auto simp: nullish_def)

lemma as_string_simps [simp]:
  "as_string None = None" "as_string (Some (JStr s)) = Some s"
  by (auto simp: as_string_def)

lemma as_string_Some_iff [simp]: "as_string v = Some s \<longleftrightarrow> v = Some (JStr s)"
  by (auto simp: as_string_def split: option.splits json.splits)

text \<open>
  \<^verbatim>\<open>s.length\<close> on the UTF-8 representation: a continuation byte adds nothing, the lead byte
  of a four-byte sequence stands for a surrogate pair.
\<close>

definition utf16_units :: "char \<Rightarrow> nat" where
  "utf16_units c = (let n = (of_char c :: nat) in
     if n < 128 then 1 else if n < 192 then 0 else if n < 240 then 1 else 2)"

definition js_length :: "string \<Rightarrow> nat" where
  "js_length s = sum_list (map utf16_units s)"

lemma js_length_append [simp]: "js_length (s @ t) = js_length s + js_length t"
  by (simp add: js_length_def)

lemma js_length_Nil [simp]: "js_length [] = 0"
  by (simp add: js_length_def)

text \<open>\<^verbatim>\<open>String.prototype.trim\<close>: white space and line terminators of ECMAScript, in UTF-8.\<close>

definition js_spaces :: "string list" where
  "js_spaces =
     [[CHR 0x09], [CHR 0x0A], [CHR 0x0B], [CHR 0x0C], [CHR 0x0D], [CHR 0x20], [CHR 0xC2, CHR 0xA0], [CHR 0xEF, CHR 0xBB, CHR 0xBF],
      [CHR 0xE1, CHR 0x9A, CHR 0x80],
      [CHR 0xE2, CHR 0x80, CHR 0x80], [CHR 0xE2, CHR 0x80, CHR 0x81], [CHR 0xE2, CHR 0x80, CHR 0x82], [CHR 0xE2, CHR 0x80, CHR 0x83],
      [CHR 0xE2, CHR 0x80, CHR 0x84], [CHR 0xE2, CHR 0x80, CHR 0x85], [CHR 0xE2, CHR 0x80, CHR 0x86], [CHR 0xE2, CHR 0x80, CHR 0x87],
      [CHR 0xE2, CHR 0x80, CHR 0x88], [CHR 0xE2, CHR 0x80, CHR 0x89], [CHR 0xE2, CHR 0x80, CHR 0x8A], [CHR 0xE2, CHR 0x80, CHR 0xA8],
      [CHR 0xE2, CHR 0x80, CHR 0xA9], [CHR 0xE2, CHR 0x80, CHR 0xAF], [CHR 0xE2, CHR 0x81, CHR 0x9F], [CHR 0xE3, CHR 0x80, CHR 0x80]]"

function strip_front :: "string list \<Rightarrow> string \<Rightarrow> string" where
  "strip_front sps t =
     (case find (\<lambda>p. p \<noteq> [] \<and> take (length p) t = p) sps of
        None \<Rightarrow> t
      | Some p \<Rightarrow> strip_front sps (drop (length p) t))"
  by pat_completeness auto

termination
proof (relation "measure (length \<circ> snd)", simp)
  fix sps t p assume "find (\<lambda>p. p \<noteq> [] \<and> take (length p) t = p) sps = Some (p :: string)"
  then have "p \<noteq> []" "take (length p) t = p" by (auto simp: find_Some_iff)
  then have "length p > 0" "length t > 0" by auto
  then show "((sps, drop (length p) t), (sps, t)) \<in> measure (length \<circ> snd)" by simp
qed

declare strip_front.simps [simp del]

definition js_trim :: "string \<Rightarrow> string" where
  "js_trim t = rev (strip_front (map rev js_spaces) (rev (strip_front js_spaces t)))"

text \<open>The part of \<^verbatim>\<open>toLowerCase\<close> that matters for comparisons with ASCII words.\<close>

definition to_lower :: "char \<Rightarrow> char" where
  "to_lower c =
     (case map_of (zip ''ABCDEFGHIJKLMNOPQRSTUVWXYZ'' ''abcdefghijklmnopqrstuvwxyz'') c of Some l \<Rightarrow> l | None \<Rightarrow> c)"

text \<open>Keys every plain object inherits: \<^verbatim>\<open>k in obj\<close> holds for them on any object.\<close>

definition prototype_keys :: "string list" where
  "prototype_keys = [''constructor'', ''__defineGetter__'', ''__defineSetter__'', ''hasOwnProperty'',
     ''__lookupGetter__'', ''__lookupSetter__'', ''isPrototypeOf'', ''propertyIsEnumerable'',
     ''toString'', ''valueOf'', ''__proto__'', ''toLocaleString'']"

text \<open>\<^verbatim>\<open>Object.assign(target, source)\<close>: own properties of the source in order, later wins.\<close>

definition obj_assign :: "payload \<Rightarrow> payload \<Rightarrow> payload" where
  "obj_assign target source = fold (\<lambda>(k, v) ob. AList.update k v ob) source target"

text \<open>The truth value of a property that may be absent.\<close>

definition js_truthy :: "json option \<Rightarrow> bool" where
  "js_truthy v =
     (case v of None \<Rightarrow> False | Some JNull \<Rightarrow> False | Some (JBool b) \<Rightarrow> b | Some (JNum n) \<Rightarrow> n \<noteq> 0
      | Some (JStr s) \<Rightarrow> s \<noteq> [] | Some _ \<Rightarrow> True)"

section \<open>Sets in insertion order\<close>

definition set_add :: "'a \<Rightarrow> 'a list \<Rightarrow> 'a list" where
  "set_add x xs = (if x \<in> set xs then xs else xs @ [x])"

definition set_del :: "'a \<Rightarrow> 'a list \<Rightarrow> 'a list" where
  "set_del x xs = filter (\<lambda>y. y \<noteq> x) xs"

declare set_add_def [js_defs] set_del_def [js_defs]

lemma set_set_add [simp]: "set (set_add x xs) = insert x (set xs)"
  by (auto simp: set_add_def)

lemma distinct_set_add [simp]: "distinct (set_add x xs) = distinct xs"
  by (auto simp: set_add_def)

lemma set_set_del [simp]: "set (set_del x xs) = set xs - {x}"
  by (auto simp: set_del_def)

lemma distinct_set_del [simp]: "distinct xs \<Longrightarrow> distinct (set_del x xs)"
  by (simp add: set_del_def)

lemma set_add_not_Nil [simp]: "set_add x xs \<noteq> []"
  by (auto simp: set_add_def)

section \<open>Maps in insertion order\<close>

text \<open>Lookups stay lookups: the library's conversion to membership is applied by hand only.\<close>

declare map_of_eq_Some_iff [simp del] Some_eq_map_of_iff [simp del]

lemma map_of_update [simp, alist_simps]:
  "map_of (AList.update k v m) = (map_of m)(k \<mapsto> v)"
  by (simp add: update_conv')

lemma map_of_delete [simp, alist_simps]:
  "map_of (AList.delete k m) = (map_of m)(k := None)"
  by (simp add: delete_conv')

lemma distinct_keys_update [simp, alist_simps]:
  "distinct (map fst (AList.update k v m)) = distinct (map fst m)"
  by (induction m) (auto simp: dom_update image_image)

lemma distinct_keys_delete [simp, alist_simps]:
  "distinct (map fst m) \<Longrightarrow> distinct (map fst (AList.delete k m))"
  by (induction m) (auto simp: AList.delete_eq)

lemma update_fresh [alist_simps]:
  "k \<notin> fst ` set m \<Longrightarrow> AList.update k v m = m @ [(k, v)]"
  by (induction m) auto

lemma map_of_Some_iff [alist_simps]:
  "distinct (map fst m) \<Longrightarrow> map_of m k = Some v \<longleftrightarrow> (k, v) \<in> set m"
  by (simp add: map_of_eq_Some_iff)

lemma fst_set_update [alist_simps]: "fst ` set (AList.update k v m) = insert k (fst ` set m)"
  by (simp add: dom_update)

lemma fst_set_delete [alist_simps]: "fst ` set (AList.delete k m) = fst ` set m - {k}"
  by (auto simp: AList.delete_eq)

lemma mset_map_delete:
  "distinct (map fst m) \<Longrightarrow> map_of m i = Some v \<Longrightarrow>
   mset (map (f \<circ> snd) m) = add_mset (f v) (mset (map (f \<circ> snd) (AList.delete i m)))"
proof (induction m)
  case (Cons x m)
  show ?case
  proof (cases "fst x = i")
    case True
    with Cons.prems have "i \<notin> fst ` set m" "snd x = v" by auto
    with True show ?thesis by (cases x) (simp add: delete_id)
  next
    case False
    with Cons show ?thesis by (cases x) simp
  qed
qed simp

lemma map_of_filter_fst [alist_simps]:
  "map_of (filter (\<lambda>(k, v). P k) m) k = (if P k then map_of m k else None)"
  by (induction m) auto

lemma nth_list_update_if:
  "j < length xs \<Longrightarrow> xs[i := x] ! j = (if i = j then x else xs ! j)"
  by simp

lemma distinct_singletonI:
  assumes "distinct xs" "set xs = {x}" shows "xs = [x]"
proof (cases xs)
  case (Cons a ys)
  with assms show ?thesis by (cases ys) auto
qed (use assms in simp)

end
