(* ===== verification/Snapshot.thy ===== *)
theory Snapshot
  imports Prelude
begin

text \<open>
  The snapshot format and its validator, \<^verbatim>\<open>ts/src/kernel/state.ts\<close>. An \<open>agent_record\<close> is
  the plain object a loader persists; \<open>validateRecords\<close> is the gate in front of
  \<^verbatim>\<open>Kernel.load\<close>. The main result is that the two loops of the validator accept exactly the
  lists that encode a rooted parent-closed record set (\<open>valid_snapshot\<close>).
\<close>

type_synonym agent_record = payload

definition CURRENT_VERSION :: int where
  "CURRENT_VERSION = 1"

datatype snapshot = BareList "agent_record list" | Envelope "int option" "agent_record list"

datatype snapshot_error =
    UnsupportedVersion int
  | MissingStringId
  | DuplicateId string
  | MultipleRoots string string
  | EmptySnapshot
  | NoRootRecord
  | MissingParent "json option" json

definition parent_of :: "agent_record \<Rightarrow> json option" where
  "parent_of r = nullish (map_of r ''parent_id'')"

text \<open>The first loop: ids are non-empty, pairwise different strings, and at most one record
  has no parent.\<close>

fun validate_ids ::
    "agent_record list \<Rightarrow> string list \<Rightarrow> string option \<Rightarrow> snapshot_error + string list \<times> string option"
where
  "validate_ids [] ids rootId = Inr (ids, rootId)"
| "validate_ids (r # rs) ids rootId =
     (case as_string (map_of r ''id'') of
        None \<Rightarrow> Inl MissingStringId
      | Some i \<Rightarrow>
          if i = [] then Inl MissingStringId
          else if i \<in> set ids then Inl (DuplicateId i)
          else (let ids' = set_add i ids in
            case parent_of r of
              None \<Rightarrow> (case rootId of
                  Some root \<Rightarrow> Inl (MultipleRoots root i)
                | None \<Rightarrow> validate_ids rs ids' (Some i))
            | Some _ \<Rightarrow> validate_ids rs ids' rootId))"

definition has_id :: "string list \<Rightarrow> json \<Rightarrow> bool" where
  "has_id ids pid = (case pid of JStr s \<Rightarrow> s \<in> set ids | _ \<Rightarrow> False)"

text \<open>The second loop: every parent reference resolves.\<close>

fun validate_parents :: "agent_record list \<Rightarrow> string list \<Rightarrow> snapshot_error option" where
  "validate_parents [] ids = None"
| "validate_parents (r # rs) ids =
     (case parent_of r of
        Some pid \<Rightarrow> if \<not> has_id ids pid then Some (MissingParent (map_of r ''id'') pid)
                    else validate_parents rs ids
      | None \<Rightarrow> validate_parents rs ids)"

definition validateRecords :: "agent_record list \<Rightarrow> int \<Rightarrow> snapshot_error + string" where
  "validateRecords records version =
     (if version \<noteq> CURRENT_VERSION then Inl (UnsupportedVersion version)
      else case validate_ids records [] None of
          Inl e \<Rightarrow> Inl e
        | Inr (ids, None) \<Rightarrow> Inl (if records = [] then EmptySnapshot else NoRootRecord)
        | Inr (ids, Some root) \<Rightarrow>
            (case validate_parents records ids of Some e \<Rightarrow> Inl e | None \<Rightarrow> Inr root))"

definition snapshot_records :: "snapshot \<Rightarrow> agent_record list" where
  "snapshot_records s = (case s of BareList rs \<Rightarrow> rs | Envelope _ rs \<Rightarrow> rs)"

definition snapshot_version :: "snapshot \<Rightarrow> int" where
  "snapshot_version s =
     (case s of BareList _ \<Rightarrow> CURRENT_VERSION
      | Envelope v _ \<Rightarrow> (case v of None \<Rightarrow> CURRENT_VERSION | Some n \<Rightarrow> n))"

declare validateRecords_def [js_defs] CURRENT_VERSION_def [js_defs] parent_of_def [js_defs]
  has_id_def [js_defs] snapshot_records_def [js_defs] snapshot_version_def [js_defs]

section \<open>What the validator accepts\<close>

text \<open>The reading of a record list as a set of ids, a root and parent references.\<close>

definition rec_id :: "agent_record \<Rightarrow> string" where
  "rec_id r = (case as_string (map_of r ''id'') of Some i \<Rightarrow> i | None \<Rightarrow> [])"

definition roots :: "agent_record list \<Rightarrow> agent_record list" where
  "roots rs = filter (\<lambda>r. parent_of r = None) rs"

definition valid_snapshot :: "agent_record list \<Rightarrow> string \<Rightarrow> bool" where
  "valid_snapshot rs root \<longleftrightarrow>
     (\<forall>r \<in> set rs. rec_id r \<noteq> []) \<and>
     distinct (map rec_id rs) \<and>
     map rec_id (roots rs) = [root] \<and>
     (\<forall>r \<in> set rs. \<forall>p. parent_of r = Some p \<longrightarrow> (\<exists>q \<in> set rs. p = JStr (rec_id q)))"

lemma rec_id_Cons_simps:
  "as_string (map_of r ''id'') = Some i \<Longrightarrow> rec_id r = i"
  "as_string (map_of r ''id'') = None \<Longrightarrow> rec_id r = []"
  by (simp_all add: rec_id_def)

text \<open>The loop state after the first loop, in one statement for an arbitrary start.\<close>

lemma validate_ids_Inr_iff:
  "validate_ids rs ids root = Inr (ids', root') \<longleftrightarrow>
     (\<forall>r \<in> set rs. rec_id r \<noteq> []) \<and> distinct (map rec_id rs) \<and>
     set (map rec_id rs) \<inter> set ids = {} \<and> ids' = ids @ map rec_id rs \<and>
     (case root of
        None \<Rightarrow> (roots rs = [] \<and> root' = None) \<or> (\<exists>r. roots rs = [r] \<and> root' = Some (rec_id r))
      | Some i \<Rightarrow> roots rs = [] \<and> root' = Some i)"
proof (induction rs arbitrary: ids root)
  case Nil
  then show ?case by (auto simp: roots_def split: option.splits)
next
  case (Cons r rs)
  show ?case
  proof (cases "as_string (map_of r ''id'')")
    case None
    then show ?thesis by (simp add: rec_id_def)
  next
    case (Some i)
    then have ri: "rec_id r = i" by (simp add: rec_id_def)
    show ?thesis
      using Cons.IH [of "ids @ [i]"] Some ri
      by (cases "parent_of r"; cases root)
        (auto simp: set_add_def roots_def split: if_splits)
  qed
qed

lemma validate_parents_None_iff:
  "validate_parents rs ids = None \<longleftrightarrow>
     (\<forall>r \<in> set rs. \<forall>p. parent_of r = Some p \<longrightarrow> has_id ids p)"
  by (induction rs) (auto split: option.splits)

lemma has_id_rec_ids:
  "has_id (map rec_id rs) p \<longleftrightarrow> (\<exists>q \<in> set rs. p = JStr (rec_id q))"
  by (auto simp: has_id_def split: json.splits)

lemma validate_steps:
  "validateRecords rs CURRENT_VERSION = Inr root \<longleftrightarrow>
     validate_ids rs [] None = Inr (map rec_id rs, Some root) \<and>
     validate_parents rs (map rec_id rs) = None"
proof (cases "validate_ids rs [] None")
  case (Inl e)
  then show ?thesis by (simp add: validateRecords_def)
next
  case (Inr p)
  obtain ids r where p: "p = (ids, r)" by (cases p)
  with Inr have "ids = map rec_id rs" by (simp add: validate_ids_Inr_iff)
  with Inr p show ?thesis
    by (cases r) (auto simp: validateRecords_def split: option.splits)
qed

lemma validate_steps_valid:
  "validate_ids rs [] None = Inr (map rec_id rs, Some root) \<and>
     validate_parents rs (map rec_id rs) = None \<longleftrightarrow> valid_snapshot rs root"
  by (auto simp: validate_ids_Inr_iff validate_parents_None_iff has_id_rec_ids
      valid_snapshot_def map_eq_Cons_conv)

lemma validateRecords_Inr_D:
  assumes "validateRecords rs version = Inr root"
  shows "version = CURRENT_VERSION" and "valid_snapshot rs root"
proof -
  from assms show v: "version = CURRENT_VERSION"
    by (simp add: validateRecords_def split: if_splits)
  with assms show "valid_snapshot rs root"
    by (simp add: validate_steps validate_steps_valid)
qed

text \<open>
  C12: the validator succeeds with root \<open>root\<close> exactly when the version is the current one, the
  ids are distinct non-empty strings, \<open>root\<close> is the id of the one record without a parent, and
  every parent reference names a record of the list.
\<close>

theorem validateRecords_correct:
  "validateRecords rs version = Inr root \<longleftrightarrow>
     version = CURRENT_VERSION \<and> valid_snapshot rs root"
  using validate_steps [of rs root] validate_steps_valid [of rs root]
    validateRecords_Inr_D [of rs version root]
  by blast

end
