(* ===== verification/Kernel.thy ===== *)
theory Kernel
  imports Snapshot
begin

text \<open>
  The frontend kernel: \<^verbatim>\<open>ts/src/kernel/agent.ts\<close> and \<^verbatim>\<open>ts/src/kernel/kernel.ts\<close> (all of
  the \<^verbatim>\<open>Kernel\<close> class except \<^verbatim>\<open>send\<close>, which needs \<^verbatim>\<open>reflect\<close> and is in theory \<open>Reflect\<close>).

  \<^item> \<^verbatim>\<open>Agent\<close> objects live in an explicit store, a list indexed by address; the registry
    \<open>agents\<close> and every \<open>children\<close> map hold addresses, so two maps can alias one object as in
    the source.
  \<^item> A bundle handler, an inbox listener and a state subscriber are functions in the source.
    Here they are tokens: a handler of type \<open>'h\<close> (its meaning is supplied where \<^verbatim>\<open>send\<close> is
    modelled), a listener or subscriber a number. Calling one is recorded in \<open>trace\<close>, in call
    order; so is every call on the attached bridge and every logged warning.
  \<^item> Recursion over the store (\<^verbatim>\<open>remove\<close>, \<^verbatim>\<open>load\<close>) takes the available call-stack depth as
    an argument: \<^const>\<open>None\<close> is the stack overflow. Theory \<open>Kernel_Tree\<close> shows which depth is
    enough on a well-formed registry.
\<close>

section \<open>Agents\<close>

record 'h agent =
  ag_id :: string
  handlerModule :: "string option"
  parentId :: "string option"
  sentence :: "string option"
  verbs :: "(string \<times> string) list option"
  meta :: payload
  handler :: "'h option"
  children :: "(string \<times> nat) list"

record 'h agent_init =
  init_id :: string
  init_handlerModule :: "string option"
  init_parentId :: "string option"
  init_sentence :: "string option"
  init_verbs :: "(string \<times> string) list option"
  init_meta :: "payload option"
  init_handler :: "'h option"

definition new_agent :: "'h agent_init \<Rightarrow> 'h agent" where
  "new_agent init = \<lparr>ag_id = init_id init, handlerModule = init_handlerModule init,
     parentId = init_parentId init, sentence = init_sentence init, verbs = init_verbs init,
     meta = (case init_meta init of Some m \<Rightarrow> m | None \<Rightarrow> []),
     handler = init_handler init, children = []\<rparr>"

definition displayName :: "'h agent \<Rightarrow> string" where
  "displayName a =
     (case map_of (meta a) ''display_name'' of Some (JStr v) \<Rightarrow> v | _ \<Rightarrow> ag_id a)"

definition description :: "'h agent \<Rightarrow> string option" where
  "description a = as_string (map_of (meta a) ''description'')"

definition record_of :: "'h agent \<Rightarrow> agent_record" where
  "record_of a =
     (let r0 = [(''id'', JStr (ag_id a))];
          r1 = (case handlerModule a of None \<Rightarrow> r0
                | Some hm \<Rightarrow> AList.update ''handler_module'' (JStr hm) r0);
          r2 = (case parentId a of None \<Rightarrow> r1
                | Some p \<Rightarrow> AList.update ''parent_id'' (JStr p) r1)
      in obj_assign r2 (meta a))"

section \<open>Kernel state\<close>

datatype action =
    NotifyState nat payload        \<comment> \<open>a local state subscriber is called\<close>
  | Deliver nat payload            \<comment> \<open>an inbox listener is called\<close>
  | Forward string payload         \<comment> \<open>bridge.forward\<close>
  | ForwardBinary string payload   \<comment> \<open>bridge.forwardBinary\<close>
  | EmitRemote string payload      \<comment> \<open>bridge.emitRemote\<close>
  | WatchRemote string             \<comment> \<open>bridge.watchRemote\<close>
  | UnwatchRemote string           \<comment> \<open>bridge.unwatchRemote\<close>
  | OnLifecycle string nat         \<comment> \<open>bridge.onLifecycle\<close>
  | SubscribeState nat             \<comment> \<open>bridge.subscribeState\<close>
  | WarnSkip string json           \<comment> \<open>console.warn of the weak load: agent id, bundle\<close>

record 'h kernel =
  store :: "'h agent list"
  agents :: "(string \<times> nat) list"
  rootId :: "string option"
  bridge :: bool
  persistenceProvider :: "string option"
  handlers :: "(string \<times> 'h) list"
  bundleReadmes :: "(string \<times> string) list"
  watchers :: "(string \<times> string list) list"
  inboxes :: "(string \<times> nat list) list"
  stateSubscribers :: "nat list"
  clock :: int
  trace :: "action list"

definition new_kernel :: "int \<Rightarrow> 'h kernel" where
  "new_kernel now = \<lparr>store = [], agents = [], rootId = None, bridge = False,
     persistenceProvider = None, handlers = [], bundleReadmes = [], watchers = [], inboxes = [],
     stateSubscribers = [], clock = now, trace = []\<rparr>"

definition act :: "action \<Rightarrow> 'h kernel \<Rightarrow> 'h kernel" where
  "act x k = k\<lparr>trace := trace k @ [x]\<rparr>"

text \<open>\<^verbatim>\<open>this.bridge?.m(...)\<close>: nothing without a bridge.\<close>

definition bridge_call :: "action \<Rightarrow> 'h kernel \<Rightarrow> 'h kernel" where
  "bridge_call x k = (if bridge k then act x k else k)"

definition get_agent :: "'h kernel \<Rightarrow> string \<Rightarrow> 'h agent option" where
  "get_agent k i = map_option (\<lambda>a. store k ! a) (map_of (agents k) i)"

section \<open>Bundles\<close>

definition registerBundle :: "string \<Rightarrow> 'h \<Rightarrow> 'h kernel \<Rightarrow> 'h kernel" where
  "registerBundle hm h k = k\<lparr>handlers := AList.update hm h (handlers k)\<rparr>"

definition setBundleReadme :: "string \<Rightarrow> string \<Rightarrow> 'h kernel \<Rightarrow> 'h kernel" where
  "setBundleReadme hm readme k = k\<lparr>bundleReadmes := AList.update hm readme (bundleReadmes k)\<rparr>"

definition bundleReadme :: "'h kernel \<Rightarrow> string \<Rightarrow> string option" where
  "bundleReadme k hm = map_of (bundleReadmes k) hm"

definition strip_suffix :: "string \<Rightarrow> string \<Rightarrow> string option" where
  "strip_suffix suf s =
     (if length suf \<le> length s \<and> drop (length s - length suf) s = suf
      then Some (take (length s - length suf) s) else None)"

definition bundleName :: "string \<Rightarrow> string" where
  "bundleName hm =
     (case strip_suffix ''.tools'' hm of Some s \<Rightarrow> s
      | None \<Rightarrow> (case strip_suffix ''.js'' hm of Some s \<Rightarrow> s
      | None \<Rightarrow> (case strip_suffix ''.ts'' hm of Some s \<Rightarrow> s | None \<Rightarrow> hm)))"

text \<open>The catalog: (name, handler module) pairs sorted by name.\<close>

definition availableBundles :: "'h kernel \<Rightarrow> (string \<times> string) list" where
  "availableBundles k = sort_key fst (map (\<lambda>(hm, _). (bundleName hm, hm)) (handlers k))"

section \<open>The local state stream\<close>

definition addStateSubscriber :: "nat \<Rightarrow> 'h kernel \<Rightarrow> 'h kernel" where
  "addStateSubscriber cb k = k\<lparr>stateSubscribers := set_add cb (stateSubscribers k)\<rparr>"

definition removeStateSubscriber :: "nat \<Rightarrow> 'h kernel \<Rightarrow> 'h kernel" where
  "removeStateSubscriber cb k = k\<lparr>stateSubscribers := set_del cb (stateSubscribers k)\<rparr>"

definition stamp :: "'h kernel \<Rightarrow> payload \<Rightarrow> payload" where
  "stamp k event = AList.update ''ts'' (JNum (clock k)) event"

definition publishState :: "payload \<Rightarrow> 'h kernel \<Rightarrow> 'h kernel" where
  "publishState event k =
     (if stateSubscribers k = [] then k
      else k\<lparr>trace := trace k @ map (\<lambda>cb. NotifyState cb (stamp k event)) (stateSubscribers k)\<rparr>)"

definition added_event :: "'h agent \<Rightarrow> string \<Rightarrow> payload" where
  "added_event a p = [(''agent_id'', JStr (ag_id a)), (''kind'', JStr ''added''),
     (''name'', JStr (displayName a)), (''parent_id'', JStr p)]"

definition updated_event :: "string \<Rightarrow> payload \<Rightarrow> payload" where
  "updated_event i patch = [(''agent_id'', JStr i), (''kind'', JStr ''updated''),
     (''changed'', JArr (map (JStr \<circ> fst) patch))]"

definition removed_event :: "string \<Rightarrow> 'h agent \<Rightarrow> payload" where
  "removed_event i a = [(''agent_id'', JStr i), (''kind'', JStr ''removed''),
     (''name'', JStr (displayName a))]"

section \<open>The tree\<close>

definition attach_handler :: "'h kernel \<Rightarrow> 'h agent \<Rightarrow> 'h agent" where
  "attach_handler k a =
     (case (handler a, handlerModule a) of
        (None, Some hm) \<Rightarrow>
          (case map_of (handlers k) hm of Some h \<Rightarrow> a\<lparr>handler := Some h\<rparr> | None \<Rightarrow> a)
      | _ \<Rightarrow> a)"

definition link_child :: "string \<Rightarrow> nat \<Rightarrow> nat \<Rightarrow> 'h kernel \<Rightarrow> 'h kernel" where
  "link_child i a pa k = k\<lparr>store := (store k)[pa :=
     (store k ! pa)\<lparr>children := AList.update i a (children (store k ! pa))\<rparr>]\<rparr>"

definition unlink_child :: "string \<Rightarrow> nat \<Rightarrow> 'h kernel \<Rightarrow> 'h kernel" where
  "unlink_child i pa k = k\<lparr>store := (store k)[pa :=
     (store k ! pa)\<lparr>children := AList.delete i (children (store k ! pa))\<rparr>]\<rparr>"

text \<open>\<^verbatim>\<open>register(agent)\<close> for a freshly constructed object: it is allocated at the next address.\<close>

definition register :: "'h agent \<Rightarrow> 'h kernel \<Rightarrow> 'h kernel" where
  "register agent k =
     (let agent' = attach_handler k agent; i = ag_id agent; a = length (store k);
          k1 = k\<lparr>store := store k @ [agent'], agents := AList.update i a (agents k)\<rparr>
      in case parentId agent of
           None \<Rightarrow> k1
         | Some p \<Rightarrow> publishState (added_event agent' p)
             (case map_of (agents k1) p of
                Some pa \<Rightarrow> link_child i a pa k1 | None \<Rightarrow> k1))"

definition setRoot :: "'h agent \<Rightarrow> 'h kernel \<Rightarrow> 'h kernel" where
  "setRoot agent k =
     (let k1 = (if map_of (agents k) (ag_id agent) = None then register agent k else k)
      in k1\<lparr>rootId := Some (ag_id agent)\<rparr>)"

definition updateMeta :: "string \<Rightarrow> payload \<Rightarrow> 'h kernel \<Rightarrow> 'h kernel \<times> agent_record option" where
  "updateMeta i patch k =
     (case map_of (agents k) i of
        None \<Rightarrow> (k, None)
      | Some a \<Rightarrow>
          (let ag = store k ! a; ag' = ag\<lparr>meta := obj_assign (meta ag) patch\<rparr>;
               k1 = k\<lparr>store := (store k)[a := ag']\<rparr>
           in (publishState (updated_event i patch) k1, Some (record_of ag'))))"

text \<open>What \<^verbatim>\<open>remove\<close> does to one node after its children are gone.\<close>

definition detach :: "string \<Rightarrow> nat \<Rightarrow> 'h kernel \<Rightarrow> 'h kernel" where
  "detach i a k =
     (let k1 = k\<lparr>agents := AList.delete i (agents k), inboxes := AList.delete i (inboxes k),
                 watchers := AList.delete i (watchers k)\<rparr>;
          k2 = (case parentId (store k ! a) of
                  None \<Rightarrow> k1
                | Some p \<Rightarrow> (case map_of (agents k1) p of
                     Some pa \<Rightarrow> unlink_child i pa k1 | None \<Rightarrow> k1))
      in publishState (removed_event i (store k ! a)) k2)"

text \<open>\<open>removes n ids k\<close> runs \<^verbatim>\<open>remove\<close> on every id of \<open>ids\<close> in order, with stack depth \<open>n\<close>.\<close>

fun removes :: "nat \<Rightarrow> string list \<Rightarrow> 'h kernel \<Rightarrow> 'h kernel option" where
  "removes n [] k = Some k"
| "removes 0 (i # ids) k = None"
| "removes (Suc n) (i # ids) k =
     (case map_of (agents k) i of
        None \<Rightarrow> removes (Suc n) ids k
      | Some a \<Rightarrow>
          (case removes n (map fst (children (store k ! a))) k of
             None \<Rightarrow> None
           | Some k1 \<Rightarrow> removes (Suc n) ids (detach i a k1)))"

definition remove :: "nat \<Rightarrow> string \<Rightarrow> 'h kernel \<Rightarrow> ('h kernel \<times> bool) option" where
  "remove n i k =
     (case map_of (agents k) i of
        None \<Rightarrow> Some (k, False)
      | Some _ \<Rightarrow> map_option (\<lambda>k'. (k', True)) (removes n [i] k))"

section \<open>Snapshots\<close>

definition save :: "'h kernel \<Rightarrow> snapshot" where
  "save k = Envelope (Some CURRENT_VERSION)
     (sort_key rec_id (map (\<lambda>(_, a). record_of (store k ! a)) (agents k)))"

datatype kernel_error = SnapshotError snapshot_error | StackOverflow

text \<open>The first loop of \<^verbatim>\<open>load\<close>: child lists by parent id, and the root record.\<close>

fun group_records ::
    "agent_record list \<Rightarrow> (json \<times> agent_record list) list \<times> agent_record option \<Rightarrow>
     (json \<times> agent_record list) list \<times> agent_record option"
where
  "group_records [] st = st"
| "group_records (r # rs) (ch, root) =
     (case parent_of r of
        None \<Rightarrow> group_records rs (ch, Some r)
      | Some pid \<Rightarrow>
          group_records rs
            (AList.update pid ((case map_of ch pid of Some arr \<Rightarrow> arr | None \<Rightarrow> []) @ [r]) ch, root))"

definition bundle_installed :: "'h kernel \<Rightarrow> agent_record \<Rightarrow> bool" where
  "bundle_installed k r =
     (case nullish (map_of r ''handler_module'') of
        None \<Rightarrow> True
      | Some (JStr hm) \<Rightarrow> map_of (handlers k) hm \<noteq> None
      | Some _ \<Rightarrow> False)"

definition record_meta :: "agent_record \<Rightarrow> payload" where
  "record_meta r = obj_assign []
     (filter (\<lambda>(k, _). k \<noteq> ''id'' \<and> k \<noteq> ''handler_module'' \<and> k \<noteq> ''parent_id'') r)"

definition agent_of_record :: "agent_record \<Rightarrow> string option \<Rightarrow> 'h agent" where
  "agent_of_record r pid =
     new_agent \<lparr>init_id = rec_id r,
       init_handlerModule = as_string (nullish (map_of r ''handler_module'')),
       init_parentId = pid, init_sentence = None, init_verbs = None,
       init_meta = Some (record_meta r), init_handler = None\<rparr>"

definition skip_warning :: "agent_record \<Rightarrow> action" where
  "skip_warning r = WarnSkip (rec_id r)
     (case map_of r ''handler_module'' of Some hm \<Rightarrow> hm | None \<Rightarrow> JNull)"

definition build_node :: "agent_record \<Rightarrow> string option \<Rightarrow> 'h kernel \<Rightarrow> 'h kernel" where
  "build_node r pid k =
     (let k1 = register (agent_of_record r pid) k
      in if pid = None then k1\<lparr>rootId := Some (rec_id r)\<rparr> else k1)"

definition child_records :: "(json \<times> agent_record list) list \<Rightarrow> string \<Rightarrow> agent_record list" where
  "child_records ch i = (case map_of ch (JStr i) of Some arr \<Rightarrow> arr | None \<Rightarrow> [])"

text \<open>\<^verbatim>\<open>build\<close> over a list of siblings: depth first, an uninstalled bundle skips its subtree.\<close>

fun builds ::
    "nat \<Rightarrow> (json \<times> agent_record list) list \<Rightarrow> agent_record list \<Rightarrow> string option \<Rightarrow>
     'h kernel \<Rightarrow> 'h kernel option"
where
  "builds n ch [] pid k = Some k"
| "builds 0 ch (r # rs) pid k = None"
| "builds (Suc n) ch (r # rs) pid k =
     (if \<not> bundle_installed k r then builds (Suc n) ch rs pid (act (skip_warning r) k)
      else case builds n ch (child_records ch (rec_id r)) (Some (rec_id r)) (build_node r pid k) of
          None \<Rightarrow> None
        | Some k1 \<Rightarrow> builds (Suc n) ch rs pid k1)"

definition clear_tree :: "'h kernel \<Rightarrow> 'h kernel" where
  "clear_tree k = k\<lparr>agents := [], inboxes := [], watchers := [], rootId := None\<rparr>"

definition load :: "nat \<Rightarrow> snapshot \<Rightarrow> 'h kernel \<Rightarrow> kernel_error + 'h kernel" where
  "load n snap k =
     (let records = snapshot_records snap in
      case validateRecords records (snapshot_version snap) of
        Inl e \<Rightarrow> Inl (SnapshotError e)
      | Inr _ \<Rightarrow>
          (let (ch, rootRec) = group_records records ([], None); k1 = clear_tree k in
           case rootRec of
             None \<Rightarrow> Inr k1
           | Some r \<Rightarrow>
               (case builds n ch [r] None k1 of None \<Rightarrow> Inl StackOverflow | Some k2 \<Rightarrow> Inr k2)))"

section \<open>Addressing, inboxes and watches\<close>

definition resolve :: "'h kernel \<Rightarrow> string \<Rightarrow> string" where
  "resolve k targetId =
     (case rootId k of
        Some root \<Rightarrow> if targetId = ''kernel'' then root else targetId
      | None \<Rightarrow> targetId)"

definition onInbox :: "string \<Rightarrow> nat \<Rightarrow> 'h kernel \<Rightarrow> 'h kernel" where
  "onInbox i l k =
     (let arr = (case map_of (inboxes k) i of Some ls \<Rightarrow> ls | None \<Rightarrow> [])
      in k\<lparr>inboxes := AList.update i (arr @ [l]) (inboxes k)\<rparr>)"

definition offInbox :: "string \<Rightarrow> nat \<Rightarrow> 'h kernel \<Rightarrow> 'h kernel" where
  "offInbox i l k =
     (case map_of (inboxes k) i of
        None \<Rightarrow> k
      | Some cur \<Rightarrow> k\<lparr>inboxes := AList.update i (filter (\<lambda>x. x \<noteq> l) cur) (inboxes k)\<rparr>)"

definition emitRemote :: "string \<Rightarrow> payload \<Rightarrow> 'h kernel \<Rightarrow> 'h kernel" where
  "emitRemote targetId payload k = bridge_call (EmitRemote (resolve k targetId) payload) k"

text \<open>A call over the bridge answers with a promise: \<open>Pending\<close>; without a bridge it is settled at
  once with the error object.\<close>

datatype reply = Settled json | Pending | Threw

definition error_reply :: "string \<Rightarrow> json" where
  "error_reply msg = JObj [(''error'', JStr msg)]"

definition forwardBinary :: "string \<Rightarrow> payload \<Rightarrow> 'h kernel \<Rightarrow> 'h kernel \<times> reply" where
  "forwardBinary targetId payload k =
     (if bridge k then (act (ForwardBinary (resolve k targetId) payload) k, Pending)
      else (k, Settled (error_reply (''no bridge to forward to '' @ [CHR 0x27] @ targetId @ [CHR 0x27]))))"

definition callHost :: "string \<Rightarrow> payload \<Rightarrow> 'h kernel \<Rightarrow> 'h kernel \<times> reply" where
  "callHost target payload k =
     (if bridge k then (act (Forward target payload) k, Pending)
      else (k, Settled (error_reply (''no bridge to reach host '' @ [CHR 0x27] @ target @ [CHR 0x27]))))"

definition onLifecycle :: "string \<Rightarrow> nat \<Rightarrow> 'h kernel \<Rightarrow> 'h kernel" where
  "onLifecycle endpoint fn k = bridge_call (OnLifecycle (resolve k endpoint) fn) k"

definition subscribeState :: "nat \<Rightarrow> 'h kernel \<Rightarrow> 'h kernel" where
  "subscribeState fn k = bridge_call (SubscribeState fn) k"

definition deliver :: "string \<Rightarrow> payload \<Rightarrow> 'h kernel \<Rightarrow> 'h kernel" where
  "deliver i payload k =
     (case map_of (inboxes k) i of
        None \<Rightarrow> k
      | Some ls \<Rightarrow> k\<lparr>trace := trace k @ map (\<lambda>l. Deliver l payload) ls\<rparr>)"

definition watchers_of :: "'h kernel \<Rightarrow> string \<Rightarrow> string list" where
  "watchers_of k i = (case map_of (watchers k) i of Some ws \<Rightarrow> ws | None \<Rightarrow> [])"

definition emit :: "string \<Rightarrow> payload \<Rightarrow> 'h kernel \<Rightarrow> 'h kernel" where
  "emit targetId payload k =
     (let i = resolve k targetId
      in fold (\<lambda>w. deliver w payload) (watchers_of k i) (deliver i payload k))"

text \<open>No local agent answers for the id: absent, or present without a handler.\<close>

definition remote_src :: "'h kernel \<Rightarrow> string \<Rightarrow> bool" where
  "remote_src k i = (case get_agent k i of None \<Rightarrow> True | Some a \<Rightarrow> handler a = None)"

definition watch :: "string \<Rightarrow> string \<Rightarrow> 'h kernel \<Rightarrow> 'h kernel" where
  "watch srcId watcherId k =
     (let i = resolve k srcId; ws = watchers_of k i; firstLocally = (ws = []);
          k1 = k\<lparr>watchers := AList.update i (set_add watcherId ws) (watchers k)\<rparr>
      in if remote_src k1 i \<and> firstLocally then bridge_call (WatchRemote i) k1 else k1)"

definition unwatch :: "string \<Rightarrow> string \<Rightarrow> 'h kernel \<Rightarrow> 'h kernel" where
  "unwatch srcId watcherId k =
     (let i = resolve k srcId in
      case map_of (watchers k) i of
        None \<Rightarrow> k
      | Some ws \<Rightarrow>
          (let ws' = set_del watcherId ws in
           if ws' = [] then
             (let k1 = k\<lparr>watchers := AList.delete i (watchers k)\<rparr>
              in if remote_src k1 i then bridge_call (UnwatchRemote i) k1 else k1)
           else k\<lparr>watchers := AList.update i ws' (watchers k)\<rparr>))"

lemmas kernel_op_defs =
  act_def bridge_call_def get_agent_def registerBundle_def setBundleReadme_def
  addStateSubscriber_def removeStateSubscriber_def publishState_def attach_handler_def
  link_child_def unlink_child_def register_def setRoot_def updateMeta_def detach_def
  onInbox_def offInbox_def emitRemote_def forwardBinary_def callHost_def onLifecycle_def
  subscribeState_def deliver_def emit_def watch_def unwatch_def

end
