(* ===== verification/Kernel_Tree.thy ===== *)
theory Kernel_Tree
  imports Kernel
begin

text \<open>
  The registry as a tree. The abstract state of a kernel is the partial map \<open>tree k\<close> from
  registered ids to parent references; \<open>kernel_wf\<close> says that the store implements a forest: the
  children maps are exactly the inverse of the parent references, every parent is registered and
  no agent is its own ancestor. Registration, metadata updates, watches and inbox changes keep it,
  and \<^verbatim>\<open>remove\<close> refines the abstract operation that cuts a subtree out.
\<close>

section \<open>Abstract parent forests\<close>

type_synonym forest = "string \<rightharpoonup> string option"

definition forest_rel :: "forest \<Rightarrow> (string \<times> string) set" where
  "forest_rel t = {(p, c). t c = Some (Some p)}"

definition subtree :: "forest \<Rightarrow> string \<Rightarrow> string set" where
  "subtree t i = {c. (i, c) \<in> (forest_rel t)\<^sup>*}"

definition prune :: "forest \<Rightarrow> string set \<Rightarrow> forest" where
  "prune t D = t |` (- D)"

definition forest_ok :: "forest \<Rightarrow> bool" where
  "forest_ok t \<longleftrightarrow> finite (dom t) \<and> acyclic (forest_rel t) \<and>
     (\<forall>c p. t c = Some (Some p) \<longrightarrow> p \<in> dom t)"

lemma subtree_self [simp]: "i \<in> subtree t i"
  by (simp add: subtree_def)

lemma subtree_child: "(i, c) \<in> forest_rel t \<Longrightarrow> subtree t c \<subseteq> subtree t i"
  by (auto simp: subtree_def intro: converse_rtrancl_into_rtrancl)

lemma subtree_closed: "p \<in> subtree t i \<Longrightarrow> t c = Some (Some p) \<Longrightarrow> c \<in> subtree t i"
  by (auto simp: subtree_def forest_rel_def intro: rtrancl_into_rtrancl)

lemma subtree_unfold: "subtree t i = insert i (\<Union>c \<in> {c. t c = Some (Some i)}. subtree t c)"
proof -
  have "(i, d) \<in> (forest_rel t)\<^sup>* \<longleftrightarrow>
      d = i \<or> (\<exists>c. (i, c) \<in> forest_rel t \<and> (c, d) \<in> (forest_rel t)\<^sup>*)" for d
    by (auto elim: converse_rtranclE intro: converse_rtrancl_into_rtrancl)
  then show ?thesis by (auto simp: subtree_def forest_rel_def)
qed

lemma subtree_subset_dom: "subtree t i \<subseteq> insert i (dom t)"
proof
  fix c assume "c \<in> subtree t i"
  then have "(i, c) \<in> (forest_rel t)\<^sup>*" by (simp add: subtree_def)
  then show "c \<in> insert i (dom t)"
    by (cases rule: rtranclE) (auto simp: forest_rel_def)
qed

lemma finite_subtree: "finite (dom t) \<Longrightarrow> finite (subtree t i)"
  using subtree_subset_dom [of t i] finite_subset by blast

lemma subtree_child_strict:
  assumes "forest_ok t" "t c = Some (Some i)"
  shows "card (subtree t c) < card (subtree t i)"
proof (rule psubset_card_mono)
  from assms show "finite (subtree t i)" by (auto simp: forest_ok_def intro: finite_subtree)
  have rel: "(i, c) \<in> forest_rel t" using assms(2) by (simp add: forest_rel_def)
  have "i \<notin> subtree t c"
  proof
    assume "i \<in> subtree t c"
    then have "(c, i) \<in> (forest_rel t)\<^sup>*" by (simp add: subtree_def)
    with rel have "(i, i) \<in> (forest_rel t)\<^sup>+" by (rule rtrancl_into_trancl2)
    with assms(1) show False by (auto simp: forest_ok_def acyclic_def)
  qed
  with subtree_child [OF rel] show "subtree t c \<subset> subtree t i" by auto
qed

lemma forest_rel_prune: "forest_rel (prune t D) = {(p, c) \<in> forest_rel t. c \<notin> D}"
  by (auto simp: forest_rel_def prune_def restrict_map_def split: if_splits)

lemma subtree_prune_subset: "subtree (prune t D) i \<subseteq> subtree t i"
  using rtrancl_mono [of "forest_rel (prune t D)" "forest_rel t"]
  by (auto simp: subtree_def forest_rel_prune)

text \<open>Cutting out a set that is closed under children leaves the other subtrees alone.\<close>

lemma subtree_prune:
  assumes closed: "\<And>c p. p \<in> D \<Longrightarrow> t c = Some (Some p) \<Longrightarrow> c \<in> D" and "i \<notin> D"
  shows "subtree (prune t D) i = subtree t i - D"
proof -
  have "c \<notin> D \<Longrightarrow> (i, c) \<in> (forest_rel (prune t D))\<^sup>*" if "(i, c) \<in> (forest_rel t)\<^sup>*" for c
    using that
  proof (induction rule: rtrancl_induct)
    case (step y z)
    then have "y \<notin> D" using closed [of y z] by (auto simp: forest_rel_def)
    with step have "(y, z) \<in> forest_rel (prune t D)" by (simp add: forest_rel_prune)
    with step \<open>y \<notin> D\<close> show ?case by (blast intro: rtrancl_into_rtrancl)
  qed simp
  moreover have "c \<notin> D" if "(i, c) \<in> (forest_rel (prune t D))\<^sup>*" for c
    using that \<open>i \<notin> D\<close> by (cases rule: rtranclE) (auto simp: forest_rel_prune)
  ultimately show ?thesis using subtree_prune_subset [of t D i]
    by (auto simp: subtree_def)
qed

lemma forest_ok_prune:
  assumes "forest_ok t" and "\<And>c p. p \<in> D \<Longrightarrow> t c = Some (Some p) \<Longrightarrow> c \<in> D"
  shows "forest_ok (prune t D)"
proof -
  have "acyclic (forest_rel (prune t D))"
    using assms(1) by (auto simp: forest_ok_def forest_rel_prune intro: acyclic_subset)
  moreover have "finite (dom (prune t D))"
    using assms(1) by (auto simp: forest_ok_def prune_def)
  moreover have "p \<in> dom (prune t D)" if "prune t D c = Some (Some p)" for c p
  proof -
    from that have "t c = Some (Some p)" "c \<notin> D"
      by (auto simp: prune_def restrict_map_def split: if_splits)
    with assms have "p \<in> dom t" "p \<notin> D" by (auto simp: forest_ok_def)
    then show ?thesis by (auto simp: prune_def)
  qed
  ultimately show ?thesis by (auto simp: forest_ok_def)
qed

lemma prune_prune: "prune (prune t D) E = prune t (D \<union> E)"
  by (auto simp: prune_def)

lemma prune_empty [simp]: "prune t {} = t"
  by (simp add: prune_def restrict_map_def)

text \<open>Adding a fresh leaf under a registered parent.\<close>

lemma forest_ok_leaf:
  assumes ok: "forest_ok t" and fresh: "i \<notin> dom t"
    and parent: "\<And>q. p = Some q \<Longrightarrow> q \<in> dom t"
  shows "forest_ok (t(i \<mapsto> p))"
proof -
  have no_child: "t c \<noteq> Some (Some i)" for c
    using ok fresh by (auto simp: forest_ok_def)
  have rel: "forest_rel (t(i \<mapsto> p)) = {(q, i) |q. p = Some q} \<union> forest_rel t"
    using fresh by (auto simp: forest_rel_def)
  have "acyclic (forest_rel (t(i \<mapsto> p)))"
  proof (cases p)
    case None
    with rel ok show ?thesis by (simp add: forest_ok_def)
  next
    case (Some q)
    have "(i, q) \<notin> (forest_rel t)\<^sup>*"
    proof
      assume "(i, q) \<in> (forest_rel t)\<^sup>*"
      then show False
      proof (cases rule: converse_rtranclE)
        case base
        with parent [OF Some] fresh show False by simp
      next
        case (step y)
        with no_child show False by (auto simp: forest_rel_def)
      qed
    qed
    with ok Some rel show ?thesis by (auto simp: forest_ok_def acyclic_insert)
  qed
  with assms show ?thesis by (auto simp: forest_ok_def)
qed

section \<open>Well-formed kernels\<close>

definition tree :: "'h kernel \<Rightarrow> forest" where
  "tree k i = map_option parentId (get_agent k i)"

definition children_ok :: "'h kernel \<Rightarrow> bool" where
  "children_ok k \<longleftrightarrow> (\<forall>i a. map_of (agents k) i = Some a \<longrightarrow>
     distinct (map fst (children (store k ! a))) \<and>
     (\<forall>c ca. map_of (children (store k ! a)) c = Some ca \<longleftrightarrow>
        map_of (agents k) c = Some ca \<and> parentId (store k ! ca) = Some i))"

definition addresses_ok :: "'h kernel \<Rightarrow> bool" where
  "addresses_ok k \<longleftrightarrow> distinct (map fst (agents k)) \<and>
     (\<forall>i a. map_of (agents k) i = Some a \<longrightarrow> a < length (store k) \<and> ag_id (store k ! a) = i)"

definition kernel_wf :: "'h kernel \<Rightarrow> bool" where
  "kernel_wf k \<longleftrightarrow> addresses_ok k \<and> children_ok k \<and> forest_ok (tree k)"

lemma displayName_cong:
  "ag_id x = ag_id y \<Longrightarrow> meta x = meta y \<Longrightarrow> displayName x = displayName y"
  by (simp add: displayName_def split: option.split json.split)

lemma addresses_inj:
  "addresses_ok k \<Longrightarrow> map_of (agents k) i = Some a \<Longrightarrow> map_of (agents k) j = Some a \<Longrightarrow> i = j"
  unfolding addresses_ok_def by metis

lemma dom_tree: "dom (tree k) = fst ` set (agents k)"
  by (force simp: tree_def get_agent_def dom_map_of_conv_image_fst [symmetric] dom_def)

lemma tree_Some_iff:
  "tree k i = Some p \<longleftrightarrow> (\<exists>a. map_of (agents k) i = Some a \<and> parentId (store k ! a) = p)"
  by (auto simp: tree_def get_agent_def)

lemma kernel_wf_child_ids:
  assumes "kernel_wf k" "map_of (agents k) i = Some a"
  shows "set (map fst (children (store k ! a))) = {c. tree k c = Some (Some i)}"
proof -
  have "set (map fst (children (store k ! a))) = dom (map_of (children (store k ! a)))"
    by (simp add: dom_map_of_conv_image_fst)
  also have "\<dots> = {c. \<exists>ca. map_of (agents k) c = Some ca \<and> parentId (store k ! ca) = Some i}"
    using assms by (simp add: kernel_wf_def children_ok_def dom_def)
  finally show ?thesis by (simp add: tree_Some_iff)
qed

text \<open>Two kernels with the same registry and the same parent and child fields.\<close>

definition same_tree :: "'h kernel \<Rightarrow> 'h kernel \<Rightarrow> bool" where
  "same_tree k k' \<longleftrightarrow> agents k' = agents k \<and> length (store k') = length (store k) \<and>
     (\<forall>a < length (store k). ag_id (store k' ! a) = ag_id (store k ! a) \<and>
        parentId (store k' ! a) = parentId (store k ! a) \<and>
        children (store k' ! a) = children (store k ! a))"

lemma same_tree_refl [simp]: "same_tree k k"
  by (simp add: same_tree_def)

lemma same_tree_tree:
  assumes "addresses_ok k" "same_tree k k'" shows "tree k' = tree k"
proof
  fix i show "tree k' i = tree k i"
    using assms by (cases "map_of (agents k) i")
      (auto simp: tree_def get_agent_def same_tree_def addresses_ok_def)
qed

lemma same_tree_wf:
  assumes "kernel_wf k" "same_tree k k'" shows "kernel_wf k'"
proof -
  from assms have ad: "addresses_ok k" by (simp add: kernel_wf_def)
  from ad assms(2) have "tree k' = tree k" by (rule same_tree_tree)
  moreover from ad assms(2) have "addresses_ok k'"
    by (auto simp: addresses_ok_def same_tree_def)
  moreover have "children_ok k'"
    unfolding children_ok_def
  proof (intro allI impI)
    fix i a assume a: "map_of (agents k') i = Some a"
    have ag: "agents k' = agents k" using assms(2) by (simp add: same_tree_def)
    have lt: "x < length (store k)" if "map_of (agents k) j = Some x" for j x
      using that ad by (simp add: addresses_ok_def)
    have ch: "children (store k' ! a) = children (store k ! a)"
      using a ag lt assms(2) by (simp add: same_tree_def)
    have "parentId (store k' ! x) = parentId (store k ! x)" if "map_of (agents k) j = Some x" for j x
      using lt [OF that] assms(2) by (simp add: same_tree_def)
    then show "distinct (map fst (children (store k' ! a))) \<and>
        (\<forall>c ca. map_of (children (store k' ! a)) c = Some ca \<longleftrightarrow>
           map_of (agents k') c = Some ca \<and> parentId (store k' ! ca) = Some i)"
      using a ag ch assms(1) unfolding kernel_wf_def children_ok_def by metis
  qed
  ultimately show ?thesis using assms by (simp add: kernel_wf_def)
qed


section \<open>Operations that keep the tree\<close>

lemma same_tree_frame:
  "agents k' = agents k \<Longrightarrow> store k' = store k \<Longrightarrow> same_tree k k'"
  by (simp add: same_tree_def)

lemma publishState_sel [simp]:
  "store (publishState e k) = store k" "agents (publishState e k) = agents k"
  "rootId (publishState e k) = rootId k" "bridge (publishState e k) = bridge k"
  "handlers (publishState e k) = handlers k" "watchers (publishState e k) = watchers k"
  "inboxes (publishState e k) = inboxes k" "stateSubscribers (publishState e k) = stateSubscribers k"
  "clock (publishState e k) = clock k" "bundleReadmes (publishState e k) = bundleReadmes k"
  "persistenceProvider (publishState e k) = persistenceProvider k"
  by (simp_all add: publishState_def)

lemma trace_publishState [simp]:
  "trace (publishState e k) =
     trace k @ map (\<lambda>cb. NotifyState cb (stamp k e)) (stateSubscribers k)"
  by (simp add: publishState_def)

lemma bridge_call_sel [simp]:
  "store (bridge_call x k) = store k" "agents (bridge_call x k) = agents k"
  "rootId (bridge_call x k) = rootId k" "bridge (bridge_call x k) = bridge k"
  "handlers (bridge_call x k) = handlers k" "watchers (bridge_call x k) = watchers k"
  "inboxes (bridge_call x k) = inboxes k" "stateSubscribers (bridge_call x k) = stateSubscribers k"
  by (simp_all add: bridge_call_def act_def)

lemma deliver_sel [simp]:
  "store (deliver i p k) = store k" "agents (deliver i p k) = agents k"
  "rootId (deliver i p k) = rootId k" "bridge (deliver i p k) = bridge k"
  "handlers (deliver i p k) = handlers k" "watchers (deliver i p k) = watchers k"
  "inboxes (deliver i p k) = inboxes k" "stateSubscribers (deliver i p k) = stateSubscribers k"
  by (simp_all add: deliver_def split: option.splits)

lemma fold_deliver_sel [simp]:
  "store (fold (\<lambda>w. deliver w p) ws k) = store k"
  "agents (fold (\<lambda>w. deliver w p) ws k) = agents k"
  "rootId (fold (\<lambda>w. deliver w p) ws k) = rootId k"
  "bridge (fold (\<lambda>w. deliver w p) ws k) = bridge k"
  "handlers (fold (\<lambda>w. deliver w p) ws k) = handlers k"
  "watchers (fold (\<lambda>w. deliver w p) ws k) = watchers k"
  "inboxes (fold (\<lambda>w. deliver w p) ws k) = inboxes k"
  "stateSubscribers (fold (\<lambda>w. deliver w p) ws k) = stateSubscribers k"
  by (induction ws arbitrary: k) simp_all

lemma same_tree_emit: "same_tree k (emit i p k)"
  by (rule same_tree_frame) (simp_all add: emit_def Let_def)

lemma same_tree_watch: "same_tree k (watch src w k)"
  by (rule same_tree_frame) (simp_all add: watch_def Let_def)

lemma same_tree_unwatch: "same_tree k (unwatch src w k)"
  by (rule same_tree_frame) (simp_all add: unwatch_def Let_def split: option.splits)

lemma same_tree_onInbox: "same_tree k (onInbox i l k)"
  by (rule same_tree_frame) (simp_all add: onInbox_def Let_def)

lemma same_tree_offInbox: "same_tree k (offInbox i l k)"
  by (rule same_tree_frame) (simp_all add: offInbox_def split: option.splits)

lemma same_tree_updateMeta: "same_tree k (fst (updateMeta i patch k))"
proof (cases "map_of (agents k) i")
  case (Some a)
  then show ?thesis
    by (auto simp: updateMeta_def Let_def same_tree_def nth_list_update_if)
qed (simp add: updateMeta_def)

lemmas same_tree_intros =
  same_tree_emit same_tree_watch same_tree_unwatch same_tree_onInbox same_tree_offInbox
  same_tree_updateMeta

section \<open>Registration\<close>

text \<open>The precondition every caller in the source meets: a fresh id, and no parent or a parent
  that is already registered.\<close>

definition register_ok :: "'h agent \<Rightarrow> 'h kernel \<Rightarrow> bool" where
  "register_ok ag k \<longleftrightarrow> map_of (agents k) (ag_id ag) = None \<and> children ag = [] \<and>
     (\<forall>p. parentId ag = Some p \<longrightarrow> map_of (agents k) p \<noteq> None)"

lemma register_ok_code [code]:
  "register_ok ag k = (map_of (agents k) (ag_id ag) = None \<and> children ag = [] \<and>
     (case parentId ag of None \<Rightarrow> True | Some p \<Rightarrow> map_of (agents k) p \<noteq> None))"
  by (auto simp: register_ok_def split: option.split)

lemma attach_handler_sel [simp]:
  "ag_id (attach_handler k a) = ag_id a" "parentId (attach_handler k a) = parentId a"
  "children (attach_handler k a) = children a" "meta (attach_handler k a) = meta a"
  "handlerModule (attach_handler k a) = handlerModule a"
  by (auto simp: attach_handler_def split: option.splits)

lemma attach_handler_display [simp]:
  "displayName (attach_handler k a) = displayName a" "record_of (attach_handler k a) = record_of a"
  by (auto simp: displayName_def record_of_def split: option.split json.split)

lemma register_agents [simp]:
  "agents (register ag k) = AList.update (ag_id ag) (length (store k)) (agents k)"
  by (simp add: register_def Let_def link_child_def split: option.split)

lemma register_sel [simp]:
  "rootId (register ag k) = rootId k" "handlers (register ag k) = handlers k"
  "bridge (register ag k) = bridge k" "watchers (register ag k) = watchers k"
  "inboxes (register ag k) = inboxes k" "stateSubscribers (register ag k) = stateSubscribers k"
  by (simp_all add: register_def Let_def link_child_def split: option.split)

lemma register_store:
  assumes "addresses_ok k" "register_ok ag k"
  shows "store (register ag k) =
    (case parentId ag of
       None \<Rightarrow> store k @ [attach_handler k ag]
     | Some p \<Rightarrow> (let pa = the (map_of (agents k) p) in
         (store k)[pa := (store k ! pa)\<lparr>children := AList.update (ag_id ag) (length (store k))
            (children (store k ! pa))\<rparr>] @ [attach_handler k ag]))"
proof (cases "parentId ag")
  case None
  then show ?thesis by (simp add: register_def)
next
  case (Some p)
  with assms obtain pa where pa: "map_of (agents k) p = Some pa" "pa < length (store k)"
    and ne: "p \<noteq> ag_id ag"
    by (fastforce simp: register_ok_def addresses_ok_def)
  with Some show ?thesis
    by (simp add: register_def Let_def link_child_def nth_append list_update_append1)
qed

text \<open>One description of the store after a registration, agent by agent.\<close>

lemma register_lookup:
  assumes "addresses_ok k" "register_ok ag k"
  shows "length (store (register ag k)) = Suc (length (store k))"
    and "store (register ag k) ! length (store k) = attach_handler k ag"
    and "a < length (store k) \<Longrightarrow> store (register ag k) ! a =
      (if parentId ag \<noteq> None \<and> map_of (agents k) (the (parentId ag)) = Some a
       then (store k ! a)\<lparr>children := AList.update (ag_id ag) (length (store k)) (children (store k ! a))\<rparr>
       else store k ! a)"
proof -
  show "length (store (register ag k)) = Suc (length (store k))"
    using register_store [OF assms] by (simp add: Let_def split: option.splits)
  show "store (register ag k) ! length (store k) = attach_handler k ag"
    using register_store [OF assms] by (auto simp: Let_def nth_append split: option.splits)
  assume a: "a < length (store k)"
  show "store (register ag k) ! a =
      (if parentId ag \<noteq> None \<and> map_of (agents k) (the (parentId ag)) = Some a
       then (store k ! a)\<lparr>children := AList.update (ag_id ag) (length (store k)) (children (store k ! a))\<rparr>
       else store k ! a)"
  proof (cases "parentId ag")
    case None
    with a register_store [OF assms] show ?thesis by (simp add: nth_append)
  next
    case (Some p)
    with assms obtain pa where "map_of (agents k) p = Some pa"
      by (auto simp: register_ok_def)
    with a Some register_store [OF assms] show ?thesis
      by (auto simp: nth_append Let_def)
  qed
qed

lemma register_core:
  assumes "addresses_ok k" "register_ok ag k" "a < length (store k)"
  shows "ag_id (store (register ag k) ! a) = ag_id (store k ! a)"
    "parentId (store (register ag k) ! a) = parentId (store k ! a)"
    "meta (store (register ag k) ! a) = meta (store k ! a)"
    "handlerModule (store (register ag k) ! a) = handlerModule (store k ! a)"
    "record_of (store (register ag k) ! a) = record_of (store k ! a)"
  using register_lookup(3) [OF assms(1,2,3)] by (auto simp: record_of_def)

lemma tree_register:
  assumes "addresses_ok k" "register_ok ag k"
  shows "tree (register ag k) = (tree k)(ag_id ag \<mapsto> parentId ag)"
proof
  fix i
  show "tree (register ag k) i = ((tree k)(ag_id ag \<mapsto> parentId ag)) i"
  proof (cases "map_of (agents k) i")
    case None
    then show ?thesis
      using register_lookup(2) [OF assms] by (auto simp: tree_def get_agent_def)
  next
    case (Some a)
    with assms have "a < length (store k)" "i \<noteq> ag_id ag"
      by (auto simp: addresses_ok_def register_ok_def)
    with Some register_core(2) [OF assms, of a] show ?thesis
      by (simp add: tree_def get_agent_def)
  qed
qed

lemma register_children_ok:
  assumes wf: "kernel_wf k" and ok: "register_ok ag k"
  shows "children_ok (register ag k)"
  unfolding children_ok_def
proof (intro allI impI)
  let ?k = "register ag k" and ?n = "length (store k)" and ?i = "ag_id ag"
  from wf have ad: "addresses_ok k" by (simp add: kernel_wf_def)
  fix i a assume "map_of (agents ?k) i = Some a"
  then have ia: "(if i = ?i then a = ?n else map_of (agents k) i = Some a)"
    by (auto split: if_splits)
  have parent: "tree ?k c = Some (Some i) \<longleftrightarrow>
      (if c = ?i then parentId ag = Some i else tree k c = Some (Some i))" for c
    by (simp add: tree_register [OF ad ok])
  have rhs: "map_of (agents ?k) c = Some ca \<and> parentId (store ?k ! ca) = Some i \<longleftrightarrow>
      map_of (agents ?k) c = Some ca \<and> tree ?k c = Some (Some i)" for c ca
    by (auto simp: tree_Some_iff)
  show "distinct (map fst (children (store ?k ! a))) \<and>
      (\<forall>c ca. map_of (children (store ?k ! a)) c = Some ca \<longleftrightarrow>
        map_of (agents ?k) c = Some ca \<and> parentId (store ?k ! ca) = Some i)"
  proof (cases "i = ?i")
    case True
    have "tree k c \<noteq> Some (Some ?i)" for c
      using wf ok by (auto simp: kernel_wf_def forest_ok_def register_ok_def dom_tree
          map_of_eq_None_iff)
    moreover have "parentId ag \<noteq> Some ?i" using ok by (auto simp: register_ok_def)
    moreover have "children (store ?k ! a) = []"
      using True ia ok register_lookup(2) [OF ad ok] by (simp add: register_ok_def)
    ultimately show ?thesis using True unfolding rhs parent by auto
  next
    case False
    with ia have ia: "map_of (agents k) i = Some a" by simp
    then have lt: "a < ?n" using ad by (simp add: addresses_ok_def)
    have chk: "distinct (map fst (children (store k ! a)))"
      "map_of (children (store k ! a)) c = Some ca \<longleftrightarrow>
        map_of (agents k) c = Some ca \<and> tree k c = Some (Some i)" for c ca
      using wf ia unfolding kernel_wf_def children_ok_def tree_Some_iff by auto
    have fresh: "map_of (agents k) ?i = None" using ok by (simp add: register_ok_def)
    have "parentId ag = Some i \<longleftrightarrow>
        parentId ag \<noteq> None \<and> map_of (agents k) (the (parentId ag)) = Some a"
      using ia ok by (auto simp: register_ok_def dest: addresses_inj [OF ad])
    with register_lookup(3) [OF ad ok lt] have ch: "children (store ?k ! a) =
        (if parentId ag = Some i then AList.update ?i ?n (children (store k ! a))
         else children (store k ! a))"
      by simp
    show ?thesis unfolding rhs parent using chk ch fresh by auto
  qed
qed

text \<open>Registration under the precondition adds one leaf and keeps the registry well formed.\<close>

lemma register_wf:
  assumes "kernel_wf k" "register_ok ag k"
  shows "kernel_wf (register ag k)"
proof -
  from assms have ad: "addresses_ok k" by (simp add: kernel_wf_def)
  have "addresses_ok (register ag k)"
    using ad register_lookup [OF ad assms(2)] register_core(1) [OF ad assms(2)]
    by (auto simp: addresses_ok_def less_Suc_eq)
  moreover have "forest_ok (tree (register ag k))"
    unfolding tree_register [OF ad assms(2)]
  proof (rule forest_ok_leaf)
    show "forest_ok (tree k)" using assms by (simp add: kernel_wf_def)
  qed (use assms in \<open>auto simp: register_ok_def dom_tree map_of_eq_None_iff\<close>)
  ultimately show ?thesis
    using register_children_ok [OF assms] by (simp add: kernel_wf_def)
qed

section \<open>Removal\<close>

definition removal_notes :: "'h kernel \<Rightarrow> string \<Rightarrow> action list" where
  "removal_notes k j =
     map (\<lambda>cb. NotifyState cb (stamp k (removed_event j (the (get_agent k j))))) (stateSubscribers k)"

text \<open>Every listed node comes after all of its children.\<close>

definition deepest_first :: "forest \<Rightarrow> string list \<Rightarrow> bool" where
  "deepest_first t js \<longleftrightarrow>
     (\<forall>xs p ys. js = xs @ p # ys \<longrightarrow> {c. t c = Some (Some p)} \<subseteq> set xs)"

text \<open>\<open>removed k k' D js\<close>: \<open>k'\<close> is \<open>k\<close> without the nodes of \<open>D\<close>, removed and announced in the
  order \<open>js\<close>; nothing else changed but the children maps.\<close>

definition removed :: "'h kernel \<Rightarrow> 'h kernel \<Rightarrow> string set \<Rightarrow> string list \<Rightarrow> bool" where
  "removed k k' D js \<longleftrightarrow>
     kernel_wf k' \<and> agents k' = filter (\<lambda>(j, _). j \<notin> D) (agents k) \<and>
     length (store k') = length (store k) \<and>
     (\<forall>a < length (store k). (store k' ! a)\<lparr>children := []\<rparr> = (store k ! a)\<lparr>children := []\<rparr>) \<and>
     stateSubscribers k' = stateSubscribers k \<and> clock k' = clock k \<and> handlers k' = handlers k \<and>
     rootId k' = rootId k \<and> bridge k' = bridge k \<and>
     distinct js \<and> set js = D \<inter> dom (tree k) \<and> deepest_first (tree k) js \<and>
     trace k' = trace k @ concat (map (removal_notes k) js)"

lemma removedD:
  assumes "removed k k' D js"
  shows "kernel_wf k'" and "agents k' = filter (\<lambda>(j, _). j \<notin> D) (agents k)"
    and "distinct js" and "set js = D \<inter> dom (tree k)" and "deepest_first (tree k) js"
    and "trace k' = trace k @ concat (map (removal_notes k) js)"
  using assms unfolding removed_def by blast+

lemma same_core:
  assumes "(x::'h agent)\<lparr>children := []\<rparr> = y\<lparr>children := []\<rparr>"
  shows "ag_id x = ag_id y" "parentId x = parentId y" "meta x = meta y"
    "handlerModule x = handlerModule y" "handler x = handler y"
proof -
  show "ag_id x = ag_id y" using arg_cong [OF assms, of ag_id] by simp
  show "parentId x = parentId y" using arg_cong [OF assms, of parentId] by simp
  show "meta x = meta y" using arg_cong [OF assms, of meta] by simp
  show "handlerModule x = handlerModule y" using arg_cong [OF assms, of handlerModule] by simp
  show "handler x = handler y" using arg_cong [OF assms, of handler] by simp
qed

lemma removed_get_agent:
  assumes "removed k k' D js" "addresses_ok k" "j \<notin> D"
  shows "map_option (\<lambda>a. a\<lparr>children := []\<rparr>) (get_agent k' j) =
    map_option (\<lambda>a. a\<lparr>children := []\<rparr>) (get_agent k j)"
  using assms by (cases "map_of (agents k) j")
    (auto simp: removed_def get_agent_def map_of_filter_fst addresses_ok_def)

lemma removed_tree:
  assumes "removed k k' D js" "addresses_ok k"
  shows "tree k' = prune (tree k) D"
proof
  fix i
  show "tree k' i = prune (tree k) D i"
  proof (cases "i \<in> D")
    case True
    with assms(1) show ?thesis
      by (simp add: removed_def tree_def get_agent_def map_of_filter_fst prune_def)
  next
    case False
    from removed_get_agent [OF assms False] False show ?thesis
      by (cases "get_agent k' i"; cases "get_agent k i")
        (auto simp: tree_def prune_def dest: same_core(2))
  qed
qed

lemma removed_notes:
  assumes "removed k k' D js" "addresses_ok k" "j \<in> dom (tree k')"
  shows "removal_notes k' j = removal_notes k j"
proof -
  have "j \<notin> D" using assms removed_tree [OF assms(1,2)] by (auto simp: prune_def)
  from removed_get_agent [OF assms(1,2) this] assms(3)
  obtain x y where xy: "get_agent k' j = Some x" "get_agent k j = Some y"
    "x\<lparr>children := []\<rparr> = y\<lparr>children := []\<rparr>"
    by (cases "get_agent k' j"; cases "get_agent k j") (auto simp: tree_def)
  have "displayName x = displayName y"
    using same_core(1,3) [OF xy(3)] by (rule displayName_cong)
  with xy assms(1) show ?thesis
    by (simp add: removal_notes_def removed_def stamp_def removed_event_def)
qed

lemma removed_closed:
  assumes "removed k k' D js" "kernel_wf k" "p \<in> D \<inter> dom (tree k)" "tree k c = Some (Some p)"
  shows "c \<in> D"
proof -
  from assms(3) removedD(4) [OF assms(1)] obtain xs ys where js: "js = xs @ p # ys"
    by (metis split_list)
  with removedD(5) [OF assms(1)] assms(4) have "c \<in> set xs"
    unfolding deepest_first_def by blast
  with js removedD(4) [OF assms(1)] show ?thesis by auto
qed

lemma deepest_first_append:
  assumes 1: "deepest_first t js1" and 2: "deepest_first t' js2"
    and sub: "\<And>p c. p \<in> set js2 \<Longrightarrow> t c = Some (Some p) \<Longrightarrow> c \<in> set js1 \<or> t' c = Some (Some p)"
  shows "deepest_first t (js1 @ js2)"
  unfolding deepest_first_def
proof (intro allI impI)
  fix xs p ys assume eq: "js1 @ js2 = xs @ p # ys"
  show "{c. t c = Some (Some p)} \<subseteq> set xs"
  proof (cases "length xs < length js1")
    case True
    with eq obtain zs where "js1 = xs @ p # zs"
      by (auto simp: append_eq_append_conv2 append_eq_Cons_conv)
    with 1 show ?thesis by (simp add: deepest_first_def)
  next
    case False
    with eq obtain zs where zs: "xs = js1 @ zs" "js2 = zs @ p # ys"
      by (auto simp: append_eq_append_conv2)
    with 2 have "{c. t' c = Some (Some p)} \<subseteq> set zs" by (simp add: deepest_first_def)
    with sub zs show ?thesis by auto
  qed
qed

lemma removed_refl: "kernel_wf k \<Longrightarrow> removed k k {} []"
  by (simp add: removed_def deepest_first_def)

text \<open>Ids that are not registered do not matter.\<close>

lemma removed_irrelevant:
  assumes "removed k k' D js" "i \<notin> dom (tree k)"
  shows "removed k k' (insert i D) js"
proof -
  have "filter (\<lambda>(j, _). j \<notin> insert i D) (agents k) = filter (\<lambda>(j, _). j \<notin> D) (agents k)"
  proof (rule filter_cong [OF refl])
    fix x assume "x \<in> set (agents k)"
    with assms(2) have "fst x \<noteq> i" by (auto simp: dom_tree)
    then show "(case x of (j, _) \<Rightarrow> j \<notin> insert i D) = (case x of (j, _) \<Rightarrow> j \<notin> D)"
      by (cases x) simp
  qed
  with assms show ?thesis by (simp add: removed_def)
qed

lemma removed_trans:
  assumes 1: "removed k k1 D1 js1" and 2: "removed k1 k2 D2 js2" and ad: "addresses_ok k"
  shows "removed k k2 (D1 \<union> D2) (js1 @ js2)"
proof -
  have t1: "tree k1 = prune (tree k) D1" using removed_tree [OF 1 ad] .
  have set2: "set js2 = D2 \<inter> dom (tree k) - D1"
    using 2 by (auto simp: removed_def t1 prune_def)
  have "map (removal_notes k1) js2 = map (removal_notes k) js2"
    using removedD(4) [OF 2] by (intro map_cong refl removed_notes [OF 1 ad]) auto
  then have "concat (map (removal_notes k1) js2) = concat (map (removal_notes k) js2)"
    by (rule arg_cong)
  moreover have "deepest_first (tree k) (js1 @ js2)"
  proof (rule deepest_first_append)
    fix p c assume "p \<in> set js2" "tree k c = Some (Some p)"
    then show "c \<in> set js1 \<or> tree k1 c = Some (Some p)"
      using 1 by (auto simp: t1 prune_def removed_def restrict_map_def)
  qed (use 1 2 in \<open>auto simp: removed_def\<close>)
  moreover have "distinct (js1 @ js2)" "set (js1 @ js2) = (D1 \<union> D2) \<inter> dom (tree k)"
    using 1 2 set2 by (auto simp: removed_def)
  moreover have "filter (\<lambda>(j, _). j \<notin> D2) (filter (\<lambda>(j, _). j \<notin> D1) (agents k)) =
      filter (\<lambda>(j, _). j \<notin> D1 \<union> D2) (agents k)"
    by (simp, rule filter_cong) auto
  ultimately show ?thesis using 1 2 by (simp add: removed_def)
qed

lemma detach_agents [simp]: "agents (detach i a k) = filter (\<lambda>(j, _). j \<noteq> i) (agents k)"
  by (auto simp: detach_def Let_def unlink_child_def AList.delete_eq split: option.split
      intro!: filter_cong)

lemma detach_store:
  assumes "b < length (store k)"
  shows "store (detach i a k) ! b =
    (if \<exists>p. parentId (store k ! a) = Some p \<and> p \<noteq> i \<and> map_of (agents k) p = Some b
     then (store k ! b)\<lparr>children := AList.delete i (children (store k ! b))\<rparr>
     else store k ! b)"
  using assms by (auto simp: detach_def Let_def unlink_child_def nth_list_update_if
      split: option.split)

lemma detach_core:
  assumes "b < length (store k)"
  shows "(store (detach i a k) ! b)\<lparr>children := []\<rparr> = (store k ! b)\<lparr>children := []\<rparr>"
  using detach_store [OF assms, of i a] by simp

lemma detach_sel [simp]:
  "length (store (detach i a k)) = length (store k)"
  "stateSubscribers (detach i a k) = stateSubscribers k" "clock (detach i a k) = clock k"
  "handlers (detach i a k) = handlers k" "rootId (detach i a k) = rootId k"
  "bridge (detach i a k) = bridge k"
  by (simp_all add: detach_def Let_def unlink_child_def split: option.split)

lemma detach_trace:
  assumes "map_of (agents k) i = Some a"
  shows "trace (detach i a k) = trace k @ removal_notes k i"
  using assms by (auto simp: detach_def Let_def unlink_child_def removal_notes_def get_agent_def
      stamp_def split: option.split)

lemma detach_children_ok:
  assumes wf: "kernel_wf k" and i: "map_of (agents k) i = Some a"
  shows "children_ok (detach i a k)"
  unfolding children_ok_def
proof (intro allI impI)
  let ?k = "detach i a k"
  from wf have ad: "addresses_ok k" by (simp add: kernel_wf_def)
  fix j b assume "map_of (agents ?k) j = Some b"
  then have j: "map_of (agents k) j = Some b" "j \<noteq> i"
    by (auto simp: map_of_filter_fst split: if_splits)
  have lt: "x < length (store k)" if "map_of (agents k) c = Some x" for c x
    using that ad by (simp add: addresses_ok_def)
  have old: "distinct (map fst (children (store k ! b)))"
    "map_of (children (store k ! b)) c = Some ca \<longleftrightarrow>
      map_of (agents k) c = Some ca \<and> parentId (store k ! ca) = Some j" for c ca
    using wf j by (auto simp: kernel_wf_def children_ok_def)
  have "(\<exists>p. parentId (store k ! a) = Some p \<and> p \<noteq> i \<and> map_of (agents k) p = Some b) \<longleftrightarrow>
      parentId (store k ! a) = Some j"
    using j by (auto dest: addresses_inj [OF ad])
  with detach_store [OF lt [OF j(1)], of i a] have ch: "children (store ?k ! b) =
      (if parentId (store k ! a) = Some j then AList.delete i (children (store k ! b))
       else children (store k ! b))"
    by simp
  have par: "map_of (agents ?k) c = Some ca \<and> parentId (store ?k ! ca) = Some j \<longleftrightarrow>
      c \<noteq> i \<and> map_of (agents k) c = Some ca \<and> parentId (store k ! ca) = Some j" for c ca
    using same_core(2) [OF detach_core [OF lt, of c ca i a]] by (auto simp: map_of_filter_fst)
  show "distinct (map fst (children (store ?k ! b))) \<and>
      (\<forall>c ca. map_of (children (store ?k ! b)) c = Some ca \<longleftrightarrow>
        map_of (agents ?k) c = Some ca \<and> parentId (store ?k ! ca) = Some j)"
    unfolding par using ch old i by auto
qed

lemma detach_removed:
  assumes wf: "kernel_wf k" and i: "map_of (agents k) i = Some a"
    and leaf: "{c. tree k c = Some (Some i)} = {}"
  shows "removed k (detach i a k) {i} [i]"
proof -
  let ?k = "detach i a k"
  from wf have ad: "addresses_ok k" by (simp add: kernel_wf_def)
  note core = detach_core [of _ k i a]
  have "addresses_ok ?k"
    using ad core by (auto simp: addresses_ok_def map_of_filter_fst distinct_map_filter
        dest: same_core(1) split: if_splits)
  moreover have "tree ?k = prune (tree k) {i}"
  proof
    fix j
    show "tree ?k j = prune (tree k) {i} j"
    proof (cases "map_of (agents k) j")
      case None
      then show ?thesis by (auto simp: tree_def get_agent_def map_of_filter_fst prune_def restrict_map_def)
    next
      case (Some b)
      then have "b < length (store k)" using ad by (simp add: addresses_ok_def)
      from same_core(2) [OF core [OF this]] Some show ?thesis
        by (auto simp: tree_def get_agent_def map_of_filter_fst prune_def restrict_map_def)
    qed
  qed
  moreover have "forest_ok (prune (tree k) {i})"
    using wf leaf by (intro forest_ok_prune) (auto simp: kernel_wf_def)
  ultimately have "kernel_wf ?k"
    using detach_children_ok [OF wf i] by (simp add: kernel_wf_def)
  moreover have "i \<in> dom (tree k)" using i by (auto simp: tree_def get_agent_def)
  moreover have "deepest_first (tree k) [i]"
    using leaf by (auto simp: deepest_first_def Cons_eq_append_conv)
  ultimately show ?thesis
    using core detach_trace [OF i] by (auto simp: removed_def)
qed

text \<open>The recursion of \<^verbatim>\<open>remove\<close>: with enough stack for the deepest subtree it removes exactly
  the union of the subtrees.\<close>

lemma subtree_absent:
  assumes "forest_ok t" "i \<notin> dom t" shows "subtree t i = {i}"
proof -
  have "{c. t c = Some (Some i)} = {}" using assms by (auto simp: forest_ok_def)
  then show ?thesis by (subst subtree_unfold) simp
qed

lemma subtree_after_removed:
  assumes r: "removed k k1 D js" and wf: "kernel_wf k"
    and D: "\<And>c p. p \<in> D \<Longrightarrow> tree k c = Some (Some p) \<Longrightarrow> c \<in> D"
  shows "D \<union> (\<Union>i \<in> I. subtree (tree k1) i) = D \<union> (\<Union>i \<in> I. subtree (tree k) i)"
proof -
  from wf have t1: "tree k1 = prune (tree k) D"
    by (intro removed_tree [OF r]) (simp add: kernel_wf_def)
  have ok1: "forest_ok (tree k1)" using removedD(1) [OF r] by (simp add: kernel_wf_def)
  have "D \<union> subtree (tree k1) i = D \<union> subtree (tree k) i" for i
  proof (cases "i \<in> D")
    case True
    then have "subtree (tree k1) i = {i}"
      by (intro subtree_absent [OF ok1]) (simp add: t1 prune_def)
    moreover have "subtree (tree k) i \<subseteq> D"
    proof
      fix c assume "c \<in> subtree (tree k) i"
      then have "(i, c) \<in> (forest_rel (tree k))\<^sup>*" by (simp add: subtree_def)
      then show "c \<in> D" using True D by induction (auto simp: forest_rel_def)
    qed
    ultimately show ?thesis using True by auto
  next
    case False
    then show ?thesis unfolding t1 by (subst subtree_prune) (use D in auto)
  qed
  then show ?thesis by blast
qed

lemma subtrees_closed:
  "p \<in> (\<Union>i \<in> I. subtree t i) \<Longrightarrow> t c = Some (Some p) \<Longrightarrow> c \<in> (\<Union>i \<in> I. subtree t i)"
  by (auto dest: subtree_closed)

lemma removes_node:
  assumes wf: "kernel_wf k" and a: "map_of (agents k) i = Some a"
    and r: "removed k k1 (\<Union>c \<in> set (map fst (children (store k ! a))). subtree (tree k) c) js"
  shows "removed k (detach i a k1) (subtree (tree k) i) (js @ [i])"
proof -
  let ?D = "\<Union>c \<in> set (map fst (children (store k ! a))). subtree (tree k) c"
  from wf have ad: "addresses_ok k" by (simp add: kernel_wf_def)
  have kids: "set (map fst (children (store k ! a))) = {c. tree k c = Some (Some i)}"
    by (rule kernel_wf_child_ids [OF wf a])
  have D: "subtree (tree k) i = ?D \<union> {i}" by (subst subtree_unfold) (simp only: kids, blast)
  have "i \<notin> ?D"
  proof
    assume "i \<in> ?D"
    then obtain c where c: "tree k c = Some (Some i)" "i \<in> subtree (tree k) c"
      unfolding kids by blast
    have "card (subtree (tree k) c) < card (subtree (tree k) i)"
      using wf c(1) by (intro subtree_child_strict) (simp_all add: kernel_wf_def)
    moreover have "subtree (tree k) i \<subseteq> subtree (tree k) c"
      using c(2) unfolding subtree_def by (auto intro: rtrancl_trans)
    moreover have "finite (subtree (tree k) c)"
      using wf by (intro finite_subtree) (simp add: kernel_wf_def forest_ok_def)
    ultimately show False by (meson card_mono leD)
  qed
  with a removedD(2) [OF r] have a1: "map_of (agents k1) i = Some a"
    by (simp add: map_of_filter_fst)
  have "tree k1 = prune (tree k) (\<Union>c \<in> {c. tree k c = Some (Some i)}. subtree (tree k) c)"
    using removed_tree [OF r ad] unfolding kids .
  then have "{c. tree k1 c = Some (Some i)} = {}"
    by (auto simp: prune_def restrict_map_def split: if_splits)
  from detach_removed [OF removedD(1) [OF r] a1 this]
  show ?thesis unfolding D by (rule removed_trans [OF r _ ad])
qed

lemma removes_correct:
  assumes "kernel_wf k" "\<And>i. i \<in> set ids \<Longrightarrow> card (subtree (tree k) i) \<le> n"
  shows "\<exists>k' js. removes n ids k = Some k' \<and> removed k k' (\<Union>i \<in> set ids. subtree (tree k) i) js"
  using assms
proof (induction n ids k rule: removes.induct)
  case (1 n k)
  then show ?case using removed_refl by auto
next
  case (2 i ids k)
  then have "card (subtree (tree k) i) = 0" by simp
  moreover have "finite (subtree (tree k) i)"
    using 2 by (intro finite_subtree) (simp add: kernel_wf_def forest_ok_def)
  ultimately show ?case using subtree_self [of i "tree k"] by auto
next
  case (3 n i ids k)
  note wf = "3.prems"(1)
  show ?case
  proof (cases "map_of (agents k) i")
    case None
    then have "i \<notin> dom (tree k)" by (auto simp: tree_def get_agent_def)
    moreover have "subtree (tree k) i = {i}"
      using wf calculation by (intro subtree_absent) (simp_all add: kernel_wf_def)
    moreover have "card (subtree (tree k) j) \<le> Suc n" if "j \<in> set ids" for j
      using that "3.prems"(2) by simp
    then obtain k' js where "removes (Suc n) ids k = Some k'"
      and r: "removed k k' (\<Union>i \<in> set ids. subtree (tree k) i) js"
      using "3.IH"(1) [OF None wf] by blast
    moreover from removed_irrelevant [OF r calculation(1)] calculation(2)
    have "removed k k' (\<Union>i \<in> set (i # ids). subtree (tree k) i) js" by simp
    ultimately show ?thesis using None by auto
  next
    case (Some a)
    let ?cs = "map fst (children (store k ! a))"
    have "card (subtree (tree k) c) \<le> n" if "c \<in> set ?cs" for c
      using that wf subtree_child_strict [of "tree k" c i] "3.prems"(2) [of i]
        kernel_wf_child_ids [OF wf Some] by (auto simp: kernel_wf_def)
    then obtain k1 js1 where k1: "removes n ?cs k = Some k1"
      "removed k k1 (\<Union>c \<in> set ?cs. subtree (tree k) c) js1"
      using "3.IH"(2) [OF Some wf] by blast
    let ?k2 = "detach i a k1"
    from removes_node [OF wf Some k1(2)]
    have r2: "removed k ?k2 (subtree (tree k) i) (js1 @ [i])" .
    have ad: "addresses_ok k" using wf by (simp add: kernel_wf_def)
    have "card (subtree (tree ?k2) j) \<le> Suc n" if "j \<in> set ids" for j
    proof -
      have "subtree (tree ?k2) j \<subseteq> subtree (tree k) j"
        unfolding removed_tree [OF r2 ad] by (rule subtree_prune_subset)
      moreover have "finite (subtree (tree k) j)"
        using wf by (intro finite_subtree) (simp add: kernel_wf_def forest_ok_def)
      ultimately have "card (subtree (tree ?k2) j) \<le> card (subtree (tree k) j)"
        by (rule card_mono [rotated])
      with "3.prems"(2) [of j] that show ?thesis by simp
    qed
    then obtain k' js where k': "removes (Suc n) ids ?k2 = Some k'"
      "removed ?k2 k' (\<Union>i \<in> set ids. subtree (tree ?k2) i) js"
      using "3.IH"(3) [OF Some k1(1) removedD(1) [OF r2]] by blast
    from removed_trans [OF r2 k'(2) ad]
      subtree_after_removed [OF r2 wf subtree_closed, where I = "set ids"]
    have "removed k k' (\<Union>i \<in> set (i # ids). subtree (tree k) i) ((js1 @ [i]) @ js)" by simp
    moreover have "removes (Suc n) (i # ids) k = Some k'" using Some k1(1) k'(1) by simp
    ultimately show ?thesis by blast
  qed
qed

end
