(* ===== verification/Kernel_Load.thy ===== *)
theory Kernel_Load
  imports Kernel_Tree
begin

text \<open>
  \<^verbatim>\<open>Kernel.save\<close> and \<^verbatim>\<open>Kernel.load\<close>. A valid snapshot is read as a parent forest
  (\<open>load_forest\<close>) in which a record whose bundle is not installed is no node; \<^verbatim>\<open>load\<close>
  registers exactly the records reachable from the root in it (the weak load), with a stack depth
  bounded by the number of records, and \<^verbatim>\<open>save\<close> after \<^verbatim>\<open>load\<close> of a saved tree gives the same
  snapshot back.
\<close>

section \<open>Forests with one parent per node\<close>

lemma forest_rel_functional:
  "(p, c) \<in> forest_rel t \<Longrightarrow> (q, c) \<in> forest_rel t \<Longrightarrow> p = q"
  by (simp add: forest_rel_def)

text \<open>Nothing below a node without a parent lies on a cycle.\<close>

lemma no_cycle_below_root:
  assumes root: "\<And>p. (p, r) \<notin> forest_rel t" and "i \<in> subtree t r"
  shows "(i, i) \<notin> (forest_rel t)\<^sup>+"
proof -
  from assms(2) have "(r, i) \<in> (forest_rel t)\<^sup>*" by (simp add: subtree_def)
  then show ?thesis
  proof (induction rule: rtrancl_induct)
    case base
    show ?case using root by (meson tranclD2)
  next
    case (step y i)
    show ?case
    proof
      assume "(i, i) \<in> (forest_rel t)\<^sup>+"
      then obtain z where z: "(i, z) \<in> (forest_rel t)\<^sup>*" "(z, i) \<in> forest_rel t"
        by (meson tranclD2)
      with step.hyps(2) have "z = y" using forest_rel_functional by blast
      with z have "(y, y) \<in> (forest_rel t)\<^sup>+" by (meson rtrancl_into_trancl2)
      with step.IH show False ..
    qed
  qed
qed

lemma child_below_root:
  assumes root: "\<And>p. (p, r) \<notin> forest_rel t"
    and i: "i \<in> subtree t r" and c: "t c = Some (Some i)"
  shows "c \<in> subtree t r" "i \<notin> subtree t c" "subtree t c \<subseteq> subtree t i"
proof -
  have rel: "(i, c) \<in> forest_rel t" using c by (simp add: forest_rel_def)
  show "c \<in> subtree t r" using i c by (rule subtree_closed)
  show "subtree t c \<subseteq> subtree t i" using rel by (rule subtree_child)
  show "i \<notin> subtree t c"
  proof
    assume "i \<in> subtree t c"
    then have "(c, i) \<in> (forest_rel t)\<^sup>*" by (simp add: subtree_def)
    with rel have "(i, i) \<in> (forest_rel t)\<^sup>+" by (rule rtrancl_into_trancl2)
    with no_cycle_below_root [OF root i] show False by simp
  qed
qed

lemma subtree_card_below_root:
  assumes "\<And>p. (p, r) \<notin> forest_rel t" and fin: "finite (dom t)"
    and "i \<in> subtree t r" and "t c = Some (Some i)"
  shows "card (subtree t c) < card (subtree t i)"
  using child_below_root [OF assms(1,3,4)] finite_subtree [OF fin, of i]
  by (intro psubset_card_mono) auto

text \<open>Siblings below the root have disjoint subtrees.\<close>

lemma ancestors_linear:
  assumes "(a, x) \<in> (forest_rel t)\<^sup>*" "(b, x) \<in> (forest_rel t)\<^sup>*"
  shows "(a, b) \<in> (forest_rel t)\<^sup>* \<or> (b, a) \<in> (forest_rel t)\<^sup>*"
  using assms
proof (induction arbitrary: b rule: rtrancl_induct)
  case base
  then show ?case by simp
next
  case (step y z)
  from step.prems show ?case
  proof (cases rule: rtranclE)
    case base
    then show ?thesis using step.hyps by (meson rtrancl_into_rtrancl)
  next
    case (step w)
    then have "w = y" using \<open>(y, z) \<in> forest_rel t\<close> forest_rel_functional by blast
    with step.IH step show ?thesis by blast
  qed
qed

lemma sibling_subtrees_disjoint:
  assumes acyc: "(i, i) \<notin> (forest_rel t)\<^sup>+"
    and c: "t c = Some (Some i)" and d: "t d = Some (Some i)" and ne: "c \<noteq> d"
  shows "subtree t c \<inter> subtree t d = {}"
proof (rule ccontr)
  have no: "(a, b) \<notin> (forest_rel t)\<^sup>*" if "t a = Some (Some i)" "t b = Some (Some i)" "a \<noteq> b" for a b
  proof
    assume "(a, b) \<in> (forest_rel t)\<^sup>*"
    with \<open>a \<noteq> b\<close> obtain z where z: "(a, z) \<in> (forest_rel t)\<^sup>*" "(z, b) \<in> forest_rel t"
      by (meson rtranclE)
    with that have "z = i" by (simp add: forest_rel_def)
    with z that have "(i, i) \<in> (forest_rel t)\<^sup>+"
      by (intro rtrancl_into_trancl2 [of i a]) (simp_all add: forest_rel_def)
    with acyc show False by simp
  qed
  assume "subtree t c \<inter> subtree t d \<noteq> {}"
  then obtain x where "(c, x) \<in> (forest_rel t)\<^sup>*" "(d, x) \<in> (forest_rel t)\<^sup>*"
    by (auto simp: subtree_def)
  with ancestors_linear no [OF c d ne] no [OF d c ne [symmetric]] show False by blast
qed

section \<open>Reading records\<close>

definition rec_parent :: "agent_record \<Rightarrow> string option" where
  "rec_parent r = as_string (parent_of r)"

definition kids :: "agent_record list \<Rightarrow> string \<Rightarrow> agent_record list" where
  "kids rs i = filter (\<lambda>r. parent_of r = Some (JStr i)) rs"

definition find_record :: "agent_record list \<Rightarrow> string \<Rightarrow> agent_record option" where
  "find_record rs i = map_of (map (\<lambda>r. (rec_id r, r)) rs) i"

text \<open>The forest a kernel reads out of a record list: uninstalled bundles are no nodes.\<close>

definition load_forest :: "(agent_record \<Rightarrow> bool) \<Rightarrow> agent_record list \<Rightarrow> forest" where
  "load_forest inst rs i =
     (case find_record rs i of
        Some r \<Rightarrow> if inst r then Some (rec_parent r) else None
      | None \<Rightarrow> None)"

lemma find_record_Some:
  "distinct (map rec_id rs) \<Longrightarrow> find_record rs i = Some r \<longleftrightarrow> r \<in> set rs \<and> rec_id r = i"
  unfolding find_record_def by (subst map_of_eq_Some_iff) (auto simp: comp_def)

lemma group_records_spec:
  assumes "group_records rs (ch, root) = (ch', root')"
  shows "(case map_of ch' pid of Some arr \<Rightarrow> arr | None \<Rightarrow> []) =
      (case map_of ch pid of Some arr \<Rightarrow> arr | None \<Rightarrow> []) @ filter (\<lambda>r. parent_of r = Some pid) rs"
    and "root' = (if roots rs = [] then root else Some (last (roots rs)))"
proof -
  have "(case map_of ch' pid of Some arr \<Rightarrow> arr | None \<Rightarrow> []) =
      (case map_of ch pid of Some arr \<Rightarrow> arr | None \<Rightarrow> []) @ filter (\<lambda>r. parent_of r = Some pid) rs
    \<and> root' = (if roots rs = [] then root else Some (last (roots rs)))"
    using assms
  proof (induction rs arbitrary: ch root)
    case Nil
    then show ?case by (simp add: roots_def)
  next
    case (Cons r rs)
    show ?case
    proof (cases "parent_of r")
      case None
      with Cons.IH [of ch "Some r"] Cons.prems show ?thesis by (simp add: roots_def)
    next
      case (Some q)
      let ?arr = "case map_of ch q of Some arr \<Rightarrow> arr | None \<Rightarrow> []"
      from Some Cons.IH [of "AList.update q (?arr @ [r]) ch" root] Cons.prems show ?thesis
        by (cases "pid = q") (simp_all add: roots_def)
    qed
  qed
  then show "(case map_of ch' pid of Some arr \<Rightarrow> arr | None \<Rightarrow> []) =
      (case map_of ch pid of Some arr \<Rightarrow> arr | None \<Rightarrow> []) @ filter (\<lambda>r. parent_of r = Some pid) rs"
    and "root' = (if roots rs = [] then root else Some (last (roots rs)))"
    by simp_all
qed

lemma group_records_valid:
  assumes "valid_snapshot rs root"
  obtains ch r where "group_records rs ([], None) = (ch, Some r)" "rec_id r = root"
    "r \<in> set rs" "parent_of r = None" "\<And>i. child_records ch i = kids rs i"
proof -
  obtain ch ro where g: "group_records rs ([], None) = (ch, ro)" by fastforce
  from assms have one: "map rec_id (roots rs) = [root]" by (simp add: valid_snapshot_def)
  then obtain r where r: "roots rs = [r]" "rec_id r = root" by auto
  then have "r \<in> set rs" "parent_of r = None"
    by (auto simp: roots_def filter_eq_Cons_iff)
  moreover have "ro = Some r" using group_records_spec(2) [OF g] r by simp
  moreover have "child_records ch i = kids rs i" for i
    using group_records_spec(1) [OF g, of "JStr i"] by (simp add: child_records_def kids_def)
  ultimately show thesis using that g r by blast
qed

lemma load_forest_simps:
  assumes "distinct (map rec_id rs)"
  shows "load_forest inst rs i = Some p \<longleftrightarrow> (\<exists>r \<in> set rs. rec_id r = i \<and> inst r \<and> rec_parent r = p)"
    and "dom (load_forest inst rs) = rec_id ` {r \<in> set rs. inst r}"
proof -
  show eq: "load_forest inst rs i = Some p \<longleftrightarrow> (\<exists>r \<in> set rs. rec_id r = i \<and> inst r \<and> rec_parent r = p)"
    for i p
  proof
    assume "load_forest inst rs i = Some p"
    then show "\<exists>r \<in> set rs. rec_id r = i \<and> inst r \<and> rec_parent r = p"
      by (auto simp: load_forest_def find_record_Some [OF assms] split: option.splits if_splits)
  next
    assume "\<exists>r \<in> set rs. rec_id r = i \<and> inst r \<and> rec_parent r = p"
    then obtain r where r: "r \<in> set rs" "rec_id r = i" "inst r" "rec_parent r = p" by blast
    then have "find_record rs i = Some r" by (simp add: find_record_Some [OF assms])
    with r show "load_forest inst rs i = Some p" by (simp add: load_forest_def)
  qed
  show "dom (load_forest inst rs) = rec_id ` {r \<in> set rs. inst r}"
    by (auto simp: dom_def eq)
qed

lemma subtree_load_forest_mono:
  "subtree (load_forest inst rs) i \<subseteq> subtree (load_forest (\<lambda>_. True) rs) i"
proof -
  have "forest_rel (load_forest inst rs) \<subseteq> forest_rel (load_forest (\<lambda>_. True) rs)"
    by (auto simp: forest_rel_def load_forest_def split: option.splits if_splits)
  from rtrancl_mono [OF this] show ?thesis by (auto simp: subtree_def)
qed

section \<open>The result of building a list of siblings\<close>

text \<open>The record an agent loaded from \<open>r\<close> will be saved as.\<close>

definition norm_record :: "agent_record \<Rightarrow> agent_record" where
  "norm_record r = record_of (agent_of_record r (rec_parent r) :: unit agent)"

lemma record_of_agent_of_record:
  "record_of (agent_of_record r (rec_parent r) :: 'h agent) = norm_record r"
  by (simp add: norm_record_def record_of_def agent_of_record_def new_agent_def)

definition built :: "agent_record list \<Rightarrow> 'h kernel \<Rightarrow> 'h kernel \<Rightarrow> string set \<Rightarrow> bool" where
  "built rs k k' N \<longleftrightarrow>
     kernel_wf k' \<and> dom (tree k') = dom (tree k) \<union> N \<and> handlers k' = handlers k \<and>
     (\<forall>j a. get_agent k j = Some a \<longrightarrow>
        (\<exists>a'. get_agent k' j = Some a' \<and> record_of a' = record_of a \<and> parentId a' = parentId a)) \<and>
     (\<forall>j \<in> N. \<exists>r \<in> set rs. rec_id r = j \<and>
        (\<exists>a. get_agent k' j = Some a \<and> record_of a = norm_record r \<and> parentId a = rec_parent r))"

lemma builtD:
  assumes "built rs k k' N"
  shows "kernel_wf k'" "dom (tree k') = dom (tree k) \<union> N" "handlers k' = handlers k"
  using assms by (simp_all add: built_def)

lemma built_refl: "kernel_wf k \<Longrightarrow> built rs k k {}"
  by (simp add: built_def)

lemma built_trans:
  assumes 1: "built rs k k1 N1" and 2: "built rs k1 k2 N2"
  shows "built rs k k2 (N1 \<union> N2)"
proof -
  have "\<exists>a'. get_agent k2 j = Some a' \<and> record_of a' = record_of a \<and> parentId a' = parentId a"
    if "get_agent k j = Some a" for j a
    using that 1 2 unfolding built_def by metis
  moreover have "\<exists>r \<in> set rs. rec_id r = j \<and>
      (\<exists>a. get_agent k2 j = Some a \<and> record_of a = norm_record r \<and> parentId a = rec_parent r)"
    if "j \<in> N1 \<union> N2" for j
    using that 1 2 unfolding built_def by (metis UnE)
  ultimately show ?thesis using builtD [OF 1] builtD [OF 2]
    by (simp add: built_def Un_assoc)
qed

lemma built_act: "kernel_wf k \<Longrightarrow> built rs k (act x k) {}"
proof -
  assume wf: "kernel_wf k"
  have st: "same_tree k (act x k)" by (rule same_tree_frame) (simp_all add: act_def)
  then have "tree (act x k) = tree k"
    using wf by (intro same_tree_tree) (simp_all add: kernel_wf_def)
  with same_tree_wf [OF wf st] show ?thesis
    by (auto simp: built_def act_def get_agent_def)
qed

lemma rootId_update_wf [simp]:
  "kernel_wf (k\<lparr>rootId := x\<rparr>) = kernel_wf k" "tree (k\<lparr>rootId := x\<rparr>) = tree k"
  "get_agent (k\<lparr>rootId := x\<rparr>) = get_agent k"
proof -
  show g: "get_agent (k\<lparr>rootId := x\<rparr>) = get_agent k" by (auto simp: get_agent_def)
  then show "tree (k\<lparr>rootId := x\<rparr>) = tree k" by (auto simp: tree_def)
  then show "kernel_wf (k\<lparr>rootId := x\<rparr>) = kernel_wf k"
    by (simp add: kernel_wf_def addresses_ok_def children_ok_def)
qed

lemma agent_of_record_sel [simp]:
  "ag_id (agent_of_record r p) = rec_id r" "parentId (agent_of_record r p) = p"
  "children (agent_of_record r p) = []" "meta (agent_of_record r p) = record_meta r"
  by (simp_all add: agent_of_record_def new_agent_def)

lemma register_get_agent:
  assumes "addresses_ok k" "register_ok ag k"
  shows "get_agent (register ag k) (ag_id ag) = Some (attach_handler k ag)"
    and "get_agent k j = Some a \<Longrightarrow>
      \<exists>a'. get_agent (register ag k) j = Some a' \<and> record_of a' = record_of a \<and> parentId a' = parentId a"
proof -
  show "get_agent (register ag k) (ag_id ag) = Some (attach_handler k ag)"
    using register_lookup(2) [OF assms] by (simp add: get_agent_def)
  assume "get_agent k j = Some a"
  then obtain x where x: "map_of (agents k) j = Some x" "a = store k ! x"
    by (auto simp: get_agent_def)
  with assms have "x < length (store k)" "j \<noteq> ag_id ag"
    by (auto simp: addresses_ok_def register_ok_def)
  with x register_core [OF assms, of x]
  show "\<exists>a'. get_agent (register ag k) j = Some a' \<and> record_of a' = record_of a \<and> parentId a' = parentId a"
    by (simp add: get_agent_def)
qed

lemma built_node:
  assumes wf: "kernel_wf k" and r: "r \<in> set rs" and p: "rec_parent r = pid"
    and fresh: "rec_id r \<notin> dom (tree k)" and par: "\<And>q. pid = Some q \<Longrightarrow> q \<in> dom (tree k)"
  shows "built rs k (build_node r pid k) {rec_id r}"
proof -
  let ?ag = "agent_of_record r pid"
  have ad: "addresses_ok k" using wf by (simp add: kernel_wf_def)
  have "i \<notin> dom (tree k) \<longleftrightarrow> map_of (agents k) i = None" for i
    by (simp add: dom_tree map_of_eq_None_iff)
  with fresh par have ok: "register_ok ?ag k" by (auto simp: register_ok_def)
  let ?k = "register ?ag k"
  have "get_agent ?k (rec_id r) = Some (attach_handler k ?ag)"
    using register_get_agent(1) [OF ad ok] by simp
  moreover have "record_of (attach_handler k ?ag) = norm_record r"
    using p record_of_agent_of_record [of r] by simp
  ultimately have "built rs k ?k {rec_id r}"
    using register_wf [OF wf ok] tree_register [OF ad ok] register_get_agent(2) [OF ad ok] r p
    by (auto simp: built_def)
  then show ?thesis by (auto simp: build_node_def Let_def built_def)
qed

text \<open>The facts about a valid record list that the recursion rests on.\<close>

definition load_tree_ok :: "agent_record list \<Rightarrow> string \<Rightarrow> bool" where
  "load_tree_ok rs root \<longleftrightarrow> distinct (map rec_id rs) \<and>
     (\<forall>p. (p, root) \<notin> forest_rel (load_forest (\<lambda>_. True) rs))"

text \<open>A list of siblings \<open>sibs\<close> under \<open>pid\<close> that may be built on \<open>k\<close> with stack depth \<open>n\<close>.\<close>

definition buildable ::
    "nat \<Rightarrow> agent_record list \<Rightarrow> string \<Rightarrow> agent_record list \<Rightarrow> string option \<Rightarrow> 'h kernel \<Rightarrow> bool" where
  "buildable n rs root sibs pid k \<longleftrightarrow>
     kernel_wf k \<and> set sibs \<subseteq> set rs \<and> distinct (map rec_id sibs) \<and>
     (\<forall>q. pid = Some q \<longrightarrow> q \<in> dom (tree k)) \<and>
     (\<forall>r \<in> set sibs. rec_parent r = pid \<and>
        rec_id r \<in> subtree (load_forest (\<lambda>_. True) rs) root \<and>
        subtree (load_forest (\<lambda>_. True) rs) (rec_id r) \<inter> dom (tree k) = {} \<and>
        card (subtree (load_forest (\<lambda>_. True) rs) (rec_id r)) \<le> n) \<and>
     (\<forall>r \<in> set sibs. \<forall>s \<in> set sibs. rec_id r \<noteq> rec_id s \<longrightarrow>
        subtree (load_forest (\<lambda>_. True) rs) (rec_id r) \<inter>
        subtree (load_forest (\<lambda>_. True) rs) (rec_id s) = {})"

lemma buildable_kids:
  assumes ok: "load_tree_ok rs root" and b: "buildable (Suc n) rs root (r # sibs) pid k"
    and k1: "built rs k k1 {rec_id r}"
  shows "buildable n rs root (kids rs (rec_id r)) (Some (rec_id r)) k1"
proof -
  let ?T = "load_forest (\<lambda>_. True) rs" and ?i = "rec_id r"
  from ok have d: "distinct (map rec_id rs)" and root: "\<And>p. (p, root) \<notin> forest_rel ?T"
    by (simp_all add: load_tree_ok_def)
  from b have i: "?i \<in> subtree ?T root" and dis: "subtree ?T ?i \<inter> dom (tree k) = {}"
    and card: "card (subtree ?T ?i) \<le> Suc n"
    by (simp_all add: buildable_def)
  have fin: "finite (dom ?T)" by (simp add: load_forest_simps(2) [OF d])
  have kid: "c \<in> set rs" "rec_parent c = Some ?i" "?T (rec_id c) = Some (Some ?i)"
    if "c \<in> set (kids rs ?i)" for c
    using that by (auto simp: kids_def rec_parent_def load_forest_simps(1) [OF d])
  note below = child_below_root [OF root i kid(3)]
  have "subtree ?T (rec_id c) \<inter> dom (tree k1) = {}" if "c \<in> set (kids rs ?i)" for c
    using below(2,3) [OF that] dis builtD(2) [OF k1] by auto
  moreover have "card (subtree ?T (rec_id c)) \<le> n" if "c \<in> set (kids rs ?i)" for c
    using subtree_card_below_root [OF root fin i kid(3) [OF that]] card by simp
  moreover have "distinct (map rec_id (kids rs ?i))"
    using d by (simp add: kids_def distinct_map_filter)
  moreover have "subtree ?T (rec_id c) \<inter> subtree ?T (rec_id e) = {}"
    if "c \<in> set (kids rs ?i)" "e \<in> set (kids rs ?i)" "rec_id c \<noteq> rec_id e" for c e
    using sibling_subtrees_disjoint [OF no_cycle_below_root [OF root i] kid(3) kid(3)] that by blast
  ultimately show ?thesis
    using builtD [OF k1] kid below(1) unfolding buildable_def by auto
qed

lemma buildable_rest:
  assumes b: "buildable n rs root (r # sibs) pid k" and k1: "built rs k k1 N"
    and N: "N \<subseteq> subtree (load_forest (\<lambda>_. True) rs) (rec_id r)"
  shows "buildable n rs root sibs pid k1"
proof -
  let ?T = "load_forest (\<lambda>_. True) rs"
  have "subtree ?T (rec_id s) \<inter> dom (tree k1) = {}" if "s \<in> set sibs" for s
  proof -
    from b that have "rec_id r \<noteq> rec_id s" by (auto simp: buildable_def)
    with b that have "subtree ?T (rec_id r) \<inter> subtree ?T (rec_id s) = {}"
      "subtree ?T (rec_id s) \<inter> dom (tree k) = {}"
      unfolding buildable_def by (meson list.set_intros)+
    with N builtD(2) [OF k1] show ?thesis by blast
  qed
  with b builtD [OF k1] show ?thesis unfolding buildable_def by auto
qed

lemma installed_subtree:
  assumes d: "distinct (map rec_id rs)"
  shows "subtree (load_forest inst rs) i =
    insert i (\<Union>c \<in> {c \<in> set (kids rs i). inst c}. subtree (load_forest inst rs) (rec_id c))"
proof -
  have "{c. load_forest inst rs c = Some (Some i)} = rec_id ` {c \<in> set (kids rs i). inst c}"
    by (auto simp: load_forest_simps(1) [OF d] kids_def rec_parent_def)
  then show ?thesis by (subst subtree_unfold) simp
qed

lemma bundle_installed_cong:
  assumes "handlers k' = handlers k" shows "bundle_installed k' = bundle_installed k"
  by (rule ext) (unfold bundle_installed_def assms, rule refl)

lemma builds_correct:
  assumes "load_tree_ok rs root" "\<And>i. child_records ch i = kids rs i"
    and "buildable n rs root sibs pid k" "bundle_installed k = inst"
  shows "\<exists>k'. builds n ch sibs pid k = Some k' \<and>
    built rs k k' (\<Union>r \<in> {r \<in> set sibs. inst r}. subtree (load_forest inst rs) (rec_id r))"
  using assms
proof (induction n ch sibs pid k rule: builds.induct)
  case (1 n ch pid k)
  then show ?case by (auto simp: buildable_def intro: built_refl)
next
  case (2 ch r sibs pid k)
  let ?T = "load_forest (\<lambda>_. True) rs"
  have "finite (dom ?T)" using 2 by (simp add: load_tree_ok_def load_forest_simps(2))
  then have "finite (subtree ?T (rec_id r))" by (rule finite_subtree)
  with 2 subtree_self [of "rec_id r" ?T] show ?case by (auto simp: buildable_def)
next
  case (3 n ch r sibs pid k)
  let ?T = "load_forest (\<lambda>_. True) rs" and ?S = "load_forest inst rs"
  note ok = "3.prems"(1) and ch = "3.prems"(2) and b = "3.prems"(3) and inst = "3.prems"(4)
  have d: "distinct (map rec_id rs)" using ok by (simp add: load_tree_ok_def)
  have wf: "kernel_wf k" using b by (simp add: buildable_def)
  note same = bundle_installed_cong
  show ?case
  proof (cases "bundle_installed k r")
    case False
    let ?k = "act (skip_warning r) k"
    have k1: "built rs k ?k {}" using wf by (rule built_act)
    from buildable_rest [OF b k1] have "buildable (Suc n) rs root sibs pid ?k" by simp
    from "3.IH"(1) [OF False ok ch this] same [OF builtD(3) [OF k1]] inst
    obtain k' where k': "builds (Suc n) ch sibs pid ?k = Some k'"
      "built rs ?k k' (\<Union>r \<in> {r \<in> set sibs. inst r}. subtree ?S (rec_id r))"
      by auto
    have "{s \<in> set (r # sibs). inst s} = {s \<in> set sibs. inst s}" using False inst by auto
    with built_trans [OF k1 k'(2)] k'(1) False show ?thesis by auto
  next
    case True
    let ?k1 = "build_node r pid k" and ?cs = "kids rs (rec_id r)"
    have dis: "subtree ?T (rec_id r) \<inter> dom (tree k) = {}" using b by (simp add: buildable_def)
    then have "rec_id r \<notin> dom (tree k)" using subtree_self [of "rec_id r" ?T] by blast
    then have k1: "built rs k ?k1 {rec_id r}"
      using b by (intro built_node) (auto simp: buildable_def)
    from "3.IH"(2) [unfolded ch, OF _ ok refl buildable_kids [OF ok b k1]] True inst
      same [OF builtD(3) [OF k1]]
    obtain k2 where k2: "builds n ch ?cs (Some (rec_id r)) ?k1 = Some k2"
      "built rs ?k1 k2 (\<Union>c \<in> {c \<in> set ?cs. inst c}. subtree ?S (rec_id c))"
      by auto
    have k2': "built rs k k2 (subtree ?S (rec_id r))"
      using built_trans [OF k1 k2(2)] by (subst installed_subtree [OF d]) simp
    from buildable_rest [OF b k2'] subtree_load_forest_mono
    have "buildable (Suc n) rs root sibs pid k2" by blast
    from "3.IH"(3) [unfolded ch, OF _ k2(1) ok refl this] True inst same [OF builtD(3) [OF k2']]
    obtain k' where k': "builds (Suc n) ch sibs pid k2 = Some k'"
      "built rs k2 k' (\<Union>r \<in> {r \<in> set sibs. inst r}. subtree ?S (rec_id r))"
      by auto
    have "{s \<in> set (r # sibs). inst s} = insert r {s \<in> set sibs. inst s}" using True inst by auto
    with built_trans [OF k2' k'(2)] k'(1) k2(1) True ch show ?thesis by auto
  qed
qed

section \<open>Loading a snapshot\<close>

lemma valid_snapshot_load_tree:
  assumes "valid_snapshot rs root"
  shows "load_tree_ok rs root"
proof -
  from assms have d: "distinct (map rec_id rs)" by (simp add: valid_snapshot_def)
  obtain ch r where r: "r \<in> set rs" "rec_id r = root" "parent_of r = None"
    using group_records_valid [OF assms] by metis
  have "load_forest (\<lambda>_. True) rs root = Some None"
    using r by (auto simp: load_forest_simps(1) [OF d] rec_parent_def)
  with d show ?thesis by (simp add: load_tree_ok_def forest_rel_def)
qed

lemma kernel_wf_clear: "kernel_wf (clear_tree k)" "tree (clear_tree k) = Map.empty"
proof -
  show t: "tree (clear_tree k) = Map.empty"
    by (rule ext) (simp add: tree_def get_agent_def clear_tree_def)
  show "kernel_wf (clear_tree k)"
    unfolding kernel_wf_def t
    by (simp add: addresses_ok_def children_ok_def forest_ok_def forest_rel_def clear_tree_def
        wf_acyclic)
qed

lemma builds_rootId:
  "builds n ch sibs pid k = Some k' \<Longrightarrow> pid \<noteq> None \<Longrightarrow> rootId k' = rootId k"
proof (induction n ch sibs pid k arbitrary: k' rule: builds.induct)
  case (3 n ch r rs pid k)
  have node: "rootId (build_node r pid k) = rootId k"
    using "3.prems"(2) by (auto simp: build_node_def Let_def)
  show ?case
  proof (cases "bundle_installed k r")
    case False
    with "3.prems" "3.IH"(1) [OF False] show ?thesis by (simp add: act_def)
  next
    case True
    with "3.prems" obtain k1 where
      k1: "builds n ch (child_records ch (rec_id r)) (Some (rec_id r)) (build_node r pid k) = Some k1"
      "builds (Suc n) ch rs pid k1 = Some k'"
      by (auto split: option.splits)
    from True "3.IH"(2) [OF _ k1(1)] "3.IH"(3) [OF _ k1(1) k1(2) "3.prems"(2)] node
    show ?thesis by simp
  qed
qed auto

text \<open>The full description of a successful load.\<close>

definition loaded :: "'h kernel \<Rightarrow> agent_record list \<Rightarrow> string \<Rightarrow> 'h kernel \<Rightarrow> bool" where
  "loaded k rs root k' \<longleftrightarrow>
     built rs (clear_tree k) k'
       (if \<exists>r \<in> set rs. rec_id r = root \<and> bundle_installed k r
        then subtree (load_forest (bundle_installed k) rs) root else {}) \<and>
     rootId k' = (if \<exists>r \<in> set rs. rec_id r = root \<and> bundle_installed k r then Some root else None)"

lemma load_valid:
  assumes v: "validateRecords (snapshot_records s) (snapshot_version s) = Inr root"
    and n: "length (snapshot_records s) \<le> n"
  shows "\<exists>k'. load n s k = Inr k' \<and> loaded k (snapshot_records s) root k'"
proof -
  let ?rs = "snapshot_records s" and ?k = "clear_tree k"
  let ?T = "load_forest (\<lambda>_. True) ?rs"
  have valid: "valid_snapshot ?rs root" using validateRecords_Inr_D(2) [OF v] .
  have d: "distinct (map rec_id ?rs)" using valid by (simp add: valid_snapshot_def)
  obtain ch r where g: "group_records ?rs ([], None) = (ch, Some r)" "rec_id r = root"
    "r \<in> set ?rs" "parent_of r = None" "\<And>i. child_records ch i = kids ?rs i"
    using group_records_valid [OF valid] by metis
  have inst: "bundle_installed ?k = bundle_installed k"
    by (rule bundle_installed_cong) (simp add: clear_tree_def)
  have "dom ?T = rec_id ` set ?rs" by (simp add: load_forest_simps(2) [OF d])
  with subtree_subset_dom [of ?T root] g(2,3) have "subtree ?T root \<subseteq> rec_id ` set ?rs" by auto
  then have "card (subtree ?T root) \<le> card (rec_id ` set ?rs)" by (rule card_mono [rotated]) simp
  also have "\<dots> \<le> length ?rs" by (metis card_length length_map set_map)
  finally have "buildable n ?rs root [r] None ?k"
    using g n kernel_wf_clear [of k] by (auto simp: buildable_def rec_parent_def)
  from builds_correct [OF valid_snapshot_load_tree [OF valid] g(5) this inst]
  obtain k' where k': "builds n ch [r] None ?k = Some k'"
    "built ?rs ?k k' (\<Union>r \<in> {x \<in> set [r]. bundle_installed k x}.
       subtree (load_forest (bundle_installed k) ?rs) (rec_id r))"
    by blast
  have uniq: "(\<exists>x \<in> set ?rs. rec_id x = root \<and> bundle_installed k x) \<longleftrightarrow> bundle_installed k r"
    using g(2,3) d by (metis find_record_Some option.inject)
  have "rootId k' = (if bundle_installed k r then Some root else None)"
  proof (cases n)
    case 0
    with k'(1) show ?thesis by simp
  next
    case (Suc m)
    with k'(1) inst g(2) show ?thesis
      by (auto simp: act_def clear_tree_def build_node_def Let_def
          split: if_splits option.splits dest!: builds_rootId)
  qed
  moreover have "load n s k = Inr k'" using v g(1) k'(1) by (simp add: load_def)
  ultimately show ?thesis using k'(2) uniq g(2) by (auto simp: loaded_def)
qed

section \<open>Saving and loading back\<close>

text \<open>Record fields of an agent never come from its metadata: no reserved key, no repeated key.\<close>

definition meta_ok :: "'h agent \<Rightarrow> bool" where
  "meta_ok a \<longleftrightarrow> distinct (map fst (meta a)) \<and>
     {''id'', ''handler_module'', ''parent_id''} \<inter> fst ` set (meta a) = {}"

lemma obj_assign_fresh:
  "distinct (map fst (ob @ m)) \<Longrightarrow> obj_assign ob m = ob @ m"
proof (induction m arbitrary: ob)
  case Nil
  then show ?case by (simp add: obj_assign_def)
next
  case (Cons x m)
  obtain k v where x: "x = (k, v)" by (cases x)
  with Cons.prems have "AList.update k v ob = ob @ [(k, v)]" by (intro update_fresh) auto
  with Cons.IH [of "ob @ [(k, v)]"] Cons.prems x show ?case by (simp add: obj_assign_def)
qed

definition header_of :: "'h agent \<Rightarrow> payload" where
  "header_of a = (''id'', JStr (ag_id a)) #
     (case handlerModule a of None \<Rightarrow> [] | Some hm \<Rightarrow> [(''handler_module'', JStr hm)]) @
     (case parentId a of None \<Rightarrow> [] | Some p \<Rightarrow> [(''parent_id'', JStr p)])"

lemma record_of_meta_ok:
  assumes "meta_ok a" shows "record_of a = header_of a @ meta a"
proof -
  have "record_of a = obj_assign (header_of a) (meta a)"
    by (simp add: record_of_def header_of_def Let_def split: option.split)
  also have "\<dots> = header_of a @ meta a"
    using assms by (intro obj_assign_fresh)
      (auto simp: header_of_def meta_ok_def split: option.split)
  finally show ?thesis .
qed

lemma map_of_append_fresh:
  "k \<notin> fst ` set ys \<Longrightarrow> (map_of ys ++ map_of xs) k = map_of xs k"
  by (simp add: map_add_def map_of_eq_None_iff [THEN iffD2] split: option.split)

lemma record_of_lookup:
  assumes "meta_ok a"
  shows "rec_id (record_of a) = ag_id a"
    "map_of (record_of a) ''handler_module'' = map_option JStr (handlerModule a)"
    "parent_of (record_of a) = map_option JStr (parentId a)"
    "rec_parent (record_of a) = parentId a"
    "record_meta (record_of a) = meta a"
proof -
  have fresh: "k \<notin> fst ` set (meta a)" if "k \<in> {''id'', ''handler_module'', ''parent_id''}" for k
    using that assms unfolding meta_ok_def by blast
  have look: "map_of (record_of a) k = map_of (header_of a) k"
    if "k \<in> {''id'', ''handler_module'', ''parent_id''}" for k
    using fresh [OF that] by (simp add: record_of_meta_ok [OF assms] map_of_append_fresh)
  show "rec_id (record_of a) = ag_id a"
    by (simp add: rec_id_def look) (simp add: header_of_def)
  show "map_of (record_of a) ''handler_module'' = map_option JStr (handlerModule a)"
    by (simp add: look) (simp add: header_of_def split: option.split)
  show p: "parent_of (record_of a) = map_option JStr (parentId a)"
    by (simp add: parent_of_def look) (simp add: header_of_def split: option.split)
  show "rec_parent (record_of a) = parentId a"
    by (cases "parentId a") (simp_all add: rec_parent_def p)
  have "filter (\<lambda>(k, _). k \<noteq> ''id'' \<and> k \<noteq> ''handler_module'' \<and> k \<noteq> ''parent_id'') (record_of a) = meta a"
  proof -
    have "filter (\<lambda>(k, _). k \<noteq> ''id'' \<and> k \<noteq> ''handler_module'' \<and> k \<noteq> ''parent_id'') (meta a) = meta a"
      using fresh [of "''id''"] fresh [of "''handler_module''"] fresh [of "''parent_id''"]
      by (intro filter_True) (auto simp: image_iff)
    then show ?thesis
      by (simp add: record_of_meta_ok [OF assms] header_of_def split: option.split)
  qed
  then show "record_meta (record_of a) = meta a"
    using assms by (simp add: record_meta_def obj_assign_fresh meta_ok_def)
qed

lemma record_of_cong:
  "ag_id x = ag_id y \<Longrightarrow> handlerModule x = handlerModule y \<Longrightarrow> parentId x = parentId y \<Longrightarrow>
   meta x = meta y \<Longrightarrow> record_of x = record_of y"
  by (simp add: record_of_def)

lemma norm_record_of:
  assumes "meta_ok a" shows "norm_record (record_of a) = record_of a"
  unfolding norm_record_def
proof (rule record_of_cong)
  show "handlerModule (agent_of_record (record_of a) (rec_parent (record_of a)) :: unit agent) =
      handlerModule a"
    by (cases "handlerModule a")
      (simp_all add: agent_of_record_def new_agent_def record_of_lookup(2) [OF assms])
qed (simp_all add: record_of_lookup [OF assms])

text \<open>A tree that can be saved and loaded: every agent is rooted in the one agent without a
  parent, ids are non-empty, records are clean and every bundle is installed.\<close>

definition saveable :: "'h kernel \<Rightarrow> string \<Rightarrow> bool" where
  "saveable k root \<longleftrightarrow>
     kernel_wf k \<and> {i. tree k i = Some None} = {root} \<and>
     (\<forall>i a. get_agent k i = Some a \<longrightarrow> i \<noteq> [] \<and> meta_ok a \<and>
        (\<forall>hm. handlerModule a = Some hm \<longrightarrow> map_of (handlers k) hm \<noteq> None))"

definition saved_records :: "'h kernel \<Rightarrow> agent_record list" where
  "saved_records k = map (\<lambda>(_, a). record_of (store k ! a)) (agents k)"

lemma save_records:
  "save k = Envelope (Some CURRENT_VERSION) (sort_key rec_id (saved_records k))"
  by (simp add: save_def saved_records_def)

lemma set_saved_records:
  "addresses_ok k \<Longrightarrow> set (saved_records k) = {record_of a |i a. get_agent k i = Some a}"
  by (force simp: saved_records_def get_agent_def addresses_ok_def map_of_Some_iff)

lemma rec_id_saved_records:
  assumes "addresses_ok k" "\<And>i a. get_agent k i = Some a \<Longrightarrow> meta_ok a"
  shows "map rec_id (saved_records k) = map fst (agents k)"
proof -
  have "rec_id (record_of (store k ! a)) = i" if "(i, a) \<in> set (agents k)" for i a
  proof -
    from that assms(1) have "map_of (agents k) i = Some a"
      by (simp add: addresses_ok_def map_of_Some_iff)
    with assms have "meta_ok (store k ! a)" "ag_id (store k ! a) = i"
      by (auto simp: get_agent_def addresses_ok_def)
    then show ?thesis by (simp add: record_of_lookup)
  qed
  then show ?thesis by (force simp: saved_records_def)
qed

text \<open>A forest with a single root is the subtree of its root.\<close>

lemma single_root_subtree:
  assumes ok: "forest_ok t" and one: "{i. t i = Some None} = {root}"
  shows "subtree t root = dom t"
proof
  show "subtree t root \<subseteq> dom t" using subtree_subset_dom [of t root] one by auto
  have wf: "wf (forest_rel t)"
  proof (rule finite_acyclic_wf)
    have "forest_rel t \<subseteq> dom t \<times> dom t" using ok by (auto simp: forest_ok_def forest_rel_def)
    with ok show "finite (forest_rel t)" by (auto simp: forest_ok_def intro: finite_subset)
  qed (use ok in \<open>simp add: forest_ok_def\<close>)
  have "c \<in> dom t \<Longrightarrow> c \<in> subtree t root" for c
  proof (induction c rule: wf_induct_rule [OF wf])
    case (1 c)
    show ?case
    proof (cases "t c")
      case (Some p)
      show ?thesis
      proof (cases p)
        case None
        with Some one have "c = root" by auto
        then show ?thesis by simp
      next
        case (Some q)
        with \<open>t c = Some p\<close> have "(q, c) \<in> forest_rel t" "q \<in> dom t" "t c = Some (Some q)"
          using ok by (auto simp: forest_rel_def forest_ok_def)
        with "1.IH" show ?thesis by (blast intro: subtree_closed)
      qed
    qed (use 1 in auto)
  qed
  then show "dom t \<subseteq> subtree t root" by blast
qed

lemma saved_snapshot_valid:
  assumes "saveable k root"
  shows "valid_snapshot (sort_key rec_id (saved_records k)) root"
    and "load_forest (bundle_installed k) (sort_key rec_id (saved_records k)) = tree k"
proof -
  let ?rs = "sort_key rec_id (saved_records k)"
  from assms have wf: "kernel_wf k" and one: "{i. tree k i = Some None} = {root}"
    and ok: "\<And>i a. get_agent k i = Some a \<Longrightarrow> i \<noteq> [] \<and> meta_ok a \<and>
        (\<forall>hm. handlerModule a = Some hm \<longrightarrow> map_of (handlers k) hm \<noteq> None)"
    by (simp_all add: saveable_def)
  from wf have ad: "addresses_ok k" by (simp add: kernel_wf_def)
  have agid: "ag_id a = i" if "get_agent k i = Some a" for i a
    using that ad by (auto simp: get_agent_def addresses_ok_def)
  have mem: "r \<in> set ?rs \<longleftrightarrow> (\<exists>i a. get_agent k i = Some a \<and> r = record_of a)" for r
    by (auto simp: set_saved_records [OF ad])
  note look = record_of_lookup [OF conjunct1 [OF conjunct2 [OF ok]]]
  have idp: "rec_id (record_of a) = i" "rec_parent (record_of a) = parentId a"
    if "get_agent k i = Some a" for i a
    using look(1,4) [OF that] agid [OF that] by simp_all
  have d0: "distinct (map rec_id (saved_records k))"
    using ad ok by (subst rec_id_saved_records) (auto simp: addresses_ok_def)
  then have d: "distinct (map rec_id ?rs)"
    by (metis distinct_map distinct_sort set_sort)
  have inst: "bundle_installed k (record_of a)" if "get_agent k i = Some a" for i a
    using ok [OF that] look(2) [OF that] by (cases "handlerModule a") (simp_all add: bundle_installed_def)
  show "load_forest (bundle_installed k) ?rs = tree k"
  proof
    fix i
    have "load_forest (bundle_installed k) ?rs i = Some p \<longleftrightarrow> tree k i = Some p" for p
    proof -
      have "load_forest (bundle_installed k) ?rs i = Some p \<longleftrightarrow>
          (\<exists>j a. get_agent k j = Some a \<and> rec_id (record_of a) = i \<and> rec_parent (record_of a) = p)"
        unfolding load_forest_simps(1) [OF d] Bex_def mem using inst by blast
      also have "\<dots> \<longleftrightarrow> (\<exists>a. get_agent k i = Some a \<and> parentId a = p)"
      proof
        assume "\<exists>j a. get_agent k j = Some a \<and> rec_id (record_of a) = i \<and> rec_parent (record_of a) = p"
        then obtain j a where a: "get_agent k j = Some a" "rec_id (record_of a) = i"
          "rec_parent (record_of a) = p" by blast
        with idp [OF a(1)] show "\<exists>a. get_agent k i = Some a \<and> parentId a = p" by auto
      next
        assume "\<exists>a. get_agent k i = Some a \<and> parentId a = p"
        then obtain a where a: "get_agent k i = Some a" "parentId a = p" by blast
        with idp [OF a(1)] show
          "\<exists>j a. get_agent k j = Some a \<and> rec_id (record_of a) = i \<and> rec_parent (record_of a) = p"
          by auto
      qed
      finally show ?thesis by (auto simp: tree_def)
    qed
    then show "load_forest (bundle_installed k) ?rs i = tree k i" by (metis not_None_eq)
  qed
  have par: "parent_of (record_of a) = None \<longleftrightarrow> i = root" if "get_agent k i = Some a" for i a
  proof -
    have "tree k i = Some None \<longleftrightarrow> i = root" using one by blast
    with look(3) [OF that] that show ?thesis by (simp add: tree_def)
  qed
  have "set (map rec_id (roots ?rs)) = {root}"
  proof -
    have "set (map rec_id (roots ?rs)) = {i. \<exists>a. get_agent k i = Some a \<and> i = root}"
      using mem par idp(1) by (fastforce simp: roots_def)
    moreover have "get_agent k root \<noteq> None" using one by (auto simp: tree_def)
    ultimately show ?thesis by auto
  qed
  moreover have "distinct (map rec_id (roots ?rs))"
    using d by (simp add: roots_def distinct_map_filter)
  ultimately have "map rec_id (roots ?rs) = [root]"
    by (intro distinct_singletonI)
  moreover have "\<exists>q \<in> set ?rs. p = JStr (rec_id q)" if "r \<in> set ?rs" "parent_of r = Some p" for r p
  proof -
    from that mem obtain i a where a: "get_agent k i = Some a" "r = record_of a" by blast
    with that look(3) [OF a(1)] obtain q where q: "parentId a = Some q" "p = JStr q" by auto
    with a wf obtain b where b: "get_agent k q = Some b"
      by (fastforce simp: kernel_wf_def forest_ok_def tree_def)
    with idp(1) [OF b] q mem show ?thesis by auto
  qed
  moreover have "rec_id r \<noteq> []" if r: "r \<in> set ?rs" for r
  proof -
    from r mem obtain i a where a: "get_agent k i = Some a" "r = record_of a" by blast
    with idp(1) [OF a(1)] ok [OF a(1)] show ?thesis by simp
  qed
  ultimately show "valid_snapshot ?rs root"
    unfolding valid_snapshot_def using d by (intro conjI ballI allI impI)
qed

lemma set_eq_saved:
  assumes "addresses_ok k" "addresses_ok k'" "distinct (map rec_id (saved_records k))"
    and "distinct (map rec_id (saved_records k'))"
    and "set (saved_records k') = set (saved_records k)"
  shows "save k' = save k"
proof -
  have inj: "inj_on rec_id (set (saved_records k))" using assms(3) by (simp add: distinct_map)
  have "mset (saved_records k') = mset (saved_records k)"
    using assms by (metis distinct_map set_eq_iff_mset_eq_distinct)
  then have "sort_key rec_id (saved_records k') = sort_key rec_id (saved_records k)"
    using inj assms(5) by (intro sort_key_inj_key_eq) simp_all
  then show ?thesis by (simp add: save_records)
qed

lemma loaded_records:
  assumes s: "saveable k root" and l: "loaded k (sort_key rec_id (saved_records k)) root k'"
  shows "kernel_wf k'" "dom (tree k') = dom (tree k)" "rootId k' = Some root"
    "\<And>i a. get_agent k i = Some a \<Longrightarrow>
       \<exists>a'. get_agent k' i = Some a' \<and> record_of a' = record_of a \<and> parentId a' = parentId a"
proof -
  let ?rs = "sort_key rec_id (saved_records k)"
  from s have wf: "kernel_wf k" and one: "{i. tree k i = Some None} = {root}"
    and ok: "\<And>i a. get_agent k i = Some a \<Longrightarrow> meta_ok a"
    by (simp_all add: saveable_def)
  then have ad: "addresses_ok k" and fo: "forest_ok (tree k)" by (simp_all add: kernel_wf_def)
  have d: "distinct (map rec_id ?rs)"
    using saved_snapshot_valid(1) [OF s] by (simp add: valid_snapshot_def)
  have "tree k root = Some None" using one by auto
  then have "\<exists>r \<in> set ?rs. rec_id r = root \<and> bundle_installed k r"
    using saved_snapshot_valid(2) [OF s] load_forest_simps(1) [OF d, of _ root None] by metis
  with l have b: "built ?rs (clear_tree k) k' (dom (tree k))" and root: "rootId k' = Some root"
    by (simp_all add: loaded_def saved_snapshot_valid(2) [OF s] single_root_subtree [OF fo one])
  from b show "kernel_wf k'" "dom (tree k') = dom (tree k)"
    by (simp_all add: built_def kernel_wf_clear)
  show "rootId k' = Some root" by (rule root)
  fix i a assume a: "get_agent k i = Some a"
  then have "i \<in> dom (tree k)" by (auto simp: tree_def)
  with b obtain r a' where r: "r \<in> set ?rs" "rec_id r = i" and a': "get_agent k' i = Some a'"
    "record_of a' = norm_record r" "parentId a' = rec_parent r"
    unfolding built_def by blast
  have "record_of a \<in> set ?rs" using a by (auto simp: set_saved_records [OF ad])
  moreover have "rec_id (record_of a) = i"
    using record_of_lookup(1) [OF ok [OF a]] a ad by (auto simp: get_agent_def addresses_ok_def)
  ultimately have "r = record_of a"
    using r d by (metis (no_types, lifting) find_record_Some option.inject)
  with a' norm_record_of [OF ok [OF a]] record_of_lookup(4) [OF ok [OF a]]
  show "\<exists>a'. get_agent k' i = Some a' \<and> record_of a' = record_of a \<and> parentId a' = parentId a"
    by simp
qed

lemma loaded_save:
  assumes s: "saveable k root" and l: "loaded k (sort_key rec_id (saved_records k)) root k'"
  shows "save k' = save k" "tree k' = tree k"
proof -
  note l' = loaded_records [OF s l]
  from s have wf: "kernel_wf k" and ok: "\<And>i a. get_agent k i = Some a \<Longrightarrow> meta_ok a"
    by (simp_all add: saveable_def)
  have ad: "addresses_ok k" "addresses_ok k'" using wf l'(1) by (simp_all add: kernel_wf_def)
  have dom: "get_agent k i = None \<longleftrightarrow> get_agent k' i = None" for i
  proof -
    have "tree k i = None \<longleftrightarrow> tree k' i = None" using l'(2) by (metis domIff)
    then show ?thesis by (simp add: tree_def)
  qed
  show t: "tree k' = tree k"
  proof
    fix i show "tree k' i = tree k i"
      using dom [of i] l'(4) [of i] by (cases "get_agent k i") (auto simp: tree_def)
  qed
  have recs: "set (saved_records k') = set (saved_records k)"
  proof -
    have "(\<exists>i a. get_agent k' i = Some a \<and> r = record_of a) \<longleftrightarrow>
        (\<exists>i a. get_agent k i = Some a \<and> r = record_of a)" for r
      using dom l'(4) by (metis not_None_eq option.inject)
    then show ?thesis unfolding set_saved_records [OF ad(1)] set_saved_records [OF ad(2)] by blast
  qed
  have d: "distinct (map rec_id (saved_records k))"
    using ad ok by (subst rec_id_saved_records) (auto simp: addresses_ok_def)
  have "rec_id ` set (saved_records k') = fst ` set (agents k')"
  proof -
    have "map rec_id (saved_records k) = map fst (agents k)"
      using ad(1) ok by (rule rec_id_saved_records)
    then have "set (map rec_id (saved_records k)) = set (map fst (agents k))" by (rule arg_cong)
    then show ?thesis using recs l'(2) by (simp add: dom_tree)
  qed
  moreover have "card (set (map fst (agents k'))) = length (map fst (agents k'))"
    using ad(2) by (intro distinct_card) (simp add: addresses_ok_def)
  moreover have "length (saved_records k') = length (agents k')" by (simp add: saved_records_def)
  ultimately have "card (set (map rec_id (saved_records k'))) = length (map rec_id (saved_records k'))"
    by simp
  then have "distinct (map rec_id (saved_records k'))" by (rule card_distinct)
  with set_eq_saved [OF ad d] recs show "save k' = save k" by simp
qed

section \<open>Properties of the tree operations\<close>

text \<open>A small tree for the witnesses: \<^verbatim>\<open>canvas\<close> with child \<^verbatim>\<open>a\<close>, which has child \<^verbatim>\<open>b\<close>, and one
  state subscriber.\<close>

definition leaf_agent :: "string \<Rightarrow> string option \<Rightarrow> nat agent" where
  "leaf_agent i p = new_agent \<lparr>init_id = i, init_handlerModule = None, init_parentId = p,
     init_sentence = None, init_verbs = None, init_meta = None, init_handler = None\<rparr>"

definition sample_kernel :: "nat kernel" where
  "sample_kernel = register (leaf_agent ''b'' (Some ''a''))
     (register (leaf_agent ''a'' (Some ''canvas''))
       (setRoot (leaf_agent ''canvas'' None) (addStateSubscriber 7 (new_kernel 0))))"

lemma kernel_wf_new: "kernel_wf (new_kernel now)"
proof -
  have t: "tree (new_kernel now) = Map.empty"
    by (rule ext) (simp add: tree_def get_agent_def new_kernel_def)
  show ?thesis unfolding kernel_wf_def t
    by (simp add: addresses_ok_def children_ok_def forest_ok_def forest_rel_def new_kernel_def
        wf_acyclic)
qed

lemma addStateSubscriber_wf: "kernel_wf k \<Longrightarrow> kernel_wf (addStateSubscriber cb k)"
  by (erule same_tree_wf) (rule same_tree_frame; simp add: addStateSubscriber_def)

lemma setRoot_wf:
  assumes "kernel_wf k" "map_of (agents k) (ag_id ag) = None \<Longrightarrow> register_ok ag k"
  shows "kernel_wf (setRoot ag k)"
  using assms register_wf by (auto simp: setRoot_def Let_def)

lemmas sample_defs = sample_kernel_def leaf_agent_def new_agent_def new_kernel_def
  addStateSubscriber_def setRoot_def register_def attach_handler_def link_child_def
  publishState_def stamp_def added_event_def displayName_def set_add_def Let_def

lemma sample_agents: "agents sample_kernel = [(''canvas'', 0), (''a'', 1), (''b'', 2)]"
  by (simp add: sample_defs)

lemma sample_tree:
  "tree sample_kernel = [''canvas'' \<mapsto> None, ''a'' \<mapsto> Some ''canvas'', ''b'' \<mapsto> Some ''a'']"
  by (rule ext) (simp add: tree_def get_agent_def sample_agents, simp add: sample_defs)

lemma sample_wf: "kernel_wf sample_kernel"
  unfolding sample_kernel_def
  by (intro register_wf setRoot_wf addStateSubscriber_wf kernel_wf_new)
    (simp_all add: register_ok_def sample_defs)

lemma card_subtree_agents:
  assumes "kernel_wf k" "map_of (agents k) i \<noteq> None"
  shows "card (subtree (tree k) i) \<le> length (agents k)"
proof -
  have "i \<in> dom (tree k)" using assms(2) by (auto simp: tree_def get_agent_def)
  then have "subtree (tree k) i \<subseteq> fst ` set (agents k)"
    using subtree_subset_dom [of "tree k" i] by (auto simp: dom_tree)
  then have "card (subtree (tree k) i) \<le> card (fst ` set (agents k))" by (rule card_mono [rotated]) simp
  also have "\<dots> \<le> length (agents k)" by (metis card_length length_map set_map)
  finally show ?thesis .
qed

lemma remove_removed:
  assumes "kernel_wf k" "map_of (agents k) i \<noteq> None" "length (agents k) \<le> n"
  shows "\<exists>k' js. remove n i k = Some (k', True) \<and> removed k k' (subtree (tree k) i) js \<and>
    tree k' = prune (tree k) (subtree (tree k) i)"
proof -
  have "card (subtree (tree k) i) \<le> n" using card_subtree_agents [OF assms(1,2)] assms(3) by simp
  with removes_correct [OF assms(1), of "[i]" n] obtain k' js where
    k': "removes n [i] k = Some k'" and r: "removed k k' (subtree (tree k) i) js"
    by auto
  have "tree k' = prune (tree k) (subtree (tree k) i)"
    using assms(1) by (intro removed_tree [OF r]) (simp add: kernel_wf_def)
  moreover have "remove n i k = Some (k', True)" using assms(2) k' by (auto simp: remove_def)
  ultimately show ?thesis using r by blast
qed

text \<open>
  C4: on a well-formed registry, with a call stack no deeper than the number of agents,
  \<^verbatim>\<open>remove(id)\<close> returns true, leaves a well-formed registry from which exactly the subtree of
  \<open>id\<close> is gone, and publishes one \<^verbatim>\<open>removed\<close> event per removed node and subscriber, every node
  after its children.
\<close>

theorem remove_correct:
  assumes "kernel_wf k" "map_of (agents k) i \<noteq> None" "length (agents k) \<le> n"
  shows "\<exists>k' js. remove n i k = Some (k', True) \<and> kernel_wf k' \<and>
    tree k' = prune (tree k) (subtree (tree k) i) \<and>
    distinct js \<and> set js = subtree (tree k) i \<and> deepest_first (tree k) js \<and>
    trace k' = trace k @ concat (map (removal_notes k) js)"
proof -
  obtain k' js where k': "remove n i k = Some (k', True)" "tree k' = prune (tree k) (subtree (tree k) i)"
    and r: "removed k k' (subtree (tree k) i) js"
    using remove_removed [OF assms] by blast
  moreover have "subtree (tree k) i \<inter> dom (tree k) = subtree (tree k) i"
    using subtree_subset_dom [of "tree k" i] assms(2) by (auto simp: tree_def get_agent_def)
  ultimately show ?thesis using removedD [OF r] by auto
qed

theorem remove_correct_witness:
  "kernel_wf sample_kernel \<and> map_of (agents sample_kernel) ''a'' \<noteq> None \<and>
   (\<exists>k' js. remove 3 ''a'' sample_kernel = Some (k', True) \<and>
     tree k' = prune (tree sample_kernel) (subtree (tree sample_kernel) ''a'') \<and>
     deepest_first (tree sample_kernel) js \<and>
     trace k' = trace sample_kernel @ concat (map (removal_notes sample_kernel) js))"
  using remove_correct [OF sample_wf, of "''a''" 3] sample_wf by (auto simp: sample_agents)

text \<open>
  Registering an agent as its own parent links it into its own children map, and removing it
  then never returns: every finite call stack overflows.
\<close>

theorem remove_self_parent_overflows:
  assumes "map_of (agents k) (ag_id ag) = None" "parentId ag = Some (ag_id ag)" "children ag = []"
  shows "remove n (ag_id ag) (register ag k) = None"
proof -
  let ?i = "ag_id ag" and ?a = "length (store k)" and ?k = "register ag k"
  have ad: "map_of (agents ?k) ?i = Some ?a" by simp
  have ch: "map fst (children (store ?k ! ?a)) = [?i]"
    using assms by (simp add: register_def Let_def link_child_def)
  have "removes n [?i] ?k = None"
    by (induction n) (simp_all add: ad ch)
  then show ?thesis using ad by (simp add: remove_def)
qed

theorem remove_self_parent_overflows_witness:
  "remove 100 ''x'' (register (leaf_agent ''x'' (Some ''x'')) sample_kernel) = None"
  using remove_self_parent_overflows [of sample_kernel "leaf_agent ''x'' (Some ''x'')" 100]
  by (simp add: sample_agents leaf_agent_def new_agent_def)

text \<open>What \<^verbatim>\<open>load\<close> makes of a valid snapshot.\<close>

lemma load_result:
  assumes "validateRecords (snapshot_records s) (snapshot_version s) = Inr root"
    and "length (snapshot_records s) \<le> n"
  shows "\<exists>k'. load n s k = Inr k' \<and> kernel_wf k' \<and>
    dom (tree k') =
      (if \<exists>r \<in> set (snapshot_records s). rec_id r = root \<and> bundle_installed k r
       then subtree (load_forest (bundle_installed k) (snapshot_records s)) root else {}) \<and>
    (\<forall>j \<in> dom (tree k'). \<exists>r \<in> set (snapshot_records s). rec_id r = j \<and> tree k' j = Some (rec_parent r) \<and>
       map_option record_of (get_agent k' j) = Some (norm_record r))"
proof -
  obtain k' where k': "load n s k = Inr k'" and l: "loaded k (snapshot_records s) root k'"
    using load_valid [OF assms] by blast
  let ?N = "if \<exists>r \<in> set (snapshot_records s). rec_id r = root \<and> bundle_installed k r
       then subtree (load_forest (bundle_installed k) (snapshot_records s)) root else {}"
  from l have b: "built (snapshot_records s) (clear_tree k) k' ?N" by (simp add: loaded_def)
  have d: "dom (tree k') = ?N" using builtD(2) [OF b] by (simp add: kernel_wf_clear)
  have "\<exists>r \<in> set (snapshot_records s). rec_id r = j \<and> tree k' j = Some (rec_parent r) \<and>
      map_option record_of (get_agent k' j) = Some (norm_record r)" if "j \<in> dom (tree k')" for j
    using that b unfolding d built_def by (fastforce simp: tree_def)
  with k' d builtD(1) [OF b] show ?thesis by blast
qed

definition sample_snapshot :: snapshot where
  "sample_snapshot = Envelope (Some 1)
     [[(''id'', JStr ''canvas'')],
      [(''id'', JStr ''pane''), (''handler_module'', JStr ''gone.tools''), (''parent_id'', JStr ''canvas'')],
      [(''id'', JStr ''leaf''), (''parent_id'', JStr ''pane'')]]"

text \<open>
  C7: a valid snapshot loads with a call stack bounded by its length. The new registry is well
  formed, holds exactly the records reachable from the root through records whose bundle is
  installed (an uninstalled bundle drops its whole subtree; an uninstalled root drops everything),
  and every loaded agent is the agent of its record under its recorded parent.
\<close>

theorem load_weak_load:
  assumes "validateRecords (snapshot_records s) (snapshot_version s) = Inr root"
    and "length (snapshot_records s) \<le> n"
  shows "\<exists>k'. load n s k = Inr k' \<and> kernel_wf k' \<and>
    dom (tree k') =
      (if \<exists>r \<in> set (snapshot_records s). rec_id r = root \<and> bundle_installed k r
       then subtree (load_forest (bundle_installed k) (snapshot_records s)) root else {}) \<and>
    (\<forall>j \<in> dom (tree k'). \<exists>r \<in> set (snapshot_records s). rec_id r = j \<and> tree k' j = Some (rec_parent r) \<and>
       map_option record_of (get_agent k' j) = Some (norm_record r))"
  using assms by (rule load_result)

theorem load_weak_load_witness:
  "validateRecords (snapshot_records sample_snapshot) (snapshot_version sample_snapshot) = Inr ''canvas'' \<and>
   (\<exists>k'. load 3 sample_snapshot sample_kernel = Inr k' \<and> kernel_wf k')"
proof -
  have "validateRecords (snapshot_records sample_snapshot) (snapshot_version sample_snapshot) =
      Inr ''canvas''"
    by (simp add: js_defs sample_snapshot_def)
  moreover have "length (snapshot_records sample_snapshot) \<le> 3"
    by (simp add: sample_snapshot_def snapshot_records_def)
  ultimately show ?thesis using load_weak_load [of sample_snapshot "''canvas''" 3] by blast
qed


lemma sample_saveable: "saveable sample_kernel ''canvas''"
proof -
  have "get_agent sample_kernel i = Some a \<Longrightarrow> i \<noteq> [] \<and> meta a = [] \<and> handlerModule a = None" for i a
    by (auto simp: get_agent_def sample_agents split: if_splits) (simp_all add: sample_defs)
  then show ?thesis
    using sample_wf by (auto simp: saveable_def sample_tree meta_ok_def split: if_splits)
qed


end
