(* ===== verification/Reflect.thy ===== *)
theory Reflect
  imports Kernel_Load
begin

text \<open>
  Uniform \<^verbatim>\<open>reflect\<close> (\<^verbatim>\<open>ts/src/kernel/reflect.ts\<close>) and the one primitive \<^verbatim>\<open>Kernel.send\<close>.
  The walks over the children maps take the available stack depth, as in \<open>Kernel\<close>.
  Bundle handlers are an argument \<open>run\<close> of \<open>send\<close>: \<open>run h id payload k\<close> is the reply of handler
  \<open>h\<close> and the kernel it leaves behind.
\<close>

section \<open>The identity block\<close>

definition ROOT_SENTENCE :: string where
  "ROOT_SENTENCE = ''Fantastic kernel. Everything is reachable by sending messages to agents.''"

definition BARE_SENTENCE :: string where
  "BARE_SENTENCE = ''Bare agent (no handler_module) '' @ [CHR 0xE2, CHR 0x80, CHR 0x94]
     @ '' answers substrate verbs only.''"

definition in_object :: "string \<Rightarrow> payload \<Rightarrow> bool" where
  "in_object key ob = (map_of ob key \<noteq> None \<or> key \<in> set prototype_keys)"

fun add_missing :: "payload \<Rightarrow> payload \<Rightarrow> payload" where
  "add_missing ob [] = ob"
| "add_missing ob ((key, v) # m) =
     add_missing (if \<not> in_object key ob then AList.update key v ob else ob) m"

definition verbs_object :: "(string \<times> string) list \<Rightarrow> json" where
  "verbs_object vs = JObj (map (\<lambda>(verb, doc). (verb, JStr doc)) vs)"

definition reflectIdentity :: "'h agent \<Rightarrow> string option \<Rightarrow> payload" where
  "reflectIdentity a root =
     (let isRoot = (Some (ag_id a) = root \<or> parentId a = None);
          ob0 = [(''id'', JStr (ag_id a)),
                 (''sentence'', JStr (case sentence a of Some s \<Rightarrow> s
                    | None \<Rightarrow> if isRoot then ROOT_SENTENCE else BARE_SENTENCE)),
                 (''parent_id'', json_of_opt (parentId a)),
                 (''handler_module'', json_of_opt (handlerModule a)),
                 (''display_name'', JStr (displayName a))];
          ob1 = (case description a of Some d \<Rightarrow> AList.update ''description'' (JStr d) ob0 | None \<Rightarrow> ob0);
          ob2 = (case verbs a of Some vs \<Rightarrow> AList.update ''verbs'' (verbs_object vs) ob1 | None \<Rightarrow> ob1)
      in add_missing ob2 (meta a))"

section \<open>Walks over the tree\<close>

definition POSTURE_KEYS :: "string list" where
  "POSTURE_KEYS = [''ingress_rule'', ''egress_rule'', ''auth'', ''root'', ''file_bridge_id'']"

definition sortedChildren :: "'h agent list \<Rightarrow> 'h agent \<Rightarrow> nat list" where
  "sortedChildren st a = sort_key (\<lambda>c. ag_id (st ! c)) (map snd (children a))"

definition add_posture :: "'h agent \<Rightarrow> payload \<Rightarrow> payload" where
  "add_posture a ob = fold (\<lambda>key ob. case map_of (meta a) key of
       Some v \<Rightarrow> AList.update key v ob | None \<Rightarrow> ob) POSTURE_KEYS ob"

definition node_object :: "'h agent \<Rightarrow> json list \<Rightarrow> payload" where
  "node_object a subnodes =
     (let ob0 = [(''id'', JStr (ag_id a)), (''parent_id'', json_of_opt (parentId a)),
                 (''handler_module'', json_of_opt (handlerModule a)),
                 (''display_name'', JStr (displayName a))];
          ob1 = (case description a of Some d \<Rightarrow> AList.update ''description'' (JStr d) ob0 | None \<Rightarrow> ob0)
      in AList.update ''children'' (JArr subnodes) (add_posture a ob1))"

text \<open>\<^verbatim>\<open>sortedChildren(agent).map(treeNode)\<close> for a list of siblings.\<close>

fun tree_nodes :: "nat \<Rightarrow> 'h agent list \<Rightarrow> nat list \<Rightarrow> json list option" where
  "tree_nodes n st [] = Some []"
| "tree_nodes 0 st (a # as) = None"
| "tree_nodes (Suc n) st (a # as) =
     (case tree_nodes n st (sortedChildren st (st ! a)) of
        None \<Rightarrow> None
      | Some subnodes \<Rightarrow> map_option ((#) (JObj (node_object (st ! a) subnodes))) (tree_nodes (Suc n) st as))"

definition treeNode :: "nat \<Rightarrow> 'h agent list \<Rightarrow> nat \<Rightarrow> json option" where
  "treeNode n st a = map_option hd (tree_nodes n st [a])"

fun descendants :: "nat \<Rightarrow> 'h agent list \<Rightarrow> nat list \<Rightarrow> string list option" where
  "descendants n st [] = Some []"
| "descendants 0 st (a # as) = None"
| "descendants (Suc n) st (a # as) =
     (case descendants n st (sortedChildren st (st ! a)) of
        None \<Rightarrow> None
      | Some below \<Rightarrow>
          map_option (\<lambda>rest. ag_id (st ! a) # below @ rest) (descendants (Suc n) st as))"

definition descendantIds :: "nat \<Rightarrow> 'h agent list \<Rightarrow> nat \<Rightarrow> string list option" where
  "descendantIds n st a = descendants n st [a]"

section \<open>The reflect flags\<close>

definition flag :: "json option \<Rightarrow> string \<Rightarrow> string" where
  "flag v fallback = (case v of Some (JStr s) \<Rightarrow> s | _ \<Rightarrow> fallback)"

definition reflect_description :: "'h agent \<Rightarrow> payload \<Rightarrow> payload" where
  "reflect_description a ob =
     (case description a of
        Some d \<Rightarrow> if \<not> in_object ''description'' ob then AList.update ''description'' (JStr d) ob else ob
      | None \<Rightarrow> ob)"

definition reflect_root :: "'h kernel \<Rightarrow> 'h agent \<Rightarrow> payload \<Rightarrow> payload" where
  "reflect_root k a ob =
     (if parentId a = None
      then AList.update ''persistence'' (JObj [(''provider'', json_of_opt (persistenceProvider k))])
             (AList.update ''version'' JNull (AList.update ''env'' (JStr ''host'')
               (AList.update ''runtime'' (JStr ''ts'') ob)))
      else ob)"

definition reflect_tree :: "nat \<Rightarrow> 'h kernel \<Rightarrow> nat \<Rightarrow> payload \<Rightarrow> payload \<Rightarrow> payload option" where
  "reflect_tree n k a payload ob =
     (let tr = flag (map_of payload ''tree'') ''all'' in
      if tr = ''all'' then map_option (\<lambda>t. AList.update ''tree'' t ob) (treeNode n (store k) a)
      else if tr = ''ids'' then
        map_option (\<lambda>is. AList.update ''tree'' (JArr (map JStr is)) ob) (descendantIds n (store k) a)
      else Some ob)"

definition bundle_json :: "string \<times> string \<Rightarrow> json" where
  "bundle_json b = JObj [(''name'', JStr (fst b)), (''handler_module'', JStr (snd b))]"

definition reflect_bundles :: "'h kernel \<Rightarrow> payload \<Rightarrow> payload \<Rightarrow> payload" where
  "reflect_bundles k payload ob =
     (let bs = flag (map_of payload ''bundles'') ''none'' in
      if bs = ''all'' then AList.update ''bundles'' (JArr (map bundle_json (availableBundles k))) ob
      else if bs = ''ids'' then
        AList.update ''bundles'' (JArr (map (JStr \<circ> fst) (availableBundles k))) ob
      else ob)"

definition reflect_readme :: "'h kernel \<Rightarrow> 'h agent \<Rightarrow> payload \<Rightarrow> payload \<Rightarrow> payload" where
  "reflect_readme k a payload ob =
     (if map_of payload ''readme'' = Some (JBool True)
      then AList.update ''readme''
        (case map_of (meta a) ''readme'' of
           Some (JStr rd) \<Rightarrow> JStr rd
         | _ \<Rightarrow> (case handlerModule a of
              Some hm \<Rightarrow> json_of_opt (bundleReadme k hm) | None \<Rightarrow> JNull)) ob
      else ob)"

text \<open>A reply that is no plain object is returned untouched.\<close>

definition applyReflectFlags :: "nat \<Rightarrow> 'h kernel \<Rightarrow> nat \<Rightarrow> payload \<Rightarrow> json \<Rightarrow> json option" where
  "applyReflectFlags n k a payload reply =
     (case reply of
        JObj ob \<Rightarrow>
          (let ag = store k ! a in
           map_option (\<lambda>ob'. JObj (reflect_readme k ag payload (reflect_bundles k payload ob')))
             (reflect_tree n k a payload (reflect_root k ag (reflect_description ag ob))))
      | _ \<Rightarrow> Some reply)"

section \<open>send\<close>

definition quoted :: "string \<Rightarrow> string" where
  "quoted s = [CHR 0x27] @ s @ [CHR 0x27]"

definition send ::
    "nat \<Rightarrow> ('h \<Rightarrow> string \<Rightarrow> payload \<Rightarrow> 'h kernel \<Rightarrow> 'h kernel \<times> json) \<Rightarrow>
     string \<Rightarrow> payload \<Rightarrow> 'h kernel \<Rightarrow> 'h kernel \<times> reply"
where
  "send n run targetId payload k =
     (let i = resolve k targetId; verb = str payload ''type'' [] in
      case map_of (agents k) i of
        None \<Rightarrow>
          if bridge k then (act (Forward i payload) k, Pending)
          else (k, Settled (error_reply (''no agent '' @ quoted i @ '' and no bridge to forward to'')))
      | Some a \<Rightarrow>
          (let target = store k ! a in
           if verb = ''reflect'' then
             (case applyReflectFlags n k a payload (JObj (reflectIdentity target (rootId k))) of
                Some r \<Rightarrow> (k, Settled r) | None \<Rightarrow> (k, Threw))
           else case handler target of
               Some h \<Rightarrow> (let (k', r) = run h (ag_id target) payload k in (k', Settled r))
             | None \<Rightarrow>
                 if verb = ''boot'' \<or> verb = ''shutdown'' \<or> verb = [] then (k, Settled JNull)
                 else (k, Settled (error_reply (''agent '' @ quoted i @
                        '' is bare (no handler); cannot answer verb '' @ quoted verb)))))"

section \<open>The two tree views agree\<close>

text \<open>Both walks render one rose tree of addresses.\<close>

datatype rose = Rose nat "rose list"

fun roses :: "nat \<Rightarrow> 'h agent list \<Rightarrow> nat list \<Rightarrow> rose list option" where
  "roses n st [] = Some []"
| "roses 0 st (a # as) = None"
| "roses (Suc n) st (a # as) =
     (case roses n st (sortedChildren st (st ! a)) of
        None \<Rightarrow> None
      | Some ts \<Rightarrow> map_option ((#) (Rose a ts)) (roses (Suc n) st as))"

fun render :: "'h agent list \<Rightarrow> rose \<Rightarrow> json" where
  "render st (Rose a ts) = JObj (node_object (st ! a) (map (render st) ts))"

fun preorder :: "'h agent list \<Rightarrow> rose \<Rightarrow> string list" where
  "preorder st (Rose a ts) = ag_id (st ! a) # concat (map (preorder st) ts)"

lemma tree_nodes_roses: "tree_nodes n st as = map_option (map (render st)) (roses n st as)"
  by (induction n st as rule: roses.induct)
    (simp_all add: option.map_comp comp_def split: option.split)

lemma descendants_roses:
  "descendants n st as = map_option (\<lambda>ts. concat (map (preorder st) ts)) (roses n st as)"
  by (induction n st as rule: roses.induct)
    (simp_all add: option.map_comp comp_def split: option.split)

lemma sorted_child_ids:
  assumes wf: "kernel_wf k" and a: "map_of (agents k) i = Some a"
  shows "c \<in> set (sortedChildren (store k) (store k ! a)) \<longleftrightarrow>
      (\<exists>j. map_of (agents k) j = Some c \<and> tree k j = Some (Some i))"
    and "distinct (map (\<lambda>c. ag_id (store k ! c)) (sortedChildren (store k) (store k ! a)))"
    and "distinct (sortedChildren (store k) (store k ! a))"
proof -
  from wf have ad: "addresses_ok k" and ch: "children_ok k" by (simp_all add: kernel_wf_def)
  have d: "distinct (map fst (children (store k ! a)))" using ch a by (simp add: children_ok_def)
  have mem: "(j, c) \<in> set (children (store k ! a)) \<longleftrightarrow>
      map_of (agents k) j = Some c \<and> tree k j = Some (Some i)" for j c
  proof -
    have "(j, c) \<in> set (children (store k ! a)) \<longleftrightarrow> map_of (children (store k ! a)) j = Some c"
      using d by (simp add: map_of_eq_Some_iff)
    also have "\<dots> \<longleftrightarrow> map_of (agents k) j = Some c \<and> parentId (store k ! c) = Some i"
      using ch a by (simp add: children_ok_def)
    finally show ?thesis by (auto simp: tree_Some_iff)
  qed
  then show "c \<in> set (sortedChildren (store k) (store k ! a)) \<longleftrightarrow>
      (\<exists>j. map_of (agents k) j = Some c \<and> tree k j = Some (Some i))"
    by (force simp: sortedChildren_def)
  have eq: "map (\<lambda>c. ag_id (store k ! c)) (map snd (children (store k ! a))) = map fst (children (store k ! a))"
    using mem ad by (auto simp: addresses_ok_def)
  have ids: "distinct (map (\<lambda>c. ag_id (store k ! c)) (map snd (children (store k ! a))))"
    unfolding eq by (rule d)
  then show "distinct (sortedChildren (store k) (store k ! a))"
    unfolding sortedChildren_def by (simp only: distinct_sort distinct_map)
  with ids show "distinct (map (\<lambda>c. ag_id (store k ! c)) (sortedChildren (store k) (store k ! a)))"
    unfolding sortedChildren_def by (simp only: distinct_map set_sort)
qed

text \<open>Distinct registered addresses whose subtrees are pairwise disjoint.\<close>

definition spread :: "'h kernel \<Rightarrow> nat list \<Rightarrow> bool" where
  "spread k as \<longleftrightarrow> distinct as \<and> (\<forall>a \<in> set as. map_of (agents k) (ag_id (store k ! a)) = Some a) \<and>
     (\<forall>a \<in> set as. \<forall>b \<in> set as. a \<noteq> b \<longrightarrow>
        subtree (tree k) (ag_id (store k ! a)) \<inter> subtree (tree k) (ag_id (store k ! b)) = {})"

lemma spread_children:
  assumes wf: "kernel_wf k" and a: "map_of (agents k) i = Some a"
  shows "spread k (sortedChildren (store k) (store k ! a))"
proof -
  from wf have ad: "addresses_ok k" and fo: "forest_ok (tree k)" by (simp_all add: kernel_wf_def)
  have acyc: "(i, i) \<notin> (forest_rel (tree k))\<^sup>+" using fo by (simp add: forest_ok_def acyclic_def)
  have child: "map_of (agents k) (ag_id (store k ! c)) = Some c \<and>
      tree k (ag_id (store k ! c)) = Some (Some i)"
    if "c \<in> set (sortedChildren (store k) (store k ! a))" for c
    using that ad by (auto simp: sorted_child_ids(1) [OF wf a] addresses_ok_def)
  have "ag_id (store k ! c) \<noteq> ag_id (store k ! e)"
    if "c \<in> set (sortedChildren (store k) (store k ! a))" "e \<in> set (sortedChildren (store k) (store k ! a))"
      "c \<noteq> e" for c e
    using child that by (metis option.inject)
  then show ?thesis
    using child sorted_child_ids(3) [OF wf a] sibling_subtrees_disjoint [OF acyc]
    unfolding spread_def by blast
qed

lemma roses_correct:
  assumes "kernel_wf k" "spread k as"
    and "\<And>a. a \<in> set as \<Longrightarrow> card (subtree (tree k) (ag_id (store k ! a))) \<le> n"
  shows "\<exists>ts. roses n (store k) as = Some ts \<and> length ts = length as \<and>
    distinct (concat (map (preorder (store k)) ts)) \<and>
    set (concat (map (preorder (store k)) ts)) =
      (\<Union>a \<in> set as. subtree (tree k) (ag_id (store k ! a)))"
  using assms
proof (induction n "store k" as rule: roses.induct)
  case (1 n)
  then show ?case by simp
next
  case (2 a as)
  then have "card (subtree (tree k) (ag_id (store k ! a))) = 0" by simp
  moreover have "finite (subtree (tree k) (ag_id (store k ! a)))"
    using 2 by (intro finite_subtree) (simp add: kernel_wf_def forest_ok_def)
  ultimately show ?case using subtree_self [of "ag_id (store k ! a)" "tree k"] by auto
next
  case (3 n a as)
  note wf = "3.prems"(1)
  let ?i = "ag_id (store k ! a)" and ?cs = "sortedChildren (store k) (store k ! a)"
  have a: "map_of (agents k) ?i = Some a" using "3.prems"(2) by (simp add: spread_def)
  have child_set: "{c. tree k c = Some (Some ?i)} = (\<lambda>c. ag_id (store k ! c)) ` set ?cs"
  proof -
    have "ag_id (store k ! x) = j" if "map_of (agents k) j = Some x" for j x
      using that wf by (simp add: kernel_wf_def addresses_ok_def)
    then show ?thesis
      by (force simp: sorted_child_ids(1) [OF wf a] tree_Some_iff image_iff)
  qed
  then have sub: "subtree (tree k) ?i = insert ?i (\<Union>c \<in> set ?cs. subtree (tree k) (ag_id (store k ! c)))"
    by (subst subtree_unfold) simp
  have fo: "forest_ok (tree k)" using wf by (simp add: kernel_wf_def)
  have strict: "card (subtree (tree k) (ag_id (store k ! c))) < card (subtree (tree k) ?i) \<and>
      ?i \<notin> subtree (tree k) (ag_id (store k ! c))" if "c \<in> set ?cs" for c
  proof -
    have c: "tree k (ag_id (store k ! c)) = Some (Some ?i)" using that child_set by blast
    moreover have "?i \<notin> subtree (tree k) (ag_id (store k ! c))"
    proof
      assume "?i \<in> subtree (tree k) (ag_id (store k ! c))"
      then have "(ag_id (store k ! c), ?i) \<in> (forest_rel (tree k))\<^sup>*" by (simp add: subtree_def)
      with c have "(?i, ?i) \<in> (forest_rel (tree k))\<^sup>+"
        by (intro rtrancl_into_trancl2 [of ?i]) (simp_all add: forest_rel_def)
      with fo show False by (simp add: forest_ok_def acyclic_def)
    qed
    ultimately show ?thesis using subtree_child_strict [OF fo] by blast
  qed
  have "card (subtree (tree k) (ag_id (store k ! c))) \<le> n" if "c \<in> set ?cs" for c
    using strict [OF that] "3.prems"(3) [of a] by simp
  then obtain ts where ts: "roses n (store k) ?cs = Some ts"
    "distinct (concat (map (preorder (store k)) ts))"
    "set (concat (map (preorder (store k)) ts)) = (\<Union>c \<in> set ?cs. subtree (tree k) (ag_id (store k ! c)))"
    using "3.hyps"(1) [OF wf spread_children [OF wf a]] by blast
  have "spread k as" using "3.prems"(2) by (simp add: spread_def)
  then obtain us where us: "roses (Suc n) (store k) as = Some us" "length us = length as"
    "distinct (concat (map (preorder (store k)) us))"
    "set (concat (map (preorder (store k)) us)) = (\<Union>a \<in> set as. subtree (tree k) (ag_id (store k ! a)))"
    using "3.hyps"(2) [OF ts(1) wf] "3.prems"(3) by auto
  have "subtree (tree k) ?i \<inter> subtree (tree k) (ag_id (store k ! b)) = {}" if "b \<in> set as" for b
    using "3.prems"(2) that by (auto simp: spread_def)
  with ts us sub strict show ?case by (auto simp: Int_UN_distrib)
qed

lemma views_correct:
  assumes wf: "kernel_wf k" and a: "map_of (agents k) i = Some a" and n: "length (agents k) \<le> n"
  shows "\<exists>t. treeNode n (store k) a = Some (render (store k) t) \<and>
    descendantIds n (store k) a = Some (preorder (store k) t) \<and>
    distinct (preorder (store k) t) \<and> set (preorder (store k) t) = subtree (tree k) i"
proof -
  have i: "ag_id (store k ! a) = i" using wf a by (simp add: kernel_wf_def addresses_ok_def)
  have "card (subtree (tree k) i) \<le> n" using card_subtree_agents [OF wf, of i] a n by simp
  then obtain ts where ts: "roses n (store k) [a] = Some ts" "length ts = 1"
    "distinct (concat (map (preorder (store k)) ts))"
    "set (concat (map (preorder (store k)) ts)) = subtree (tree k) i"
    using roses_correct [OF wf, of "[a]" n] a i by (auto simp: spread_def)
  then obtain t where "ts = [t]" by (auto simp: length_Suc_conv)
  with ts show ?thesis
    by (auto simp: treeNode_def descendantIds_def tree_nodes_roses descendants_roses)
qed

text \<open>
  C14: the two forms of the tree in a reflect reply describe the same tree. On a well-formed
  registry both walks finish within a call stack bounded by the number of agents; the ids listed
  by \<^verbatim>\<open>tree=ids\<close> are the preorder of the nested object given by \<^verbatim>\<open>tree=all\<close>, each id of the
  subtree occurs exactly once and no other id occurs.
\<close>

theorem reflect_tree_views_agree:
  assumes "kernel_wf k" "map_of (agents k) i = Some a" "length (agents k) \<le> n"
  shows "\<exists>t. treeNode n (store k) a = Some (render (store k) t) \<and>
    descendantIds n (store k) a = Some (preorder (store k) t) \<and>
    distinct (preorder (store k) t) \<and> set (preorder (store k) t) = subtree (tree k) i"
  using assms by (rule views_correct)

theorem reflect_tree_views_agree_witness:
  "kernel_wf sample_kernel \<and> map_of (agents sample_kernel) ''canvas'' = Some 0 \<and>
   (\<exists>t. descendantIds 3 (store sample_kernel) 0 = Some (preorder (store sample_kernel) t) \<and>
     set (preorder (store sample_kernel) t) = subtree (tree sample_kernel) ''canvas'')"
  using reflect_tree_views_agree [OF sample_wf, of "''canvas''" 0 3] sample_wf
  by (auto simp: sample_agents)

section \<open>Reflect is uniform and cannot be spoofed\<close>

lemma add_missing_keeps: "map_of ob key = Some v \<Longrightarrow> map_of (add_missing ob m) key = Some v"
proof (induction ob m rule: add_missing.induct)
  case (2 ob k x m)
  then show ?case by (cases "key = k") (auto simp: in_object_def)
qed simp

lemma reflectIdentity_fields:
  "map_of (reflectIdentity a root) ''id'' = Some (JStr (ag_id a))"
  "map_of (reflectIdentity a root) ''parent_id'' = Some (json_of_opt (parentId a))"
  "map_of (reflectIdentity a root) ''handler_module'' = Some (json_of_opt (handlerModule a))"
  "map_of (reflectIdentity a root) ''display_name'' = Some (JStr (displayName a))"
  unfolding reflectIdentity_def Let_def
  by (rule add_missing_keeps, simp split: option.split)+

lemma reflect_flags_keep:
  assumes key: "key \<in> {''id'', ''parent_id'', ''handler_module'', ''display_name''}"
    and r: "applyReflectFlags n k a payload (JObj ob) = Some reply"
  shows "\<exists>ob'. reply = JObj ob' \<and> map_of ob' key = map_of ob key"
proof -
  let ?ag = "store k ! a"
  have d: "map_of (reflect_description ?ag x) key = map_of x key" for x
    using key by (auto simp: reflect_description_def split: option.split)
  have ro: "map_of (reflect_root k ?ag x) key = map_of x key" for x
    using key by (auto simp: reflect_root_def)
  have t: "map_of y key = map_of x key" if "reflect_tree n k a payload x = Some y" for x y
    using key that by (auto simp: reflect_tree_def Let_def split: if_splits)
  have b: "map_of (reflect_bundles k payload x) key = map_of x key" for x
    using key by (auto simp: reflect_bundles_def Let_def)
  have rd: "map_of (reflect_readme k ?ag payload x) key = map_of x key" for x
    using key by (auto simp: reflect_readme_def)
  from r show ?thesis
    by (auto simp: applyReflectFlags_def Let_def rd b ro d dest!: t)
qed

text \<open>
  C13: \<^verbatim>\<open>reflect\<close> is answered by the kernel for every local agent, whatever its handler and its
  metadata. On a well-formed registry the answer is an object, the kernel is left unchanged, and
  its identity fields are the agent's own: metadata of the same name never shows through.
\<close>

theorem send_reflect_uniform:
  assumes "kernel_wf k" "map_of (agents k) (resolve k target) = Some a" "length (agents k) \<le> n"
    and "str payload ''type'' [] = ''reflect''"
  shows "\<exists>ob. send n run target payload k = (k, Settled (JObj ob)) \<and>
    map_of ob ''id'' = Some (JStr (resolve k target)) \<and>
    map_of ob ''parent_id'' = Some (json_of_opt (parentId (store k ! a))) \<and>
    map_of ob ''handler_module'' = Some (json_of_opt (handlerModule (store k ! a))) \<and>
    map_of ob ''display_name'' = Some (JStr (displayName (store k ! a)))"
proof -
  let ?ob = "reflectIdentity (store k ! a) (rootId k)"
  have i: "ag_id (store k ! a) = resolve k target"
    using assms(1,2) by (simp add: kernel_wf_def addresses_ok_def)
  obtain r where r: "applyReflectFlags n k a payload (JObj ?ob) = Some r"
    using views_correct [OF assms(1,2,3)]
    by (fastforce simp: applyReflectFlags_def reflect_tree_def Let_def)
  then obtain ob where ob: "r = JObj ob" using reflect_flags_keep [of "''id''"] by blast
  have "map_of ob key = map_of ?ob key"
    if "key \<in> {''id'', ''parent_id'', ''handler_module'', ''display_name''}" for key
    using reflect_flags_keep [OF that r] ob by auto
  moreover have "send n run target payload k = (k, Settled (JObj ob))"
    using assms(2,4) r ob by (simp add: send_def Let_def)
  ultimately show ?thesis by (auto simp: reflectIdentity_fields i)
qed

theorem send_reflect_uniform_witness:
  "\<exists>ob. send 3 (\<lambda>h i p k. (k, JNull)) ''kernel'' [(''type'', JStr ''reflect'')] sample_kernel =
     (sample_kernel, Settled (JObj ob)) \<and> map_of ob ''id'' = Some (JStr ''canvas'')"
proof -
  have r: "resolve sample_kernel ''kernel'' = ''canvas''"
    by (simp add: resolve_def) (simp add: sample_defs)
  show ?thesis
    using send_reflect_uniform [OF sample_wf, of "''kernel''" 0 3 "[(''type'', JStr ''reflect'')]"
        "\<lambda>h i p k. (k, JNull)"]
    by (auto simp: r sample_agents str_def)
qed

section \<open>Handlers as an interface\<close>

text \<open>What the kernel relies on in a bundle handler: it leaves the registry's tree alone.\<close>

locale handler_contract =
  fixes run :: "'h \<Rightarrow> string \<Rightarrow> payload \<Rightarrow> 'h kernel \<Rightarrow> 'h kernel \<times> json"
  assumes run_same_tree: "same_tree k (fst (run h i payload k))"
begin

lemma send_same_tree: "same_tree k (fst (send n run target payload k))"
proof -
  have act: "same_tree k (act x k)" for x by (rule same_tree_frame) (simp_all add: act_def)
  have run: "same_tree k k1" if "run h i p k = (k1, r)" for h i p k1 r
    using run_same_tree [of k h i p] that by simp
  show ?thesis
    by (auto simp: send_def Let_def act split: option.split prod.split dest: run)
qed

lemma send_wf: "kernel_wf k \<Longrightarrow> kernel_wf (fst (send n run target payload k))"
  by (erule same_tree_wf) (rule send_same_tree)

lemma send_tree: "kernel_wf k \<Longrightarrow> tree (fst (send n run target payload k)) = tree k"
  by (rule same_tree_tree) (simp_all add: kernel_wf_def send_same_tree)

end

end
