(* ===== verification/Content_Agents.thy ===== *)
theory Content_Agents
  imports Reflect Kernel_Load
begin

text \<open>
  The bundles the frontend kernel runs itself: the content agents of
  \<^verbatim>\<open>ts/src/bundles/gl_agent/gl_agent.ts\<close> and \<^verbatim>\<open>ts/src/bundles/html_agent/html_agent.ts\<close>, the no-op handlers of
  \<^verbatim>\<open>ts/src/main.ts\<close>, and the facade \<^verbatim>\<open>ts/src/bundles/host.ts\<close> through which a view talks to the host.

  A handler token \<open>bundle_fn\<close> names one of the registered functions; \<open>run_bundle\<close> is what it does, so the
  kernel's \<^verbatim>\<open>send\<close> is here complete. \<open>handler_contract\<close> is interpreted on it.
\<close>

section \<open>Handlers\<close>

datatype bundle_fn = GlAgent | HtmlAgent | NoopView

definition GL_AGENT :: string where
  "GL_AGENT = ''gl_agent.ts''"

definition HTML_AGENT :: string where
  "HTML_AGENT = ''html_agent.ts''"

definition reload_html :: payload where
  "reload_html = [(''type'', JStr ''reload_html'')]"

text \<open>\<^verbatim>\<open>typeof agent?.meta[key] === "string" ? ... : ""\<close>\<close>

definition meta_text :: "'h kernel \<Rightarrow> string \<Rightarrow> string \<Rightarrow> string" where
  "meta_text k i key =
     (case get_agent k i of
        Some a \<Rightarrow> (case map_of (meta a) key of Some (JStr s) \<Rightarrow> s | _ \<Rightarrow> [])
      | None \<Rightarrow> [])"

text \<open>Both setters: patch the record, tell every view, answer with the length.\<close>

definition set_content :: "string \<Rightarrow> string \<Rightarrow> string \<Rightarrow> 'h kernel \<Rightarrow> 'h kernel \<times> json" where
  "set_content i key s k =
     (emit i reload_html (fst (updateMeta i [(key, JStr s)] k)),
      JObj [(''ok'', JBool True), (''bytes'', JNum (int (js_length s)))])"

definition glAgent :: "string \<Rightarrow> payload \<Rightarrow> 'h kernel \<Rightarrow> 'h kernel \<times> json" where
  "glAgent i payload k =
     (let verb = str payload ''type'' [] in
      if verb = ''get_gl_view'' then
        (k, JObj [(''id'', JStr i), (''source'', JStr (meta_text k i ''gl_source''))])
      else if verb = ''set_gl_source'' then set_content i ''gl_source'' (str payload ''source'' []) k
      else (k, error_reply (''gl_agent: unknown verb '' @ quoted verb)))"

definition htmlAgent :: "string \<Rightarrow> payload \<Rightarrow> 'h kernel \<Rightarrow> 'h kernel \<times> json" where
  "htmlAgent i payload k =
     (let verb = str payload ''type'' [] in
      if verb = ''get_html'' \<or> verb = ''render_html'' then
        (k, JObj [(''id'', JStr i), (''html'', JStr (meta_text k i ''html''))])
      else if verb = ''set_html'' then set_content i ''html'' (str payload ''html'' []) k
      else (k, error_reply (''html_agent: unknown verb '' @ quoted verb)))"

fun run_bundle :: "bundle_fn \<Rightarrow> string \<Rightarrow> payload \<Rightarrow> 'h kernel \<Rightarrow> 'h kernel \<times> json" where
  "run_bundle GlAgent i payload k = glAgent i payload k"
| "run_bundle HtmlAgent i payload k = htmlAgent i payload k"
| "run_bundle NoopView i payload k = (k, JNull)"

definition registerGlAgent :: "bundle_fn kernel \<Rightarrow> bundle_fn kernel" where
  "registerGlAgent k = registerBundle GL_AGENT GlAgent k"

definition registerHtmlAgent :: "bundle_fn kernel \<Rightarrow> bundle_fn kernel" where
  "registerHtmlAgent k = registerBundle HTML_AGENT HtmlAgent k"

section \<open>The facade of a view\<close>

text \<open>A \<^verbatim>\<open>Host\<close> is a kernel and the id of the view's agent. Listeners are tokens; \<open>host_hears\<close> is the
  type filter \<^verbatim>\<open>on\<close> wraps around a handler.\<close>

definition host_call :: "nat \<Rightarrow> string \<Rightarrow> payload \<Rightarrow> bundle_fn kernel \<Rightarrow> bundle_fn kernel \<times> reply" where
  "host_call n target payload k = send n run_bundle target payload k"

definition host_callHost :: "string \<Rightarrow> payload \<Rightarrow> 'h kernel \<Rightarrow> 'h kernel \<times> reply" where
  "host_callHost target payload k = callHost target payload k"

definition host_emit :: "string \<Rightarrow> payload \<Rightarrow> 'h kernel \<Rightarrow> 'h kernel" where
  "host_emit target payload k = emitRemote target payload k"

definition host_callBinary :: "string \<Rightarrow> payload \<Rightarrow> 'h kernel \<Rightarrow> 'h kernel \<times> reply" where
  "host_callBinary target payload k = forwardBinary target payload k"

definition host_on :: "string \<Rightarrow> string \<Rightarrow> nat \<Rightarrow> 'h kernel \<Rightarrow> 'h kernel" where
  "host_on selfId src l k = onInbox src l (watch src selfId k)"

definition host_hears :: "string \<Rightarrow> payload \<Rightarrow> bool" where
  "host_hears ty payload = (map_of payload ''type'' = Some (JStr ty))"

definition host_off :: "string \<Rightarrow> nat \<Rightarrow> 'h kernel \<Rightarrow> 'h kernel" where
  "host_off src l k = offInbox src l k"

definition host_unwatch :: "string \<Rightarrow> string \<Rightarrow> 'h kernel \<Rightarrow> 'h kernel" where
  "host_unwatch selfId src k = unwatch src selfId k"

definition host_onLifecycle :: "string \<Rightarrow> nat \<Rightarrow> 'h kernel \<Rightarrow> 'h kernel" where
  "host_onLifecycle src h k = onLifecycle src h k"

definition host_subscribeState :: "nat \<Rightarrow> 'h kernel \<Rightarrow> 'h kernel" where
  "host_subscribeState h k = subscribeState h k"

section \<open>The handlers keep the kernel's contract\<close>

lemma same_tree_trans: "same_tree k k1 \<Longrightarrow> same_tree k1 k2 \<Longrightarrow> same_tree k k2"
  by (simp add: same_tree_def)

lemma same_tree_set_content: "same_tree k (fst (set_content i key s k))"
  unfolding set_content_def fst_conv by (rule same_tree_trans [OF same_tree_updateMeta same_tree_emit])

interpretation bundles: handler_contract run_bundle
proof
  fix k :: "bundle_fn kernel" and h i payload
  show "same_tree k (fst (run_bundle h i payload k))"
    by (cases h) (simp_all add: glAgent_def htmlAgent_def Let_def same_tree_set_content)
qed

section \<open>Setting and getting content\<close>

text \<open>The verbs of a content agent: the setter with its argument, the getter with its result, and the field
  of the record both work on.\<close>

definition content_verbs :: "bundle_fn \<Rightarrow> (string \<times> string \<times> string \<times> string \<times> string) option" where
  "content_verbs b =
     (case b of
        GlAgent \<Rightarrow> Some (''set_gl_source'', ''source'', ''get_gl_view'', ''source'', ''gl_source'')
      | HtmlAgent \<Rightarrow> Some (''set_html'', ''html'', ''get_html'', ''html'', ''html'')
      | NoopView \<Rightarrow> None)"

lemma emit_sel [simp]:
  "store (emit i p k) = store k" "agents (emit i p k) = agents k" "rootId (emit i p k) = rootId k"
  by (simp_all add: emit_def Let_def)

lemma updateMeta_get:
  assumes "addresses_ok k" "get_agent k i = Some a"
  shows "get_agent (fst (updateMeta i patch k)) j =
    (if j = i then Some (a\<lparr>meta := obj_assign (meta a) patch\<rparr>) else get_agent k j)"
proof -
  obtain ad where ad: "map_of (agents k) i = Some ad" "a = store k ! ad"
    using assms(2) by (auto simp: get_agent_def)
  have l: "ad < length (store k)" using assms(1) ad by (auto simp: addresses_ok_def)
  have "b \<noteq> ad" if "map_of (agents k) j = Some b" "j \<noteq> i" for b
    using addresses_inj [OF assms(1) ad(1)] that by auto
  then show ?thesis using ad l
    by (cases "map_of (agents k) j") (auto simp: updateMeta_def Let_def get_agent_def)
qed

lemma trace_deliver:
  "trace (deliver i p k) = trace k @ map (\<lambda>l. Deliver l p) (case map_of (inboxes k) i of Some ls \<Rightarrow> ls | None \<Rightarrow> [])"
  by (simp add: deliver_def split: option.split)

text \<open>The listeners an event on an inbox reaches, in order.\<close>

definition inbox_of :: "'h kernel \<Rightarrow> string \<Rightarrow> nat list" where
  "inbox_of k i = (case map_of (inboxes k) i of Some ls \<Rightarrow> ls | None \<Rightarrow> [])"

definition fan_out :: "'h kernel \<Rightarrow> string \<Rightarrow> nat list" where
  "fan_out k i = inbox_of k i @ concat (map (inbox_of k) (watchers_of k i))"

lemma deliver_more [simp]: "inboxes (deliver i p k) = inboxes k" "watchers (deliver i p k) = watchers k"
  by (simp_all add: deliver_def split: option.split)

lemma inbox_of_cong: "inboxes k' = inboxes k \<Longrightarrow> inbox_of k' = inbox_of k"
  by (simp add: inbox_of_def fun_eq_iff)

lemma fan_out_cong: "inboxes k' = inboxes k \<Longrightarrow> watchers k' = watchers k \<Longrightarrow> fan_out k' = fan_out k"
  by (simp add: fan_out_def watchers_of_def fun_eq_iff inbox_of_cong [of k' k])

lemma trace_fold_deliver:
  "trace (fold (\<lambda>w. deliver w p) ws k) = trace k @ map (\<lambda>l. Deliver l p) (concat (map (inbox_of k) ws))"
proof (induction ws arbitrary: k)
  case (Cons w ws)
  have "inbox_of (deliver w p k) = inbox_of k" by (rule inbox_of_cong) simp
  with Cons show ?case by (simp add: trace_deliver) (simp add: inbox_of_def)
qed simp

lemma trace_emit:
  "trace (emit i p k) = trace k @ map (\<lambda>l. Deliver l p) (fan_out k (resolve k i))"
proof -
  have "inbox_of (deliver (resolve k i) p k) = inbox_of k" by (rule inbox_of_cong) simp
  then show ?thesis by (simp add: emit_def Let_def trace_fold_deliver trace_deliver fan_out_def)
      (simp add: inbox_of_def)
qed

lemma send_handled:
  assumes "addresses_ok k" "get_agent k i = Some a" "handler a = Some h" "resolve k i = i" "str payload ''type'' [] \<noteq> ''reflect''"
  shows "send n run i payload k = (fst (run h i payload k), Settled (snd (run h i payload k)))"
  using assms
  by (auto simp: send_def Let_def get_agent_def addresses_ok_def case_prod_unfold split: option.splits)

text \<open>
  C29: a content agent stores what it is given. Sending a content agent its setter verb answers with the
  length of the text, changes that agent's record in the one field and no other agent, publishes the change
  on the state stream (so that it is persisted) and then delivers \<^verbatim>\<open>reload_html\<close> to everyone who listens
  to or watches the agent; the getter then answers with the text that was set. The registry stays well formed
  with the same tree.
\<close>

theorem content_set_get:
  assumes "kernel_wf k" "get_agent k i = Some a" "handler a = Some b" "i \<noteq> ''kernel''"
    and "content_verbs b = Some (setv, arg, getv, res, field)"
    and "send n run_bundle i [(''type'', JStr setv), (arg, JStr s)] k = (k', r)"
  shows "r = Settled (JObj [(''ok'', JBool True), (''bytes'', JNum (int (js_length s)))]) \<and>
    send n run_bundle i [(''type'', JStr getv)] k' = (k', Settled (JObj [(''id'', JStr i), (res, JStr s)])) \<and>
    kernel_wf k' \<and> tree k' = tree k \<and>
    get_agent k' = (get_agent k)(i \<mapsto> a\<lparr>meta := AList.update field (JStr s) (meta a)\<rparr>) \<and>
    trace k' = trace k @ map (\<lambda>cb. NotifyState cb (stamp k (updated_event i [(field, JStr s)]))) (stateSubscribers k) @
      map (\<lambda>l. Deliver l reload_html) (fan_out k i)"
proof -
  have ad: "addresses_ok k" using assms(1) by (simp add: kernel_wf_def)
  have ri: "resolve k i = i" using assms(4) by (simp add: resolve_def split: option.split)
  obtain d where d: "map_of (agents k) i = Some d" using assms(2) by (auto simp: get_agent_def)
  let ?k1 = "fst (updateMeta i [(field, JStr s)] k)"
  have run: "run_bundle b i [(''type'', JStr setv), (arg, JStr s)] k = set_content i field s k"
    and vt: "setv \<noteq> ''reflect'' \<and> getv \<noteq> ''reflect''" and ga: "\<And>q. run_bundle b i [(''type'', JStr getv)] q =
      (q, JObj [(''id'', JStr i), (res, JStr (meta_text q i field))])"
    using assms(5) by (cases b; auto simp: content_verbs_def glAgent_def htmlAgent_def str_def)+
  have "send n run_bundle i [(''type'', JStr setv), (arg, JStr s)] k =
      (fst (set_content i field s k), Settled (snd (set_content i field s k)))"
    using send_handled [OF ad assms(2,3) ri] vt run by (simp add: str_def)
  then have k': "k' = emit i reload_html ?k1" and r: "r = Settled (JObj [(''ok'', JBool True), (''bytes'', JNum (int (js_length s)))])"
    using assms(6) by (auto simp: set_content_def)
  have st: "same_tree k k'" using same_tree_set_content [of k i field s] by (simp add: set_content_def k')
  have wf': "kernel_wf k'" "tree k' = tree k" using same_tree_wf [OF assms(1) st] same_tree_tree [OF ad st] by simp_all
  have g: "get_agent k' = (get_agent k)(i \<mapsto> a\<lparr>meta := AList.update field (JStr s) (meta a)\<rparr>)"
    using updateMeta_get [OF ad assms(2), of "[(field, JStr s)]"]
    by (auto simp: k' get_agent_def obj_assign_def fun_eq_iff)
  have sub: "rootId ?k1 = rootId k" "inboxes ?k1 = inboxes k" "watchers ?k1 = watchers k"
    by (simp_all add: updateMeta_def d Let_def)
  then have ri': "resolve k' i = i" "resolve ?k1 i = i" using ri by (simp_all add: resolve_def k')
  have "trace ?k1 = trace k @ map (\<lambda>cb. NotifyState cb (stamp k (updated_event i [(field, JStr s)]))) (stateSubscribers k)"
    by (simp add: updateMeta_def d Let_def publishState_def stamp_def)
  then have "trace k' = trace k @ map (\<lambda>cb. NotifyState cb (stamp k (updated_event i [(field, JStr s)]))) (stateSubscribers k) @
      map (\<lambda>l. Deliver l reload_html) (fan_out k i)"
    by (simp add: k' trace_emit ri' fan_out_cong [OF sub(2,3)])
  moreover have "send n run_bundle i [(''type'', JStr getv)] k' = (k', Settled (JObj [(''id'', JStr i), (res, JStr s)]))"
  proof -
    have ga': "get_agent k' i = Some (a\<lparr>meta := AList.update field (JStr s) (meta a)\<rparr>)" using g by simp
    then have "meta_text k' i field = s" by (simp add: meta_text_def)
    with send_handled [OF _ ga' _ ri'(1), of b "[(''type'', JStr getv)]" n run_bundle] wf' assms(3) vt ga [of k']
    show ?thesis by (simp add: str_def kernel_wf_def)
  qed
  ultimately show ?thesis using r wf' g by blast
qed

definition content_kernel :: "bundle_fn kernel" where
  "content_kernel = register (new_agent \<lparr>init_id = ''panel'', init_handlerModule = Some HTML_AGENT,
       init_parentId = Some ''canvas'', init_sentence = None, init_verbs = None, init_meta = None, init_handler = None\<rparr>)
     (setRoot (new_agent \<lparr>init_id = ''canvas'', init_handlerModule = None, init_parentId = None,
       init_sentence = None, init_verbs = None, init_meta = None, init_handler = None\<rparr>)
     (registerHtmlAgent (new_kernel 0)))"

lemma content_kernel_wf: "kernel_wf content_kernel"
proof -
  have "kernel_wf (registerHtmlAgent (new_kernel 0))"
    using kernel_wf_new by (rule same_tree_wf) (rule same_tree_frame; simp add: registerHtmlAgent_def registerBundle_def)
  then show ?thesis unfolding content_kernel_def
    by (intro register_wf setRoot_wf)
      (simp_all add: register_ok_def registerHtmlAgent_def registerBundle_def new_agent_def new_kernel_def setRoot_def
        register_def attach_handler_def Let_def)
qed

lemma content_kernel_panel:
  "\<exists>a. get_agent content_kernel ''panel'' = Some a \<and> handler a = Some HtmlAgent"
  by (simp add: content_kernel_def registerHtmlAgent_def registerBundle_def new_agent_def new_kernel_def setRoot_def
      register_def attach_handler_def link_child_def publishState_def get_agent_def HTML_AGENT_def Let_def)

theorem content_set_get_witness:
  "\<exists>k'. fst (send 1 run_bundle ''panel'' [(''type'', JStr ''set_html''), (''html'', JStr ''<b>'')] content_kernel) = k' \<and>
     send 1 run_bundle ''panel'' [(''type'', JStr ''get_html'')] k' =
       (k', Settled (JObj [(''id'', JStr ''panel''), (''html'', JStr ''<b>'')]))"
proof -
  obtain a where a: "get_agent content_kernel ''panel'' = Some a" "handler a = Some HtmlAgent"
    using content_kernel_panel by blast
  obtain k' r where kr: "send 1 run_bundle ''panel'' [(''type'', JStr ''set_html''), (''html'', JStr ''<b>'')] content_kernel = (k', r)"
    by fastforce
  have "content_verbs HtmlAgent = Some (''set_html'', ''html'', ''get_html'', ''html'', ''html'')"
    by (simp add: content_verbs_def)
  from content_set_get [OF content_kernel_wf a _ this kr] kr show ?thesis by auto
qed

end
