(* ===== verification/Steps.thy ===== *)
theory Steps
  imports Prelude
begin

text \<open>
  Event-driven components. A component is a step function from an event and a state to the next
  state, \<^const>\<open>None\<close> where the event cannot happen. \<open>run_events\<close> runs a sequence of events;
  the locales carry the two arguments every component needs: an invariant kept by each step holds
  along every run, and a ledger that each step keeps balanced is balanced after every run.
\<close>

fun run_events :: "('e \<Rightarrow> 's \<Rightarrow> 's option) \<Rightarrow> 'e list \<Rightarrow> 's \<Rightarrow> 's option" where
  "run_events step [] s = Some s"
| "run_events step (e # es) s =
     (case step e s of None \<Rightarrow> None | Some s' \<Rightarrow> run_events step es s')"

lemma run_events_append:
  "run_events step (es @ fs) s =
   (case run_events step es s of None \<Rightarrow> None | Some s' \<Rightarrow> run_events step fs s')"
  by (induction es arbitrary: s) (auto split: option.split)

lemma run_events_Cons_Some:
  "run_events step (e # es) s = Some s' \<longleftrightarrow>
   (\<exists>s1. step e s = Some s1 \<and> run_events step es s1 = Some s')"
  by (auto split: option.split)

text \<open>An invariant of the steps whose event is admitted.\<close>

locale step_invariant =
  fixes step :: "'e \<Rightarrow> 's \<Rightarrow> 's option" and admit :: "'e \<Rightarrow> bool" and inv :: "'s \<Rightarrow> bool"
  assumes inv_step: "inv s \<Longrightarrow> admit e \<Longrightarrow> step e s = Some s' \<Longrightarrow> inv s'"
begin

lemma run_inv:
  "run_events step es s = Some s' \<Longrightarrow> inv s \<Longrightarrow> list_all admit es \<Longrightarrow> inv s'"
proof (induction es arbitrary: s)
  case (Cons e es)
  then show ?case using inv_step [of s e] by (auto split: option.splits)
qed simp

end

text \<open>
  A ledger: every event brings in some items (\<open>issued\<close>), every state accounts for some
  (\<open>accounted\<close>), and a step accounts for exactly what it had and what came in.
\<close>

locale step_ledger = step_invariant +
  fixes issued :: "'a \<Rightarrow> 'i multiset" and accounted :: "'b \<Rightarrow> 'i multiset"
  assumes ledger_step:
    "inv s \<Longrightarrow> admit e \<Longrightarrow> step e s = Some s' \<Longrightarrow> accounted s' = accounted s + issued e"
begin

lemma run_ledger:
  "run_events step es s = Some s' \<Longrightarrow> inv s \<Longrightarrow> list_all admit es \<Longrightarrow>
   accounted s' = accounted s + sum_list (map issued es)"
proof (induction es arbitrary: s)
  case (Cons e es)
  then show ?case using inv_step [of s e] ledger_step [of s e] by (auto split: option.splits)
qed simp

end

text \<open>
  A functional refinement: an abstraction function takes every concrete step to the step of an
  abstract specification, so it takes every run to the specification's run.
\<close>

locale step_refinement = step_invariant +
  fixes abs_state :: "'b \<Rightarrow> 'c" and spec_step :: "'a \<Rightarrow> 'c \<Rightarrow> 'c"
  assumes sim_step: "inv s \<Longrightarrow> admit e \<Longrightarrow> step e s = Some s' \<Longrightarrow> abs_state s' = spec_step e (abs_state s)"
begin

lemma run_refines:
  "run_events step es s = Some s' \<Longrightarrow> inv s \<Longrightarrow> list_all admit es \<Longrightarrow> abs_state s' = fold spec_step es (abs_state s)"
proof (induction es arbitrary: s)
  case (Cons e es)
  then obtain s1 where s1: "step e s = Some s1" "run_events step es s1 = Some s'" by (auto split: option.splits)
  with Cons.prems sim_step [of s e s1] inv_step [of s e s1] Cons.IH [OF s1(2)] show ?case by simp
qed simp

end

end
