(* ===== verification/Kernel_Run.thy ===== *)
theory Kernel_Run
  imports Content_Agents Steps
begin

text \<open>
  Every client of the kernel at once. \<open>kernel_step\<close> performs one operation of the class \<^verbatim>\<open>Kernel\<close>
  (\<^verbatim>\<open>ts/src/kernel/kernel.ts\<close>) with the handlers of the frontend's bundles; a run is any sequence of operations. The only
  operations excluded are registrations of an id that is taken, with children of their own, or under a parent that is not
  registered. The abstract kernel \<open>kspec\<close> is a forest of ids, a root and a set of bundles, and forgets agents, addresses,
  children maps, watches, inboxes and traces.
\<close>

section \<open>Operations\<close>

datatype kernel_event =
    KRegister "bundle_fn agent"
  | KSetRoot "bundle_fn agent"
  | KUpdate string payload
  | KRemove string
  | KLoad snapshot
  | KBundle string bundle_fn
  | KReadme string string
  | KSend string payload
  | KCallHost string payload
  | KForwardBinary string payload
  | KEmit string payload
  | KEmitRemote string payload
  | KWatch string string
  | KUnwatch string string
  | KOnInbox string nat
  | KOffInbox string nat
  | KOnLifecycle string nat
  | KSubscribe nat
  | KAddSubscriber nat
  | KRemoveSubscriber nat

text \<open>
  \<^verbatim>\<open>setRoot\<close> of a registered id only moves the root. A rejected snapshot raises before the registry is touched. The call
  stack of \<^verbatim>\<open>remove\<close> and \<^verbatim>\<open>reflect\<close> has as many frames as there are agents, that of \<^verbatim>\<open>load\<close> as many as there are records:
  the theorems on those operations show that this is always enough.
\<close>

fun kernel_step :: "kernel_event \<Rightarrow> bundle_fn kernel \<Rightarrow> bundle_fn kernel option" where
  "kernel_step (KRegister ag) k = (if register_ok ag k then Some (register ag k) else None)"
| "kernel_step (KSetRoot ag) k =
     (if map_of (agents k) (ag_id ag) \<noteq> None \<or> register_ok ag k then Some (setRoot ag k) else None)"
| "kernel_step (KUpdate i patch) k = Some (fst (updateMeta i patch k))"
| "kernel_step (KRemove i) k = map_option fst (remove (length (agents k)) i k)"
| "kernel_step (KLoad s) k =
     (case load (length (snapshot_records s)) s k of
        Inr k' \<Rightarrow> Some k' | Inl (SnapshotError _) \<Rightarrow> Some k | Inl StackOverflow \<Rightarrow> None)"
| "kernel_step (KBundle hm b) k = Some (registerBundle hm b k)"
| "kernel_step (KReadme hm r) k = Some (setBundleReadme hm r k)"
| "kernel_step (KSend target p) k = Some (fst (send (length (agents k)) run_bundle target p k))"
| "kernel_step (KCallHost target p) k = Some (fst (callHost target p k))"
| "kernel_step (KForwardBinary target p) k = Some (fst (forwardBinary target p k))"
| "kernel_step (KEmit i p) k = Some (emit i p k)"
| "kernel_step (KEmitRemote i p) k = Some (emitRemote i p k)"
| "kernel_step (KWatch src w) k = Some (watch src w k)"
| "kernel_step (KUnwatch src w) k = Some (unwatch src w k)"
| "kernel_step (KOnInbox i l) k = Some (onInbox i l k)"
| "kernel_step (KOffInbox i l) k = Some (offInbox i l k)"
| "kernel_step (KOnLifecycle e f) k = Some (onLifecycle e f k)"
| "kernel_step (KSubscribe f) k = Some (subscribeState f k)"
| "kernel_step (KAddSubscriber cb) k = Some (addStateSubscriber cb k)"
| "kernel_step (KRemoveSubscriber cb) k = Some (removeStateSubscriber cb k)"

section \<open>The abstract kernel\<close>

record kspec =
  ks_tree :: forest
  ks_root :: "string option"
  ks_bundles :: "string set"

definition ks_installed :: "string set \<Rightarrow> agent_record \<Rightarrow> bool" where
  "ks_installed bs r =
     (case nullish (map_of r ''handler_module'') of None \<Rightarrow> True | Some (JStr hm) \<Rightarrow> hm \<in> bs | Some _ \<Rightarrow> False)"

text \<open>What a valid snapshot denotes: the part of its forest that hangs on the root through installed bundles.\<close>

definition ks_loaded :: "string set \<Rightarrow> agent_record list \<Rightarrow> string \<Rightarrow> forest" where
  "ks_loaded bs rs root =
     (let t = load_forest (ks_installed bs) rs in if root \<in> dom t then t |` subtree t root else Map.empty)"

fun kspec_step :: "kernel_event \<Rightarrow> kspec \<Rightarrow> kspec" where
  "kspec_step (KRegister ag) s = s\<lparr>ks_tree := (ks_tree s)(ag_id ag \<mapsto> parentId ag)\<rparr>"
| "kspec_step (KSetRoot ag) s =
     s\<lparr>ks_root := Some (ag_id ag),
       ks_tree := (if ag_id ag \<in> dom (ks_tree s) then ks_tree s else (ks_tree s)(ag_id ag \<mapsto> parentId ag))\<rparr>"
| "kspec_step (KRemove i) s =
     (if i \<in> dom (ks_tree s) then s\<lparr>ks_tree := prune (ks_tree s) (subtree (ks_tree s) i)\<rparr> else s)"
| "kspec_step (KLoad snap) s =
     (case validateRecords (snapshot_records snap) (snapshot_version snap) of
        Inl _ \<Rightarrow> s
      | Inr root \<Rightarrow>
          (let t = ks_loaded (ks_bundles s) (snapshot_records snap) root
           in s\<lparr>ks_tree := t, ks_root := (if root \<in> dom t then Some root else None)\<rparr>))"
| "kspec_step (KBundle hm b) s = s\<lparr>ks_bundles := insert hm (ks_bundles s)\<rparr>"
| "kspec_step _ s = s"

definition kabs :: "'h kernel \<Rightarrow> kspec" where
  "kabs k = \<lparr>ks_tree = tree k, ks_root = rootId k, ks_bundles = fst ` set (handlers k)\<rparr>"

section \<open>Every step is a step of the specification\<close>

text \<open>Operations that touch neither the tree nor the root nor the bundles.\<close>

definition quiet_step :: "'h kernel \<Rightarrow> 'h kernel \<Rightarrow> bool" where
  "quiet_step k k' \<longleftrightarrow> same_tree k k' \<and> rootId k' = rootId k \<and> handlers k' = handlers k"

lemma quiet_step_ok: "kernel_wf k \<Longrightarrow> quiet_step k k' \<Longrightarrow> kernel_wf k' \<and> kabs k' = kabs k"
  using same_tree_wf [of k k'] same_tree_tree [of k k'] by (simp add: quiet_step_def kabs_def kernel_wf_def)

lemma quiet_refl [simp]: "quiet_step k k"
  by (simp add: quiet_step_def)

lemma quiet_frame:
  "agents k' = agents k \<Longrightarrow> store k' = store k \<Longrightarrow> rootId k' = rootId k \<Longrightarrow> handlers k' = handlers k \<Longrightarrow> quiet_step k k'"
  by (simp add: quiet_step_def same_tree_frame)

lemma quiet_act [simp]: "quiet_step k (act x k)"
  by (rule quiet_frame) (simp_all add: act_def)

lemma quiet_bridge_call [simp]: "quiet_step k (bridge_call x k)"
  by (rule quiet_frame) simp_all

lemma quiet_updateMeta: "quiet_step k (fst (updateMeta i patch k))"
  using same_tree_updateMeta [of k i patch]
  by (simp add: quiet_step_def updateMeta_def Let_def split: option.split)

lemma quiet_emit: "quiet_step k (emit i p k)"
  by (rule quiet_frame) (simp_all add: emit_def Let_def)

lemma quiet_trans: "quiet_step k k1 \<Longrightarrow> quiet_step k1 k2 \<Longrightarrow> quiet_step k k2"
  by (auto simp: quiet_step_def intro: same_tree_trans)

lemma quiet_set_content: "quiet_step k (fst (set_content i key s k))"
  unfolding set_content_def fst_conv by (rule quiet_trans [OF quiet_updateMeta quiet_emit])

lemma quiet_run_bundle: "quiet_step k (fst (run_bundle h i payload k))"
  by (cases h) (simp_all add: glAgent_def htmlAgent_def Let_def quiet_set_content)

lemma quiet_send: "quiet_step k (fst (send n run_bundle target payload k))"
proof -
  have "quiet_step k k1" if "run_bundle h i p k = (k1, r)" for h i p k1 r
    using quiet_run_bundle [of k h i p] that by simp
  then show ?thesis by (auto simp: send_def Let_def split: option.split prod.split)
qed

lemma kabs_register:
  assumes "kernel_wf k" "register_ok ag k"
  shows "kernel_wf (register ag k) \<and> kabs (register ag k) = kspec_step (KRegister ag) (kabs k)"
  using register_wf [OF assms] tree_register [of k ag] assms by (simp add: kabs_def kernel_wf_def)

lemma kabs_rootId: "kernel_wf (k\<lparr>rootId := r\<rparr>) = kernel_wf k" "kabs (k\<lparr>rootId := r\<rparr>) = (kabs k)\<lparr>ks_root := r\<rparr>"
  by (simp_all add: kernel_wf_def kabs_def addresses_ok_def children_ok_def tree_def get_agent_def)

lemma dom_kabs: "i \<in> dom (ks_tree (kabs k)) \<longleftrightarrow> map_of (agents k) i \<noteq> None"
  by (auto simp: kabs_def tree_def get_agent_def)

lemma kabs_setRoot:
  assumes "kernel_wf k" "map_of (agents k) (ag_id ag) \<noteq> None \<or> register_ok ag k"
  shows "kernel_wf (setRoot ag k) \<and> kabs (setRoot ag k) = kspec_step (KSetRoot ag) (kabs k)"
proof (cases "map_of (agents k) (ag_id ag)")
  case None
  with assms kabs_register [OF assms(1)] dom_kabs [of "ag_id ag" k] show ?thesis
    by (simp add: setRoot_def kabs_rootId)
next
  case (Some a)
  with assms dom_kabs [of "ag_id ag" k] show ?thesis by (simp add: setRoot_def kabs_rootId)
qed

lemma kabs_remove:
  assumes "kernel_wf k" "remove (length (agents k)) i k = Some (k', b)"
  shows "kernel_wf k' \<and> kabs k' = kspec_step (KRemove i) (kabs k)"
proof (cases "map_of (agents k) i")
  case None
  with assms dom_kabs [of i k] show ?thesis by (simp add: remove_def)
next
  case (Some a)
  with remove_removed [OF assms(1), of i "length (agents k)"] assms(2) obtain js where
    "removed k k' (subtree (tree k) i) js" "tree k' = prune (tree k) (subtree (tree k) i)" by auto
  with Some dom_kabs [of i k] show ?thesis by (simp add: kabs_def removed_def)
qed

lemma ks_installed_eq: "ks_installed (fst ` set (handlers k)) = bundle_installed k"
  by (auto simp: ks_installed_def bundle_installed_def fun_eq_iff map_of_eq_None_iff split: option.split json.split)

lemma built_parent: "built rs k k' N \<Longrightarrow> j \<in> N \<Longrightarrow> \<exists>r \<in> set rs. rec_id r = j \<and> tree k' j = Some (rec_parent r)"
  unfolding built_def tree_def by (metis option.simps(9))

lemma loaded_tree:
  assumes l: "loaded k rs root k'" and d: "distinct (map rec_id rs)"
  shows "tree k' = ks_loaded (fst ` set (handlers k)) rs root"
proof -
  let ?t = "load_forest (bundle_installed k) rs"
  have root: "root \<in> dom ?t \<longleftrightarrow> (\<exists>r \<in> set rs. rec_id r = root \<and> bundle_installed k r)"
    by (auto simp: load_forest_simps(2) [OF d])
  let ?N = "if root \<in> dom ?t then subtree ?t root else {}"
  have b: "built rs (clear_tree k) k' ?N" using l by (simp add: loaded_def root)
  have dm: "dom (tree k') = ?N" using builtD(2) [OF b] by (simp add: kernel_wf_clear)
  have sub: "?N \<subseteq> dom ?t" using subtree_subset_dom [of ?t root] by auto
  have "tree k' j = ?t j" if j: "j \<in> ?N" for j
  proof -
    obtain r where r: "r \<in> set rs" "rec_id r = j" "tree k' j = Some (rec_parent r)"
      using built_parent [OF b j] by blast
    obtain p where p: "?t j = Some p" using j sub by blast
    with load_forest_simps(1) [OF d] obtain r' where "r' \<in> set rs" "rec_id r' = j" "rec_parent r' = p" by metis
    with r p d show ?thesis by (metis distinct_map inj_onD)
  qed
  moreover have "tree k' j = None" if "j \<notin> ?N" for j using that dm by blast
  ultimately have "tree k' j = (if j \<in> ?N then ?t j else None)" for j by (metis (full_types))
  then show ?thesis by (auto simp: ks_loaded_def ks_installed_eq Let_def restrict_map_def fun_eq_iff)
qed

lemma kabs_load:
  assumes "kernel_wf k" "kernel_step (KLoad s) k = Some k'"
  shows "kernel_wf k' \<and> kabs k' = kspec_step (KLoad s) (kabs k)"
proof (cases "validateRecords (snapshot_records s) (snapshot_version s)")
  case (Inl e)
  with assms show ?thesis by (simp add: load_def Let_def)
next
  case (Inr root)
  let ?rs = "snapshot_records s"
  have l: "loaded k ?rs root k'" using load_valid [OF Inr, of "length ?rs" k] assms(2) by auto
  have d: "distinct (map rec_id ?rs)" using validateRecords_Inr_D(2) [OF Inr] by (simp add: valid_snapshot_def)
  note t = loaded_tree [OF l d]
  have "root \<in> dom (tree k') \<longleftrightarrow> (\<exists>r \<in> set ?rs. rec_id r = root \<and> bundle_installed k r)"
    unfolding t ks_loaded_def ks_installed_eq
    by (auto simp: Let_def load_forest_simps(2) [OF d] dom_restrict)
  with l have "rootId k' = (if root \<in> dom (tree k') then Some root else None)" by (simp add: loaded_def)
  moreover have "handlers k' = handlers k" "kernel_wf k'"
    using l unfolding loaded_def by (auto dest: builtD simp: clear_tree_def)
  ultimately show ?thesis using Inr t by (simp add: kabs_def Let_def)
qed

fun quiet_event :: "kernel_event \<Rightarrow> bool" where
  "quiet_event (KRegister _) = False"
| "quiet_event (KSetRoot _) = False"
| "quiet_event (KRemove _) = False"
| "quiet_event (KLoad _) = False"
| "quiet_event (KBundle _ _) = False"
| "quiet_event _ = True"

lemma quiet_events: "kernel_step e k = Some k' \<Longrightarrow> quiet_event e \<Longrightarrow> quiet_step k k'"
  by (cases e) (auto intro: quiet_updateMeta quiet_send quiet_emit quiet_frame simp: setBundleReadme_def callHost_def
      forwardBinary_def emitRemote_def watch_def unwatch_def onInbox_def offInbox_def onLifecycle_def subscribeState_def
      addStateSubscriber_def removeStateSubscriber_def Let_def split: option.split)

lemma kernel_step_sim:
  assumes "kernel_wf k" "kernel_step e k = Some k'"
  shows "kernel_wf k' \<and> kabs k' = kspec_step e (kabs k)"
proof -
  have q: "kernel_wf k' \<and> kabs k' = kabs k" if "quiet_event e" using quiet_step_ok [OF assms(1) quiet_events [OF assms(2) that]] .
  show ?thesis
  proof (cases e)
    case (KRegister ag)
    with assms kabs_register show ?thesis by (auto split: if_splits)
  next
    case (KSetRoot ag)
    with assms kabs_setRoot show ?thesis by (auto split: if_splits)
  next
    case (KRemove i)
    with assms kabs_remove show ?thesis by auto
  next
    case (KLoad s)
    with assms kabs_load show ?thesis by blast
  next
    case (KBundle hm b)
    then have k': "k' = registerBundle hm b k" using assms(2) by simp
    then have "same_tree k k'" by (simp add: registerBundle_def same_tree_frame)
    with assms(1) same_tree_wf same_tree_tree [of k k'] KBundle k' show ?thesis
      by (auto simp: kabs_def kernel_wf_def registerBundle_def fst_set_update)
  qed (use q in simp_all)
qed

lemma kernel_progress:
  assumes "kernel_wf k" "kernel_step e k = None"
  shows "\<exists>ag. (e = KRegister ag \<or> e = KSetRoot ag) \<and> \<not> register_ok ag k"
proof (cases e)
  case (KRemove i)
  with assms(2) remove_removed [OF assms(1), of i "length (agents k)"] show ?thesis
    by (cases "map_of (agents k) i") (auto simp: remove_def)
next
  case (KLoad s)
  have "load (length (snapshot_records s)) s k \<noteq> Inl StackOverflow"
    using load_valid [of s _ "length (snapshot_records s)" k]
    by (cases "validateRecords (snapshot_records s) (snapshot_version s)") (auto simp: load_def Let_def)
  with KLoad assms(2) show ?thesis by (auto split: sum.splits kernel_error.splits)
qed (use assms(2) in \<open>auto split: if_splits\<close>)

interpretation kernel_run: step_refinement kernel_step "\<lambda>_. True" kernel_wf kabs kspec_step
  using kernel_step_sim by unfold_locales blast+

section \<open>Runs\<close>

text \<open>
  C2: the registry of the kernel is always well formed. After any sequence of operations on a new kernel, the id maps are
  injective and agree with the agents they point to, every agent's children map holds exactly the registered agents that
  name it as their parent, and the parent references form a finite forest. From there every operation returns: only a
  registration that breaks its precondition is refused, and no recursion of \<^verbatim>\<open>remove\<close> or \<^verbatim>\<open>load\<close> exhausts its stack.
\<close>
theorem kernel_always_well_formed:
  assumes "run_events kernel_step es (new_kernel now) = Some k"
  shows "distinct (map fst (agents k)) \<and>
    (\<forall>i a. map_of (agents k) i = Some a \<longrightarrow> a < length (store k) \<and> ag_id (store k ! a) = i \<and>
       distinct (map fst (children (store k ! a))) \<and>
       (\<forall>c ca. map_of (children (store k ! a)) c = Some ca \<longleftrightarrow>
          map_of (agents k) c = Some ca \<and> parentId (store k ! ca) = Some i)) \<and>
    forest_ok (tree k) \<and>
    (\<forall>e. kernel_step e k = None \<longrightarrow> (\<exists>ag. (e = KRegister ag \<or> e = KSetRoot ag) \<and> \<not> register_ok ag k))"
proof -
  have "kernel_wf k" using kernel_run.run_inv [OF assms kernel_wf_new] by (simp add: list_all_iff)
  with kernel_progress show ?thesis unfolding kernel_wf_def addresses_ok_def children_ok_def by blast
qed


definition a_leaf :: "string \<Rightarrow> string option \<Rightarrow> bundle_fn agent" where
  "a_leaf i p = new_agent \<lparr>init_id = i, init_handlerModule = None, init_parentId = p, init_sentence = None,
     init_verbs = None, init_meta = None, init_handler = None\<rparr>"

definition sample_ops :: "kernel_event list" where
  "sample_ops = [KSetRoot (a_leaf ''canvas'' None), KRegister (a_leaf ''a'' (Some ''canvas'')),
     KRegister (a_leaf ''b'' (Some ''a'')), KRemove ''a'', KLoad (BareList []), KRegister (a_leaf ''c'' (Some ''canvas''))]"

lemma sample_ops_run:
  obtains k where "run_events kernel_step sample_ops (new_kernel 0) = Some k" "map fst (agents k) = [''canvas'', ''c'']"
proof -
  have "case run_events kernel_step sample_ops (new_kernel 0) of
      Some k \<Rightarrow> map fst (agents k) = [''canvas'', ''c''] | None \<Rightarrow> False" by code_simp
  then show ?thesis using that by (cases "run_events kernel_step sample_ops (new_kernel 0)") simp_all
qed

theorem kernel_always_well_formed_witness:
  "\<exists>k. run_events kernel_step sample_ops (new_kernel 0) = Some k \<and> map fst (agents k) = [''canvas'', ''c''] \<and> forest_ok (tree k)"
proof (rule sample_ops_run)
  fix k assume k: "run_events kernel_step sample_ops (new_kernel 0) = Some k" "map fst (agents k) = [''canvas'', ''c'']"
  have "forest_ok (tree k)" using kernel_always_well_formed [OF k(1)] by (elim conjE)
  with k show ?thesis by (intro exI [of _ k] conjI)
qed


end
