(* ===== verification/Json_Text.thy ===== *)
theory Json_Text
  imports Prelude
begin

text \<open>
  \<^verbatim>\<open>JSON.stringify\<close> and \<^verbatim>\<open>JSON.parse\<close>, the part of the standard library the wire codec of
  \<^verbatim>\<open>ts/src/transport/frame.ts\<close> rests on, over the UTF-8 representation of text.

  \<open>stringify\<close> prints without white space, as \<^verbatim>\<open>JSON.stringify(v)\<close> does; an \<^verbatim>\<open>ArrayBuffer\<close> prints
  as an object without properties and a \<^verbatim>\<open>Uint8Array\<close> as an object of its indices. \<open>json_parse\<close>
  accepts the whole JSON grammar; \<^const>\<open>None\<close> is a syntax error or a value outside the modelled
  lattice (a number with a fraction or an exponent, a lone surrogate). The nesting depth is
  bounded by the length of the text, which is always enough.
\<close>

section \<open>Numbers\<close>

definition digit :: "nat \<Rightarrow> char" where
  "digit d = char_of (48 + d)"

definition is_digit :: "char \<Rightarrow> bool" where
  "is_digit c = (48 \<le> (of_char c :: nat) \<and> (of_char c :: nat) \<le> 57)"

definition digit_val :: "char \<Rightarrow> nat" where
  "digit_val c = of_char c - 48"

fun show_nat :: "nat \<Rightarrow> string" where
  "show_nat n = (if n < 10 then [digit n] else show_nat (n div 10) @ [digit (n mod 10)])"

declare show_nat.simps [simp del]

definition read_nat :: "string \<Rightarrow> nat" where
  "read_nat s = foldl (\<lambda>acc c. 10 * acc + digit_val c) 0 s"

definition show_int :: "int \<Rightarrow> string" where
  "show_int i = (if i < 0 then CHR 0x2D # show_nat (nat (- i)) else show_nat (nat i))"

lemma char_48 [simp]: "char_of (48 :: nat) = CHR ''0''"
  by (simp add: char_of_eq_iff)

lemma of_char_digit: "d < 10 \<Longrightarrow> (of_char (digit d) :: nat) = 48 + d"
  by (simp add: digit_def)

lemma digit_simps [simp]:
  "d < 10 \<Longrightarrow> is_digit (digit d)" "d < 10 \<Longrightarrow> digit_val (digit d) = d"
  by (simp_all add: is_digit_def digit_val_def of_char_digit)

lemma show_nat_digits: "\<forall>c\<in>set (show_nat n). is_digit c"
proof (induction n rule: show_nat.induct)
  case (1 n)
  then show ?case by (subst show_nat.simps) auto
qed

lemma show_nat_not_Nil [simp]: "show_nat n \<noteq> []"
  by (subst show_nat.simps) auto

lemma read_show_nat [simp]: "read_nat (show_nat n) = n"
proof (induction n rule: show_nat.induct)
  case (1 n)
  show ?case
  proof (cases "n < 10")
    case True
    then show ?thesis by (subst show_nat.simps) (simp add: read_nat_def)
  next
    case False
    then have "read_nat (show_nat (n div 10)) = n div 10" using 1 by simp
    with False show ?thesis by (subst show_nat.simps) (simp add: read_nat_def)
  qed
qed

lemma hd_show_nat_zero: "hd (show_nat n) = CHR 0x30 \<longleftrightarrow> n = 0"
proof (induction n rule: show_nat.induct)
  case (1 n)
  have "digit d = CHR 0x30 \<longleftrightarrow> d = 0" if "d < 10" for d
  proof
    assume "digit d = CHR 0x30"
    then have "(of_char (digit d) :: nat) = 48" by simp
    then show "d = 0" using that by (simp add: of_char_digit)
  qed (simp add: digit_def)
  with 1 show ?case by (subst show_nat.simps) (auto simp: hd_append)
qed

lemma show_nat_zero [simp]: "show_nat 0 = [CHR 0x30]"
  by (subst show_nat.simps) (simp add: digit_def)

lemma show_nat_inj: "show_nat m = show_nat n \<Longrightarrow> m = n"
  by (metis read_show_nat)

section \<open>Printing\<close>

definition hex_digit :: "nat \<Rightarrow> char" where
  "hex_digit d = (if d < 10 then char_of (48 + d) else char_of (87 + d))"

definition escape_char :: "char \<Rightarrow> string" where
  "escape_char c =
     (let n = (of_char c :: nat) in
      if n = 34 then [CHR 0x5C, CHR 0x22]
      else if n = 92 then [CHR 0x5C, CHR 0x5C]
      else if n = 8 then [CHR 0x5C, CHR ''b'']
      else if n = 12 then [CHR 0x5C, CHR ''f'']
      else if n = 10 then [CHR 0x5C, CHR ''n'']
      else if n = 13 then [CHR 0x5C, CHR ''r'']
      else if n = 9 then [CHR 0x5C, CHR ''t'']
      else if n < 32 then [CHR 0x5C, CHR ''u'', CHR ''0'', CHR ''0'',
                           hex_digit (n div 16), hex_digit (n mod 16)]
      else [c])"

definition quote_string :: "string \<Rightarrow> string" where
  "quote_string s = CHR 0x22 # concat (map escape_char s) @ [CHR 0x22]"

fun commas :: "string list \<Rightarrow> string" where
  "commas [] = []"
| "commas [s] = s"
| "commas (s # t # ts) = s @ CHR 0x2C # commas (t # ts)"

text \<open>The own enumerable properties of a \<^verbatim>\<open>Uint8Array\<close>: its indices, in order.\<close>

definition index_object :: "8 word list \<Rightarrow> payload" where
  "index_object bs = map (\<lambda>(i, b). (show_nat i, JNum (uint b))) (zip [0..<length bs] bs)"

fun stringify :: "json \<Rightarrow> string" where
  "stringify JNull = ''null''"
| "stringify (JBool b) = (if b then ''true'' else ''false'')"
| "stringify (JNum i) = show_int i"
| "stringify (JStr s) = quote_string s"
| "stringify (JArr vs) = CHR 0x5B # commas (map stringify vs) @ [CHR 0x5D]"
| "stringify (JObj ms) =
     CHR 0x7B # commas (map (\<lambda>(k, v). quote_string k @ CHR 0x3A # stringify v) ms) @ [CHR 0x7D]"
| "stringify (JBuf bs) = ''{}''"
| "stringify (JView bs) =
     CHR 0x7B # commas (map (\<lambda>(k, i). quote_string k @ CHR 0x3A # show_int i)
       (map (\<lambda>(i, b). (show_nat i, uint b)) (zip [0..<length bs] bs))) @ [CHR 0x7D]"

section \<open>Parsing\<close>

definition is_space :: "char \<Rightarrow> bool" where
  "is_space c = (c \<in> {CHR 0x20, CHR 0x09, CHR 0x0A, CHR 0x0D})"

definition skip :: "string \<Rightarrow> string" where
  "skip s = dropWhile is_space s"

definition hex_val :: "char \<Rightarrow> nat option" where
  "hex_val c =
     (let n = (of_char c :: nat) in
      if 48 \<le> n \<and> n \<le> 57 then Some (n - 48)
      else if 97 \<le> n \<and> n \<le> 102 then Some (n - 87)
      else if 65 \<le> n \<and> n \<le> 70 then Some (n - 55) else None)"

fun hex4 :: "string \<Rightarrow> nat option" where
  "hex4 (a # b # c # d # s) =
     (case (hex_val a, hex_val b, hex_val c, hex_val d) of
        (Some w, Some x, Some y, Some z) \<Rightarrow> Some (((w * 16 + x) * 16 + y) * 16 + z)
      | _ \<Rightarrow> None)"
| "hex4 s = None"

text \<open>The UTF-8 encoding of a code point.\<close>

definition utf8 :: "nat \<Rightarrow> string" where
  "utf8 n =
     (if n < 0x80 then [char_of n]
      else if n < 0x800 then [char_of (0xC0 + n div 0x40), char_of (0x80 + n mod 0x40)]
      else if n < 0x10000 then
        [char_of (0xE0 + n div 0x1000), char_of (0x80 + n div 0x40 mod 0x40),
         char_of (0x80 + n mod 0x40)]
      else
        [char_of (0xF0 + n div 0x40000), char_of (0x80 + n div 0x1000 mod 0x40),
         char_of (0x80 + n div 0x40 mod 0x40), char_of (0x80 + n mod 0x40)])"

definition simple_escape :: "char \<Rightarrow> char option" where
  "simple_escape e =
     (if e = CHR 0x22 \<or> e = CHR 0x5C \<or> e = CHR 0x2F then Some e
      else if e = CHR ''b'' then Some (CHR 0x08)
      else if e = CHR ''f'' then Some (CHR 0x0C)
      else if e = CHR ''n'' then Some (CHR 0x0A)
      else if e = CHR ''r'' then Some (CHR 0x0D)
      else if e = CHR ''t'' then Some (CHR 0x09) else None)"

definition prepend :: "string \<Rightarrow> (string \<times> string) option \<Rightarrow> (string \<times> string) option" where
  "prepend u r = map_option (\<lambda>(t, s). (u @ t, s)) r"

function p_string :: "string \<Rightarrow> (string \<times> string) option" where
  "p_string [] = None"
| "p_string (c # s) =
     (if c = CHR 0x22 then Some ([], s)
      else if c = CHR 0x5C then
        (case s of
           [] \<Rightarrow> None
         | e # s1 \<Rightarrow>
             if e = CHR ''u'' then
               (case hex4 s1 of
                  None \<Rightarrow> None
                | Some u \<Rightarrow>
                    if 0xD800 \<le> u \<and> u < 0xDC00 then
                      (case drop 4 s1 of
                         x # y # s2 \<Rightarrow>
                           (case hex4 s2 of
                              None \<Rightarrow> None
                            | Some l \<Rightarrow>
                                if x = CHR 0x5C \<and> y = CHR ''u'' \<and> 0xDC00 \<le> l \<and> l < 0xE000
                                then prepend (utf8 (0x10000 + (u - 0xD800) * 0x400 + (l - 0xDC00)))
                                       (p_string (drop 4 s2))
                                else None)
                       | _ \<Rightarrow> None)
                    else if 0xDC00 \<le> u \<and> u < 0xE000 then None
                    else prepend (utf8 u) (p_string (drop 4 s1)))
             else (case simple_escape e of
                     None \<Rightarrow> None | Some ch \<Rightarrow> prepend [ch] (p_string s1)))
      else if (of_char c :: nat) < 32 then None
      else prepend [c] (p_string s))"
  by pat_completeness auto
termination
proof (relation "measure length", goal_cases)
  case (2 c s e s1 u x ss y s2 l)
  then have "length s1 - 4 = length (x # y # s2)" by (metis length_drop)
  with 2 show ?case by (simp only: in_measure length_drop list.size)
qed auto

definition p_nat :: "string \<Rightarrow> (nat \<times> string) option" where
  "p_nat s =
     (case s of
        [] \<Rightarrow> None
      | c # s1 \<Rightarrow>
          (let (ds, r) = (if c = CHR 0x30 then ([c], s1) else (takeWhile is_digit s, dropWhile is_digit s))
           in if ds = [] \<or> (r \<noteq> [] \<and> hd r \<in> {CHR ''.'', CHR ''e'', CHR ''E''}) then None
              else Some (read_nat ds, r)))"

definition p_number :: "string \<Rightarrow> (json \<times> string) option" where
  "p_number s =
     (case s of
        c # s1 \<Rightarrow>
          if c = CHR 0x2D then map_option (\<lambda>(n, r). (JNum (- int n), r)) (p_nat s1)
          else map_option (\<lambda>(n, r). (JNum (int n), r)) (p_nat s)
      | [] \<Rightarrow> None)"

definition p_literal :: "string \<Rightarrow> json \<Rightarrow> string \<Rightarrow> (json \<times> string) option" where
  "p_literal w v s = (if take (length w) s = w then Some (v, drop (length w) s) else None)"

definition object_of :: "(string \<times> json) list \<Rightarrow> json" where
  "object_of ms = JObj (fold (\<lambda>(k, v) ob. AList.update k v ob) ms [])"

text \<open>
  \<open>p_elems\<close> and \<open>p_members\<close> read the rest of a non-empty array or object up to and with its
  closing bracket.
\<close>

fun p_value :: "nat \<Rightarrow> string \<Rightarrow> (json \<times> string) option"
and p_elems :: "nat \<Rightarrow> string \<Rightarrow> (json list \<times> string) option"
and p_members :: "nat \<Rightarrow> string \<Rightarrow> ((string \<times> json) list \<times> string) option"
where
  "p_value 0 s = None"
| "p_value (Suc n) s =
     (case skip s of
        [] \<Rightarrow> None
      | c # r \<Rightarrow>
          if c = CHR 0x7B then
            (case skip r of
               [] \<Rightarrow> None
             | d # r' \<Rightarrow> if d = CHR 0x7D then Some (JObj [], r')
                 else map_option (\<lambda>(ms, t). (object_of ms, t)) (p_members n (d # r')))
          else if c = CHR 0x5B then
            (case skip r of
               [] \<Rightarrow> None
             | d # r' \<Rightarrow> if d = CHR 0x5D then Some (JArr [], r')
                 else map_option (\<lambda>(vs, t). (JArr vs, t)) (p_elems n (d # r')))
          else if c = CHR 0x22 then map_option (\<lambda>(t, q). (JStr t, q)) (p_string r)
          else if c = CHR ''t'' then p_literal ''true'' (JBool True) (c # r)
          else if c = CHR ''f'' then p_literal ''false'' (JBool False) (c # r)
          else if c = CHR ''n'' then p_literal ''null'' JNull (c # r)
          else p_number (c # r))"
| "p_elems 0 s = None"
| "p_elems (Suc n) s =
     (case p_value n s of
        None \<Rightarrow> None
      | Some (v, r) \<Rightarrow>
          (case skip r of
             [] \<Rightarrow> None
           | d # r' \<Rightarrow>
               if d = CHR 0x2C then map_option (\<lambda>(vs, t). (v # vs, t)) (p_elems n r')
               else if d = CHR 0x5D then Some ([v], r') else None))"
| "p_members 0 s = None"
| "p_members (Suc n) s =
     (case skip s of
        [] \<Rightarrow> None
      | q # r \<Rightarrow>
          if q \<noteq> CHR 0x22 then None
          else case p_string r of
              None \<Rightarrow> None
            | Some (k, r1) \<Rightarrow>
                (case skip r1 of
                   [] \<Rightarrow> None
                 | col # r2 \<Rightarrow>
                     if col \<noteq> CHR 0x3A then None
                     else case p_value n r2 of
                         None \<Rightarrow> None
                       | Some (v, r3) \<Rightarrow>
                           (case skip r3 of
                              [] \<Rightarrow> None
                            | d # r' \<Rightarrow>
                                if d = CHR 0x2C
                                then map_option (\<lambda>(ms, t). ((k, v) # ms, t)) (p_members n r')
                                else if d = CHR 0x7D then Some ([(k, v)], r') else None)))"

definition json_parse :: "string \<Rightarrow> json option" where
  "json_parse s =
     (case p_value (2 * length s + 2) s of
        Some (v, r) \<Rightarrow> if skip r = [] then Some v else None
      | None \<Rightarrow> None)"

section \<open>Round trip\<close>

text \<open>What survives a trip through text: binary values have become plain objects.\<close>

fun deepClone :: "json \<Rightarrow> json" where
  "deepClone (JArr vs) = JArr (map deepClone vs)"
| "deepClone (JObj ms) = JObj (map (\<lambda>(k, v). (k, deepClone v)) ms)"
| "deepClone (JBuf bs) = JObj []"
| "deepClone (JView bs) = JObj (index_object bs)"
| "deepClone v = v"

text \<open>Every object has each key once, as every JavaScript object does.\<close>

fun keys_distinct :: "json \<Rightarrow> bool" where
  "keys_distinct (JArr vs) = list_all keys_distinct vs"
| "keys_distinct (JObj ms) = (distinct (map fst ms) \<and> list_all (\<lambda>(k, v). keys_distinct v) ms)"
| "keys_distinct v = True"

text \<open>What may follow a value: the end of the text or a delimiter.\<close>

definition delimited :: "string \<Rightarrow> bool" where
  "delimited r = (r = [] \<or> hd r \<in> {CHR 0x2C, CHR 0x5D, CHR 0x7D})"

lemma delimited_simps [simp]:
  "delimited []" "delimited (CHR 0x2C # r)" "delimited (CHR 0x5D # r)" "delimited (CHR 0x7D # r)"
  by (simp_all add: delimited_def)

lemma hex_val_digit [simp]: "d < 16 \<Longrightarrow> hex_val (hex_digit d) = Some d"
  by (auto simp: hex_val_def hex_digit_def)

lemma hex_val_0 [simp]: "hex_val (CHR ''0'') = Some 0"
  by (simp add: hex_val_def)

lemma escape_control:
  assumes "(of_char c :: nat) < 32"
  shows "hex4 (CHR ''0'' # CHR ''0'' # hex_digit ((of_char c :: nat) div 16) #
    hex_digit ((of_char c :: nat) mod 16) # s) = Some (of_char c)"
proof -
  have "(of_char c :: nat) div 16 < 16" "(of_char c :: nat) mod 16 < 16" using assms by auto
  then show ?thesis by simp
qed

lemma of_char_eq_char [simp]:
  "(of_char c :: nat) = 34 \<longleftrightarrow> c = CHR 0x22" "(of_char c :: nat) = 92 \<longleftrightarrow> c = CHR 0x5C"
  "(of_char c :: nat) = 8 \<longleftrightarrow> c = CHR 0x08" "(of_char c :: nat) = 12 \<longleftrightarrow> c = CHR 0x0C"
  "(of_char c :: nat) = 10 \<longleftrightarrow> c = CHR 0x0A" "(of_char c :: nat) = 13 \<longleftrightarrow> c = CHR 0x0D"
  "(of_char c :: nat) = 9 \<longleftrightarrow> c = CHR 0x09"
  by (auto simp flip: of_char_eq_iff [where 'a = nat])

lemma p_string_escape: "p_string (escape_char c @ s) = prepend [c] (p_string s)"
proof (cases "(of_char c :: nat) < 32")
  case True
  then show ?thesis
    by (auto simp: escape_char_def Let_def simple_escape_def escape_control utf8_def
        simp del: hex4.simps)
next
  case False
  then show ?thesis
    by (auto simp: escape_char_def Let_def simple_escape_def)
qed

lemma p_string_quoted:
  "p_string (concat (map escape_char s) @ CHR 0x22 # r) = Some (s, r)"
  by (induction s) (simp_all add: p_string_escape prepend_def)

definition value_head :: "char \<Rightarrow> bool" where
  "value_head c = (\<not> is_space c \<and> c \<noteq> CHR 0x5D \<and> c \<noteq> CHR 0x7D)"

lemma digit_value_head: "is_digit c \<Longrightarrow> value_head c"
  by (auto simp: is_digit_def value_head_def is_space_def)

lemma show_nat_Cons: obtains c s where "show_nat n = c # s" "is_digit c"
  using show_nat_digits [of n] by (cases "show_nat n") auto

lemma stringify_Cons: obtains c s where "stringify v = c # s" "value_head c"
proof (cases v)
  case (JBool b)
  then show ?thesis using that by (cases b) (simp_all add: value_head_def is_space_def)
next
  case (JNum i)
  show ?thesis
  proof (cases "i < 0")
    case True
    with JNum show ?thesis using that by (simp add: show_int_def value_head_def is_space_def)
  next
    case False
    obtain c s where "show_nat (nat i) = c # s" "is_digit c" by (rule show_nat_Cons)
    with False JNum show ?thesis using that digit_value_head by (simp add: show_int_def)
  qed
qed (use that in \<open>simp_all add: value_head_def is_space_def quote_string_def\<close>)

lemma stringify_not_Nil [simp]: "stringify v \<noteq> []"
  by (rule stringify_Cons [of v]) simp

lemma skip_value [simp]: "value_head c \<Longrightarrow> skip (c # s) = c # s"
  by (simp add: skip_def value_head_def)

lemma skip_stringify [simp]: "skip (stringify v @ r) = stringify v @ r"
  by (rule stringify_Cons [of v]) simp

lemma skip_delims [simp]:
  "skip [] = []" "skip (CHR 0x2C # r) = CHR 0x2C # r" "skip (CHR 0x5D # r) = CHR 0x5D # r"
  "skip (CHR 0x7D # r) = CHR 0x7D # r" "skip (CHR 0x3A # r) = CHR 0x3A # r"
  "skip (CHR 0x22 # r) = CHR 0x22 # r" "skip (CHR 0x5B # r) = CHR 0x5B # r"
  "skip (CHR 0x7B # r) = CHR 0x7B # r"
  by (simp_all add: skip_def is_space_def)

lemma delimited_not_digit: "delimited r \<Longrightarrow> r = [] \<or> \<not> is_digit (hd r)"
  by (auto simp: delimited_def is_digit_def)

lemma delimited_not_fraction:
  "delimited r \<Longrightarrow> \<not> (r \<noteq> [] \<and> hd r \<in> {CHR ''.'', CHR ''e'', CHR ''E''})"
  by (auto simp: delimited_def)

lemma p_nat_show: assumes "delimited r" shows "p_nat (show_nat n @ r) = Some (n, r)"
proof -
  obtain c s where cs: "show_nat n = c # s" by (cases "show_nat n") auto
  show ?thesis
  proof (cases "n = 0")
    case True
    then show ?thesis using delimited_not_fraction [OF assms] by (simp add: p_nat_def read_nat_def digit_val_def)
  next
    case False
    have "takeWhile is_digit (show_nat n @ r) = show_nat n \<and> dropWhile is_digit (show_nat n @ r) = r"
      using show_nat_digits [of n] delimited_not_digit [OF assms]
      by (cases r) (auto simp: takeWhile_append dropWhile_append)
    moreover have "c \<noteq> CHR 0x30" using hd_show_nat_zero [of n] False cs by simp
    ultimately show ?thesis
      using delimited_not_fraction [OF assms] cs read_show_nat [of n]
      by (auto simp: p_nat_def)
  qed
qed

lemma p_number_show: "delimited r \<Longrightarrow> p_number (show_int i @ r) = Some (JNum i, r)"
proof -
  assume r: "delimited r"
  obtain c s where cs: "show_nat (nat i) = c # s" "is_digit c" by (rule show_nat_Cons)
  then have "c \<noteq> CHR 0x2D" by (auto simp: is_digit_def)
  with cs r p_nat_show [of r "nat i"] p_nat_show [of r "nat (- i)"] show ?thesis
    by (auto simp: p_number_def show_int_def)
qed

definition parses :: "json \<Rightarrow> bool" where
  "parses v = (\<forall>n r. delimited r \<longrightarrow> length (stringify v) \<le> n \<longrightarrow>
     p_value n (stringify v @ r) = Some (deepClone v, r))"

lemma parsesD:
  "parses v \<Longrightarrow> delimited r \<Longrightarrow> length (stringify v) \<le> n \<Longrightarrow>
   p_value n (stringify v @ r) = Some (deepClone v, r)"
  by (simp add: parses_def)

lemma commas_Cons: "ts \<noteq> [] \<Longrightarrow> commas (s # ts) = s @ CHR 0x2C # commas ts"
  by (cases ts) auto

lemma p_elems_stringify:
  assumes "vs \<noteq> []" "\<forall>v\<in>set vs. parses v" "length (commas (map stringify vs)) < n"
  shows "p_elems n (commas (map stringify vs) @ CHR 0x5D # r) = Some (map deepClone vs, r)"
  using assms
proof (induction vs arbitrary: n)
  case (Cons v vs)
  then obtain m where n: "n = Suc m" by (cases n) auto
  show ?case
  proof (cases "vs = []")
    case True
    with Cons.prems n parsesD [of v "CHR 0x5D # r" m] show ?thesis by simp
  next
    case False
    with Cons.prems n Cons.IH [of m] parsesD [of v "CHR 0x2C # commas (map stringify vs) @ CHR 0x5D # r" m]
    show ?thesis by (simp add: commas_Cons)
  qed
qed simp

definition member_text :: "string \<times> json \<Rightarrow> string" where
  "member_text m = quote_string (fst m) @ CHR 0x3A # stringify (snd m)"

lemma member_text_Pair:
  "member_text (k, v) = CHR 0x22 # concat (map escape_char k) @ CHR 0x22 # CHR 0x3A # stringify v"
  by (simp add: member_text_def quote_string_def)

lemma p_members_stringify:
  assumes "ms \<noteq> []" "\<forall>(k, v)\<in>set ms. parses v" "length (commas (map member_text ms)) < n"
  shows "p_members n (commas (map member_text ms) @ CHR 0x7D # r) =
    Some (map (\<lambda>(k, v). (k, deepClone v)) ms, r)"
  using assms
proof (induction ms arbitrary: n)
  case (Cons m ms)
  then obtain n' where n: "n = Suc n'" by (cases n) auto
  obtain k v where m: "m = (k, v)" by (cases m)
  show ?case
  proof (cases "ms = []")
    case True
    with Cons.prems n m parsesD [of v "CHR 0x7D # r" n'] show ?thesis
      by (simp add: member_text_Pair p_string_quoted)
  next
    case False
    with Cons.prems n m Cons.IH [of n']
      parsesD [of v "CHR 0x2C # commas (map member_text ms) @ CHR 0x7D # r" n']
    show ?thesis by (simp add: commas_Cons member_text_Pair p_string_quoted)
  qed
qed simp

lemma stringify_object: "stringify (JObj ms) = CHR 0x7B # commas (map member_text ms) @ [CHR 0x7D]"
proof -
  have "member_text = (\<lambda>(k, v). quote_string k @ CHR 0x3A # stringify v)"
    by (auto simp: member_text_def)
  then show ?thesis by simp
qed

lemma stringify_view: "stringify (JView bs) = stringify (JObj (index_object bs))"
  by (simp add: index_object_def split_def comp_def)

lemma fold_update_distinct:
  "distinct (map fst (ob @ ms)) \<Longrightarrow> fold (\<lambda>(k, v) ob. AList.update k v ob) ms ob = ob @ ms"
proof (induction ms arbitrary: ob)
  case (Cons m ms)
  obtain k v where m: "m = (k, v)" by (cases m)
  have "AList.update k v ob = ob @ [(k, v)]"
    using Cons.prems m by (intro update_fresh) auto
  with Cons.IH [of "ob @ [(k, v)]"] Cons.prems m show ?case by simp
qed simp

lemma object_of_distinct: "distinct (map fst ms) \<Longrightarrow> object_of ms = JObj ms"
  using fold_update_distinct [of "[]" ms] by (simp add: object_of_def)

lemma parses_object:
  assumes "distinct (map fst ms)" "\<forall>(k, v)\<in>set ms. parses v"
  shows "delimited r \<Longrightarrow> length (stringify (JObj ms)) \<le> n \<Longrightarrow>
    p_value n (stringify (JObj ms) @ r) = Some (JObj (map (\<lambda>(k, v). (k, deepClone v)) ms), r)"
proof -
  assume n: "length (stringify (JObj ms)) \<le> n"
  then obtain n' where n': "n = Suc n'" by (cases n) auto
  show ?thesis
  proof (cases ms)
    case (Cons m ms')
    have d: "distinct (map fst (map (\<lambda>(k, v). (k, deepClone v)) ms))"
      using assms(1) by (simp add: comp_def split_def)
    have "length (commas (map member_text ms)) < n'"
      using n unfolding n' stringify_object by simp
    then have pm: "p_members n' (commas (map member_text ms) @ CHR 0x7D # r) =
        Some (map (\<lambda>(k, v). (k, deepClone v)) ms, r)"
      using Cons assms(2) by (intro p_members_stringify) auto
    obtain t where t: "commas (map member_text ms) = CHR 0x22 # t"
      using Cons by (cases m; cases "ms' = []") (auto simp: commas_Cons member_text_Pair)
    show ?thesis
      using pm unfolding n' stringify_object t by (simp add: object_of_distinct [OF d])
  qed (simp add: n')
qed

lemma distinct_index_keys: "distinct (map fst (index_object bs))"
proof -
  have "map fst (index_object bs) = map show_nat [0..<length bs]"
    by (simp add: index_object_def split_def comp_def map_fst_zip flip: map_map [of show_nat fst, unfolded comp_def])
  then show ?thesis using show_nat_inj by (simp add: distinct_map inj_on_def)
qed

lemma p_value_int:
  assumes "delimited r" shows "p_value (Suc n) (show_int i @ r) = Some (JNum i, r)"
proof -
  obtain c s where cs: "show_int i = c # s" "c = CHR 0x2D \<or> is_digit c"
  proof (cases "i < 0")
    case False
    with that show ?thesis by (auto simp: show_int_def intro: show_nat_Cons [of "nat i"])
  qed (simp add: show_int_def)
  then have h: "value_head c" "c \<noteq> CHR 0x7B" "c \<noteq> CHR 0x5B" "c \<noteq> CHR 0x22" "c \<noteq> CHR ''t''"
    "c \<noteq> CHR ''f''" "c \<noteq> CHR ''n''"
    using digit_value_head [of c] by (auto simp: is_digit_def value_head_def is_space_def)
  show ?thesis using p_number_show [OF assms, of i] h by (simp add: cs(1))
qed

lemma parses_int [simp]: "parses (JNum i)"
proof -
  have "\<exists>m. n = Suc m" if "length (show_int i) \<le> n" for n
    using that by (cases n) (auto simp: show_int_def split: if_splits)
  then show ?thesis unfolding parses_def using p_value_int by fastforce
qed

lemma stringify_parses: "keys_distinct v \<Longrightarrow> parses v"
proof (induction v)
  case (JBool b)
  show ?case unfolding parses_def
    by (auto simp: p_literal_def skip_def is_space_def Suc_le_eq dest!: less_imp_Suc_add)
next
  case JNull
  show ?case unfolding parses_def
    by (auto simp: p_literal_def skip_def is_space_def Suc_le_eq dest!: less_imp_Suc_add)
next
  case (JStr s)
  show ?case unfolding parses_def
    by (auto simp: quote_string_def p_string_quoted Suc_le_eq dest!: less_imp_Suc_add)
next
  case (JArr vs)
  then have ok: "\<forall>v\<in>set vs. parses v" by (simp add: list_all_iff)
  show ?case unfolding parses_def
  proof (intro allI impI)
    fix n r assume "delimited r" and n: "length (stringify (JArr vs)) \<le> n"
    then obtain n' where n': "n = Suc n'" by (cases n) auto
    show "p_value n (stringify (JArr vs) @ r) = Some (deepClone (JArr vs), r)"
    proof (cases vs)
      case (Cons v vs')
      obtain c s where cs: "stringify v = c # s" "value_head c" by (rule stringify_Cons)
      then have "c \<noteq> CHR 0x5D" by (simp add: value_head_def)
      moreover obtain t where t: "commas (map stringify vs) = c # t"
        using Cons cs by (cases "vs' = []") (auto simp: commas_Cons)
      moreover have "p_elems n' (commas (map stringify vs) @ CHR 0x5D # r) = Some (map deepClone vs, r)"
        using n n' ok Cons by (intro p_elems_stringify) auto
      ultimately show ?thesis using cs(2) by (simp add: n')
    qed (simp add: n')
  qed
next
  case (JObj ms)
  then have "distinct (map fst ms)" "\<forall>(k, v)\<in>set ms. parses v"
    by (auto simp: list_all_iff snds.simps)
  from parses_object [OF this] show ?case by (simp add: parses_def del: stringify.simps)
next
  case (JBuf bs)
  show ?case using parses_object [of "[]"] by (simp add: parses_def)
next
  case (JView bs)
  have "map (\<lambda>(k, v). (k, deepClone v)) (index_object bs) = index_object bs"
    by (simp add: index_object_def split_def)
  moreover have "\<forall>(k, v)\<in>set (index_object bs). parses v" by (auto simp: index_object_def)
  ultimately show ?case
    using parses_object [OF distinct_index_keys, of bs]
    by (simp add: parses_def stringify_view del: stringify.simps)
qed simp

lemma parse_stringify:
  assumes "keys_distinct v" shows "json_parse (stringify v) = Some (deepClone v)"
  using parsesD [OF stringify_parses [OF assms], of "[]" "2 * length (stringify v) + 2"]
  by (simp add: json_parse_def)

section \<open>The depth bound is enough\<close>

lemma skip_length: "length (skip s) \<le> length s"
  by (simp add: skip_def length_dropWhile_le)

lemma skip_Cons_length: "skip s = c # r \<Longrightarrow> length r < length s"
  using skip_length [of s] by simp

lemma prepend_Some: "prepend u x = Some (t, r) \<longleftrightarrow> (\<exists>t'. x = Some (t', r) \<and> t = u @ t')"
  by (auto simp: prepend_def)

lemma p_string_cases:
  assumes "p_string (c # s) = Some (t, r)"
  shows "r = s \<or> (\<exists>s' t'. length s' \<le> length s \<and> p_string s' = Some (t', r))"
  using assms
  by (auto simp: prepend_Some split: if_splits list.splits option.splits)
    (metis le_SucI length_drop diff_le_self le_trans length_Cons nat_le_linear)+

lemma p_string_length: "p_string s = Some (t, r) \<Longrightarrow> length r < length s"
proof (induction "length s" arbitrary: s t rule: less_induct)
  case less
  then obtain c s' where s: "s = c # s'" by (cases s) auto
  from less.prems [unfolded s] consider "r = s'"
    | u t' where "length u \<le> length s'" "p_string u = Some (t', r)"
    using p_string_cases by blast
  then show ?case
  proof cases
    case 2
    with less.hyps [of u t'] show ?thesis by (simp add: s)
  qed (simp add: s)
qed

lemma p_nat_length: "p_nat s = Some (n, r) \<Longrightarrow> length r < length s"
  by (auto simp: p_nat_def Let_def takeWhile_eq_Nil_iff length_dropWhile_le less_Suc_eq_le
      split: list.splits if_splits)

lemma p_number_length: "p_number s = Some (v, r) \<Longrightarrow> length r < length s"
  by (auto simp: p_number_def split: list.splits if_splits dest!: p_nat_length)

lemma p_literal_length: "p_literal w v s = Some (x, r) \<Longrightarrow> w \<noteq> [] \<Longrightarrow> length r < length s"
  by (auto simp: p_literal_def split: if_splits) (metis diff_less length_0_conv length_greater_0_conv take_eq_Nil)

lemmas parse_lengths = skip_Cons_length p_string_length p_number_length p_literal_length

lemma p_length:
  "p_value n s = Some (v, r) \<Longrightarrow> length r < length s"
  "p_elems n s = Some (vs, r) \<Longrightarrow> length r < length s"
  "p_members n s = Some (ms, r) \<Longrightarrow> length r < length s"
proof (induction n s and n s and n s arbitrary: v r and vs r and ms r
    rule: p_value_p_elems_p_members.induct)
  case (2 n s)
  then show ?case
    by (auto split: list.splits if_splits dest!: parse_lengths) fastforce+
next
  case (4 n s)
  then show ?case
    by (auto split: list.splits if_splits option.splits dest!: skip_Cons_length) fastforce+
next
  case (6 n s)
  then show ?case
    by (auto split: list.splits if_splits option.splits dest!: skip_Cons_length p_string_length)
      fastforce+
qed simp_all

lemma fuel_step:
  "(\<forall>s. 2 * length s < n \<longrightarrow> p_value (Suc n) s = p_value n s) \<and>
   (\<forall>s. 2 * length s + 1 < n \<longrightarrow> p_elems (Suc n) s = p_elems n s) \<and>
   (\<forall>s. 2 * length s < n \<longrightarrow> p_members (Suc n) s = p_members n s)"
proof (induction n)
  case (Suc n)
  have v: "p_value (Suc n) s = p_value n s" if "2 * length s < n" for s using Suc.IH that by blast
  have e: "p_elems (Suc n) s = p_elems n s" if "2 * length s + 1 < n" for s using Suc.IH that by blast
  have m: "p_members (Suc n) s = p_members n s" if "2 * length s < n" for s using Suc.IH that by blast
  have "p_value (Suc (Suc n)) s = p_value (Suc n) s" if L: "2 * length s < Suc n" for s
  proof -
    have "length (d # r') < length s" if "skip s = c # r" "skip r = d # r'" for c r d r'
      using skip_Cons_length [OF that(1)] skip_length [of r] that(2) by simp
    then have "p_elems (Suc n) (d # r') = p_elems n (d # r')" "p_members (Suc n) (d # r') = p_members n (d # r')"
      if "skip s = c # r" "skip r = d # r'" for c r d r'
      using that L e [of "d # r'"] m [of "d # r'"] by fastforce+
    then show ?thesis
      unfolding p_value.simps(2) [of "Suc n" s] p_value.simps(2) [of n s]
      by (auto split: list.split simp del: p_elems.simps p_members.simps)
  qed
  moreover have "p_elems (Suc (Suc n)) s = p_elems (Suc n) s" if L: "2 * length s + 1 < Suc n" for s
  proof -
    have "p_elems (Suc n) r' = p_elems n r'" if "p_value n s = Some (x, r)" "skip r = d # r'" for x r d r'
      using p_length(1) [OF that(1)] skip_Cons_length [OF that(2)] L by (intro e) linarith
    then show ?thesis
      unfolding p_elems.simps(2) [of "Suc n" s] p_elems.simps(2) [of n s]
      using L by (auto simp: v split: list.split option.split simp del: p_elems.simps p_value.simps)
  qed
  moreover have "p_members (Suc (Suc n)) s = p_members (Suc n) s" if L: "2 * length s < Suc n" for s
  proof -
    have vv: "p_value (Suc n) r2 = p_value n r2"
      if "skip s = q # r" "p_string r = Some (k, r1)" "skip r1 = c # r2" for q r k r1 c r2
      using skip_Cons_length [OF that(1)] p_string_length [OF that(2)] skip_Cons_length [OF that(3)] L
      by (intro v) linarith
    have mm: "p_members (Suc n) r' = p_members n r'"
      if "skip s = q # r" "p_string r = Some (k, r1)" "skip r1 = c # r2"
        "p_value n r2 = Some (x, r3)" "skip r3 = d # r'" for q r k r1 c r2 x r3 d r'
      using skip_Cons_length [OF that(1)] p_string_length [OF that(2)] skip_Cons_length [OF that(3)]
        p_length(1) [OF that(4)] skip_Cons_length [OF that(5)] L
      by (intro m) linarith
    show ?thesis
      unfolding p_members.simps(2) [of "Suc n" s] p_members.simps(2) [of n s]
      using vv mm
      by (auto split: list.split option.split simp del: p_members.simps p_value.simps)
  qed
  ultimately show ?case by blast
qed simp

lemma parse_fuel_enough: "2 * length s < n \<Longrightarrow> p_value (n + d) s = p_value n s"
proof (induction d)
  case (Suc d)
  then show ?case using fuel_step [of "n + d"] by auto
qed simp

end
