(* ===== verification/Frame.thy ===== *)
theory Frame
  imports Json_Text
begin

text \<open>
  The wire-frame codec of \<^verbatim>\<open>ts/src/transport/frame.ts\<close>. An envelope without bytes travels as
  JSON text; an envelope with bytes as \<^verbatim>\<open>[4-byte big-endian head length | JSON head | raw body]\<close>,
  where the head has its first bytes value nulled and \<^verbatim>\<open>_binary_path\<close> names the dotted place.

  \<open>Throws\<close> is a thrown exception. \<open>Escapes\<close> is a dotted path that leaves the modelled heap
  through a member of a built-in object (\<^verbatim>\<open>toString\<close>, a member of a primitive or of a typed
  array). \<^verbatim>\<open>Number(part)\<close> is modelled on strings of decimal digits; every other numeral counts
  as \<^verbatim>\<open>NaN\<close>. Strings are UTF-8 already, so \<^verbatim>\<open>TextEncoder\<close> and \<^verbatim>\<open>TextDecoder\<close> are the identity
  (malformed input is not replaced).
\<close>

section \<open>Outcomes\<close>

datatype 'a outcome = Ok 'a | Throws | Escapes

fun and_then :: "'a outcome \<Rightarrow> ('a \<Rightarrow> 'b outcome) \<Rightarrow> 'b outcome" where
  "and_then (Ok x) f = f x"
| "and_then Throws f = Throws"
| "and_then Escapes f = Escapes"

lemma and_then_Ok_iff: "and_then x f = Ok y \<longleftrightarrow> (\<exists>z. x = Ok z \<and> f z = Ok y)"
  by (cases x) auto

section \<open>Paths\<close>

datatype wire_frame = TextFrame string | BinFrame "8 word list"

definition isBinary :: "json \<Rightarrow> bool" where
  "isBinary v = (case v of JBuf _ \<Rightarrow> True | JView _ \<Rightarrow> True | _ \<Rightarrow> False)"

definition join_path :: "string \<Rightarrow> string \<Rightarrow> string" where
  "join_path prefix k = (if prefix \<noteq> [] then prefix @ ''.'' @ k else k)"

fun findBinaryPath :: "json \<Rightarrow> string \<Rightarrow> string option"
and find_in_array :: "nat \<Rightarrow> json list \<Rightarrow> string \<Rightarrow> string option"
and find_in_object :: "payload \<Rightarrow> string \<Rightarrow> string option"
where
  "findBinaryPath (JArr vs) prefix = find_in_array 0 vs prefix"
| "findBinaryPath (JObj ms) prefix = find_in_object ms prefix"
| "findBinaryPath v prefix = (if isBinary v then Some prefix else None)"
| "find_in_array i [] prefix = None"
| "find_in_array i (v # vs) prefix =
     (case findBinaryPath v (join_path prefix (show_nat i)) of
        Some r \<Rightarrow> Some r | None \<Rightarrow> find_in_array (Suc i) vs prefix)"
| "find_in_object [] prefix = None"
| "find_in_object ((k, v) # ms) prefix =
     (case findBinaryPath v (join_path prefix k) of
        Some r \<Rightarrow> Some r | None \<Rightarrow> find_in_object ms prefix)"

text \<open>\<^verbatim>\<open>path.split(".")\<close>\<close>

fun split_dot :: "string \<Rightarrow> string list" where
  "split_dot [] = [[]]"
| "split_dot (c # s) =
     (if c = CHR ''.'' then [] # split_dot s
      else case split_dot s of p # ps \<Rightarrow> (c # p) # ps | [] \<Rightarrow> [[c]])"

definition js_index :: "string \<Rightarrow> nat option" where
  "js_index part = (if list_all is_digit part then Some (read_nat part) else None)"

text \<open>\<^verbatim>\<open>cur[part]\<close>; \<^const>\<open>None\<close> is \<^verbatim>\<open>undefined\<close>.\<close>

definition get_member :: "json \<Rightarrow> string \<Rightarrow> json option outcome" where
  "get_member cur part =
     (case cur of
        JArr vs \<Rightarrow>
          (case js_index part of
             Some i \<Rightarrow> Ok (if i < length vs then Some (vs ! i) else None)
           | None \<Rightarrow> Ok None)
      | JObj ms \<Rightarrow>
          (case map_of ms part of
             Some v \<Rightarrow> Ok (Some v)
           | None \<Rightarrow> if part \<in> set prototype_keys then Escapes else Ok None)
      | JNull \<Rightarrow> Throws
      | _ \<Rightarrow> Escapes)"

fun get_parts :: "json option \<Rightarrow> string list \<Rightarrow> json option outcome" where
  "get_parts cur [] = Ok cur"
| "get_parts None (p # ps) = Throws"
| "get_parts (Some cur) (p # ps) = and_then (get_member cur p) (\<lambda>m. get_parts m ps)"

definition getPath :: "json \<Rightarrow> string \<Rightarrow> json option outcome" where
  "getPath obj path = get_parts (Some obj) (split_dot path)"

definition isUnsafeKey :: "string \<Rightarrow> bool" where
  "isUnsafeKey k = (k = ''__proto__'' \<or> k = ''constructor'' \<or> k = ''prototype'')"

text \<open>\<^verbatim>\<open>cur[last] = value\<close>\<close>

definition set_member :: "json \<Rightarrow> string \<Rightarrow> json \<Rightarrow> json outcome" where
  "set_member cur part v =
     (case cur of
        JArr vs \<Rightarrow>
          (case js_index part of
             Some i \<Rightarrow> Ok (JArr (if i < length vs then vs[i := v]
                                else vs @ replicate (i - length vs) JNull @ [v]))
           | None \<Rightarrow> Ok (JArr vs))
      | JObj ms \<Rightarrow> Ok (JObj (AList.update part v ms))
      | JBuf _ \<Rightarrow> Escapes
      | JView _ \<Rightarrow> Escapes
      | _ \<Rightarrow> Throws)"

fun set_parts :: "json \<Rightarrow> string list \<Rightarrow> json \<Rightarrow> json outcome" where
  "set_parts cur [] v = Ok cur"
| "set_parts cur [p] v = set_member cur p v"
| "set_parts cur (p # q # ps) v =
     and_then (get_member cur p) (\<lambda>m.
       case m of
         None \<Rightarrow> Throws
       | Some sub \<Rightarrow> and_then (set_parts sub (q # ps) v) (\<lambda>sub'. set_member cur p sub'))"

definition setPath :: "json \<Rightarrow> string \<Rightarrow> json \<Rightarrow> json outcome" where
  "setPath obj path v =
     (let parts = split_dot path
      in if list_ex isUnsafeKey parts then Ok obj else set_parts obj parts v)"

section \<open>Frames\<close>

definition asArrayBuffer :: "json option \<Rightarrow> 8 word list outcome" where
  "asArrayBuffer v = (case v of Some (JBuf bs) \<Rightarrow> Ok bs | Some (JView bs) \<Rightarrow> Ok bs | _ \<Rightarrow> Throws)"

definition text_bytes :: "string \<Rightarrow> 8 word list" where
  "text_bytes s = map (\<lambda>c. word_of_nat (of_char c)) s"

definition bytes_text :: "8 word list \<Rightarrow> string" where
  "bytes_text bs = map (\<lambda>b. char_of (unat b)) bs"

definition setUint32 :: "nat \<Rightarrow> 8 word list" where
  "setUint32 n = map (\<lambda>d. word_of_nat (n div 2 ^ d)) [24, 16, 8, 0]"

definition getUint32 :: "8 word list \<Rightarrow> nat" where
  "getUint32 bs = foldl (\<lambda>acc b. acc * 256 + unat b) 0 (take 4 bs)"

definition encodeFrame :: "payload \<Rightarrow> wire_frame outcome" where
  "encodeFrame envelope =
     (case findBinaryPath (JObj envelope) [] of
        None \<Rightarrow> Ok (TextFrame (stringify (JObj envelope)))
      | Some path \<Rightarrow>
          and_then (getPath (JObj envelope) path) (\<lambda>m.
          and_then (asArrayBuffer m) (\<lambda>body.
          and_then (setPath (deepClone (JObj envelope)) path JNull) (\<lambda>nulled.
          and_then (set_member nulled ''_binary_path'' (JStr path)) (\<lambda>head.
            let headBytes = text_bytes (stringify head)
            in Ok (BinFrame (setUint32 (length headBytes) @ headBytes @ body)))))))"

definition decode_head :: "json \<Rightarrow> 8 word list \<Rightarrow> json outcome" where
  "decode_head head body =
     (case head of
        JObj ms \<Rightarrow>
          (let ms' = AList.delete ''_binary_path'' ms in
           case map_of ms ''_binary_path'' of
             Some (JStr path) \<Rightarrow> setPath (JObj ms') path (JView body)
           | _ \<Rightarrow> Ok (JObj ms'))
      | JNull \<Rightarrow> Throws
      | v \<Rightarrow> Ok v)"

definition decodeFrame :: "wire_frame \<Rightarrow> json outcome" where
  "decodeFrame data =
     (case data of
        TextFrame s \<Rightarrow> (case json_parse s of Some v \<Rightarrow> Ok v | None \<Rightarrow> Throws)
      | BinFrame bs \<Rightarrow>
          if length bs < 4 then Throws
          else (let headLen = getUint32 bs in
            if length bs < 4 + headLen then Throws
            else case json_parse (bytes_text (take headLen (drop 4 bs))) of
                None \<Rightarrow> Throws
              | Some head \<Rightarrow> decode_head head (drop (4 + headLen) bs)))"

section \<open>What a frame transports\<close>

text \<open>
  The reference: \<open>bin_at\<close> is the place of the first bytes value as a list of keys, \<open>first_bytes\<close>
  its content, and \<open>fill x v\<close> is \<open>v\<close> with that value replaced by \<open>x\<close> and every later bytes value
  turned into a plain object.
\<close>

fun bin_at :: "json \<Rightarrow> string list option"
and bin_at_array :: "nat \<Rightarrow> json list \<Rightarrow> string list option"
and bin_at_object :: "payload \<Rightarrow> string list option"
where
  "bin_at (JArr vs) = bin_at_array 0 vs"
| "bin_at (JObj ms) = bin_at_object ms"
| "bin_at v = (if isBinary v then Some [] else None)"
| "bin_at_array i [] = None"
| "bin_at_array i (v # vs) =
     (case bin_at v of Some ps \<Rightarrow> Some (show_nat i # ps) | None \<Rightarrow> bin_at_array (Suc i) vs)"
| "bin_at_object [] = None"
| "bin_at_object ((k, v) # ms) =
     (case bin_at v of Some ps \<Rightarrow> Some (k # ps) | None \<Rightarrow> bin_at_object ms)"

fun first_bytes :: "json \<Rightarrow> 8 word list"
and first_bytes_array :: "json list \<Rightarrow> 8 word list"
and first_bytes_object :: "payload \<Rightarrow> 8 word list"
where
  "first_bytes (JBuf bs) = bs"
| "first_bytes (JView bs) = bs"
| "first_bytes (JArr vs) = first_bytes_array vs"
| "first_bytes (JObj ms) = first_bytes_object ms"
| "first_bytes v = []"
| "first_bytes_array [] = []"
| "first_bytes_array (v # vs) = (if bin_at v \<noteq> None then first_bytes v else first_bytes_array vs)"
| "first_bytes_object [] = []"
| "first_bytes_object ((k, v) # ms) =
     (if bin_at v \<noteq> None then first_bytes v else first_bytes_object ms)"

fun fill :: "json \<Rightarrow> json \<Rightarrow> json"
and fill_array :: "json \<Rightarrow> json list \<Rightarrow> json list"
and fill_object :: "json \<Rightarrow> payload \<Rightarrow> payload"
where
  "fill x (JArr vs) = JArr (fill_array x vs)"
| "fill x (JObj ms) = JObj (fill_object x ms)"
| "fill x v = (if isBinary v then x else v)"
| "fill_array x [] = []"
| "fill_array x (v # vs) =
     (if bin_at v \<noteq> None then fill x v # map deepClone vs else deepClone v # fill_array x vs)"
| "fill_object x [] = []"
| "fill_object x ((k, v) # ms) =
     (if bin_at v \<noteq> None then (k, fill x v) # map (\<lambda>(k, v). (k, deepClone v)) ms
      else (k, deepClone v) # fill_object x ms)"

text \<open>The value a peer decodes: the first bytes value arrives as a \<^verbatim>\<open>Uint8Array\<close>.\<close>

definition received :: "json \<Rightarrow> json" where
  "received v = (if bin_at v = None then v else fill (JView (first_bytes v)) v)"

lemma isBinary_simps [simp]:
  "isBinary (JBuf bs)" "isBinary (JView bs)" "\<not> isBinary JNull" "\<not> isBinary (JBool b)"
  "\<not> isBinary (JNum i)" "\<not> isBinary (JStr s)" "\<not> isBinary (JArr vs)" "\<not> isBinary (JObj ms)"
  by (simp_all add: isBinary_def)

lemma findBinaryPath_bin_at:
  "findBinaryPath v pre = map_option (foldl join_path pre) (bin_at v)"
  "find_in_array i vs pre = map_option (foldl join_path pre) (bin_at_array i vs)"
  "find_in_object ms pre = map_option (foldl join_path pre) (bin_at_object ms)"
  by (induction v pre and i vs pre and ms pre rule: findBinaryPath_find_in_array_find_in_object.induct)
    (simp_all split: option.split)

section \<open>Path strings\<close>

definition plain_key :: "string \<Rightarrow> bool" where
  "plain_key k = (k \<noteq> [] \<and> CHR ''.'' \<notin> set k \<and> \<not> isUnsafeKey k)"

lemma split_dot_not_Nil [simp]: "split_dot s \<noteq> []"
  by (induction s) (auto split: list.split)

lemma split_dot_append: "split_dot (s @ CHR ''.'' # k) = split_dot s @ split_dot k"
  by (induction s) (auto split: list.split)

lemma split_dot_plain: "CHR ''.'' \<notin> set k \<Longrightarrow> split_dot k = [k]"
  by (induction k) auto

lemma split_foldl_join:
  "pre \<noteq> [] \<Longrightarrow> \<forall>p\<in>set ps. plain_key p \<Longrightarrow> split_dot (foldl join_path pre ps) = split_dot pre @ ps"
  by (induction ps arbitrary: pre)
    (auto simp: join_path_def split_dot_append split_dot_plain plain_key_def)

lemma split_joined:
  assumes "ps \<noteq> []" "\<forall>p\<in>set ps. plain_key p"
  shows "split_dot (foldl join_path [] ps) = ps"
proof (cases ps)
  case (Cons p qs)
  then show ?thesis
    using assms split_foldl_join [of p qs] by (simp add: join_path_def plain_key_def split_dot_plain)
qed (use assms in simp)

lemma js_index_show [simp]: "js_index (show_nat i) = Some i"
  using show_nat_digits [of i] by (simp add: js_index_def list_all_iff)

section \<open>Reading and writing at the place of the bytes\<close>

lemma bin_at_array_D:
  "bin_at_array i vs = Some qs \<Longrightarrow>
   \<exists>j ps. j < length vs \<and> qs = show_nat (i + j) # ps \<and> bin_at (vs ! j) = Some ps \<and>
     first_bytes_array vs = first_bytes (vs ! j) \<and>
     (\<forall>x. fill_array x vs = (map deepClone vs)[j := fill x (vs ! j)])"
proof (induction vs arbitrary: i)
  case (Cons v vs)
  show ?case
  proof (cases "bin_at v")
    case None
    with Cons.prems Cons.IH [of "Suc i"] obtain j ps where j: "j < length vs" "qs = show_nat (Suc i + j) # ps"
      "bin_at (vs ! j) = Some ps" "first_bytes_array vs = first_bytes (vs ! j)"
      "\<forall>x. fill_array x vs = (map deepClone vs)[j := fill x (vs ! j)]"
      by auto
    with None show ?thesis by (intro exI [of _ "Suc j"] exI [of _ ps]) simp
  next
    case (Some ps)
    with Cons.prems show ?thesis by (intro exI [of _ 0] exI [of _ ps]) simp
  qed
qed simp

lemma bin_at_object_D:
  "bin_at_object ms = Some qs \<Longrightarrow> distinct (map fst ms) \<Longrightarrow>
   \<exists>k v ps. qs = k # ps \<and> map_of ms k = Some v \<and> bin_at v = Some ps \<and>
     first_bytes_object ms = first_bytes v \<and>
     (\<forall>x. fill_object x ms = AList.update k (fill x v) (map (\<lambda>(k, v). (k, deepClone v)) ms))"
proof (induction ms)
  case (Cons m ms)
  obtain k v where m: "m = (k, v)" by (cases m)
  show ?case
  proof (cases "bin_at v")
    case None
    with Cons m obtain k' v' ps where k': "qs = k' # ps" "map_of ms k' = Some v'" "bin_at v' = Some ps"
      "first_bytes_object ms = first_bytes v'"
      "\<forall>x. fill_object x ms = AList.update k' (fill x v') (map (\<lambda>(k, v). (k, deepClone v)) ms)"
      by auto
    moreover have "k' \<noteq> k" using Cons.prems(2) m map_of_SomeD [OF k'(2)] by (auto simp: image_iff)
    ultimately show ?thesis using None m
      by (intro exI [of _ k'] exI [of _ v'] exI [of _ ps]) simp
  next
    case (Some ps)
    with Cons.prems m show ?thesis by (intro exI [of _ k] exI [of _ v] exI [of _ ps]) simp
  qed
qed simp

lemma get_bin_at:
  "keys_distinct v \<Longrightarrow> bin_at v = Some ps \<Longrightarrow>
   \<exists>b. get_parts (Some v) ps = Ok (Some b) \<and> asArrayBuffer (Some b) = Ok (first_bytes v)"
proof (induction v arbitrary: ps)
  case (JArr vs)
  then obtain j qs where j: "j < length vs" "ps = show_nat j # qs" "bin_at (vs ! j) = Some qs"
    "first_bytes_array vs = first_bytes (vs ! j)"
    using bin_at_array_D [of 0 vs ps] by auto
  with JArr.IH [of "vs ! j" qs] JArr.prems show ?case
    by (auto simp: get_member_def list_all_iff)
next
  case (JObj ms)
  then obtain k v qs where k: "ps = k # qs" "map_of ms k = Some v" "bin_at v = Some qs"
    "first_bytes_object ms = first_bytes v"
    using bin_at_object_D [of ms ps] by auto
  then have "(k, v) \<in> set ms" by (simp add: map_of_SomeD)
  with JObj.IH [of "(k, v)" v qs] JObj.prems k show ?case
    by (auto simp: get_member_def list_all_iff snds.simps)
qed (auto simp: asArrayBuffer_def split: if_splits)

lemma set_parts_Cons:
  "ps \<noteq> [] \<Longrightarrow> get_member cur p = Ok (Some sub) \<Longrightarrow> set_parts sub ps v = Ok sub' \<Longrightarrow>
   set_parts cur (p # ps) v = set_member cur p sub'"
  by (cases ps) auto

lemma update_twice: "AList.update k y (AList.update k x m) = AList.update k y m"
  by (induction m) auto

lemma bin_at_Nil: "bin_at v = Some [] \<Longrightarrow> isBinary v"
proof (cases v)
  case (JArr vs)
  assume "bin_at v = Some []"
  with JArr show ?thesis using bin_at_array_D [of 0 vs "[]"] by auto
next
  case (JObj ms)
  have "bin_at_object ms \<noteq> Some []" by (induction ms) (auto split: option.splits)
  moreover assume "bin_at v = Some []"
  ultimately show ?thesis using JObj by simp
qed (auto split: if_splits)

lemma fill_binary: "isBinary v \<Longrightarrow> fill x v = x"
  by (cases v) simp_all

text \<open>
  Writing at the place of the bytes reaches the filled value, both from the clone (the sender's
  head) and from a value filled before (the receiver's head).
\<close>

lemma set_bin_at:
  "keys_distinct v \<Longrightarrow> bin_at v = Some ps \<Longrightarrow> ps \<noteq> [] \<Longrightarrow> w \<in> {deepClone v, fill y v} \<Longrightarrow>
   set_parts w ps x = Ok (fill x v)"
proof (induction v arbitrary: ps w)
  case (JArr vs)
  then obtain j qs where j: "j < length vs" "ps = show_nat j # qs" "bin_at (vs ! j) = Some qs"
    and f: "\<And>z. fill_array z vs = (map deepClone vs)[j := fill z (vs ! j)]"
    using bin_at_array_D [of 0 vs ps] by auto
  obtain us where w: "w = JArr us" "length us = length vs"
    "us ! j \<in> {deepClone (vs ! j), fill y (vs ! j)}"
    "\<And>z. us[j := z] = (map deepClone vs)[j := z]"
    using JArr.prems(4) j(1) f by auto
  show ?case
  proof (cases "qs = []")
    case True
    then show ?thesis using j w f bin_at_Nil [of "vs ! j"]
      by (auto simp: set_member_def fill_binary)
  next
    case False
    have "set_parts (us ! j) qs x = Ok (fill x (vs ! j))"
      using JArr.IH [of "vs ! j" qs "us ! j"] JArr.prems(1) j w(3) False by (simp add: list_all_iff)
    then show ?thesis
      using set_parts_Cons [OF False, of w "show_nat j" "us ! j" x] j w f
      by (simp add: get_member_def set_member_def)
  qed
next
  case (JObj ms)
  let ?cl = "map (\<lambda>(k, v). (k, deepClone v)) ms"
  obtain k v qs where k: "ps = k # qs" "map_of ms k = Some v" "bin_at v = Some qs"
    and f: "\<And>z. fill_object z ms = AList.update k (fill z v) ?cl"
    using JObj.prems bin_at_object_D [of ms ps] by auto
  have m: "map_of ?cl k = Some (deepClone v)" using k(2) by (simp add: map_of_map)
  obtain us u where w: "w = JObj us" "map_of us k = Some u" "u \<in> {deepClone v, fill y v}"
    "\<And>z. AList.update k z us = AList.update k z ?cl"
    using JObj.prems(4) m f by (auto simp: update_twice)
  show ?case
  proof (cases "qs = []")
    case True
    then show ?thesis using k w f bin_at_Nil [of v]
      by (auto simp: set_member_def fill_binary)
  next
    case False
    have "(k, v) \<in> set ms" using k(2) by (simp add: map_of_SomeD)
    then have "set_parts u qs x = Ok (fill x v)"
      using JObj.IH [of "(k, v)" v qs u] JObj.prems(1) k w(3) False
      by (auto simp: list_all_iff snds.simps)
    then show ?thesis
      using set_parts_Cons [OF False, of w k u x] k w f
      by (simp add: get_member_def set_member_def)
  qed
qed (auto split: if_splits)

lemma clone_clone [simp]: "deepClone (deepClone v) = deepClone v"
proof (induction v)
  case (JObj ms)
  then show ?case by (auto simp: snds.simps)
qed (auto simp: index_object_def split_def)

lemma clone_fill:
  "deepClone x = x \<Longrightarrow> deepClone (fill x v) = fill x v"
  "deepClone x = x \<Longrightarrow> map deepClone (fill_array x vs) = fill_array x vs"
  "deepClone x = x \<Longrightarrow> map (\<lambda>(k, v). (k, deepClone v)) (fill_object x ms) = fill_object x ms"
  by (induction x v and x vs and x ms rule: fill_fill_array_fill_object.induct)
    (auto simp: split_def)

lemma keys_clone: "keys_distinct v \<Longrightarrow> keys_distinct (deepClone v)"
proof (induction v)
  case (JObj ms)
  then show ?case by (auto simp: list_all_iff snds.simps split_def comp_def)
next
  case (JView bs)
  have "list_all (\<lambda>(k, v). keys_distinct v) (index_object bs)"
    by (auto simp: index_object_def list_all_iff)
  then show ?case by (simp add: distinct_index_keys)
qed (auto simp: list_all_iff)

lemma fill_object_keys: "map fst (fill_object x ms) = map fst ms"
  by (induction ms) (auto simp: comp_def split_def)

lemma keys_fill:
  "keys_distinct x \<Longrightarrow> keys_distinct v \<Longrightarrow> keys_distinct (fill x v)"
  "keys_distinct x \<Longrightarrow> list_all keys_distinct vs \<Longrightarrow> list_all keys_distinct (fill_array x vs)"
  "keys_distinct x \<Longrightarrow> list_all (\<lambda>(k, v). keys_distinct v) ms \<Longrightarrow>
   list_all (\<lambda>(k, v). keys_distinct v) (fill_object x ms)"
proof (induction x v and x vs and x ms rule: fill_fill_array_fill_object.induct)
  case (2 x ms)
  then show ?case by (simp add: fill_object_keys)
qed (auto simp: list_all_iff keys_clone)

lemma no_binary_clone: "bin_at v = None \<Longrightarrow> deepClone v = v"
proof (induction v)
  case (JArr vs)
  have "bin_at_array i vs = None \<Longrightarrow> \<forall>v\<in>set vs. bin_at v = None" for i
    by (induction vs arbitrary: i) (auto split: option.splits)
  with JArr show ?case by (auto simp: map_idI)
next
  case (JObj ms)
  have "bin_at_object ms = None \<Longrightarrow> \<forall>(k, v)\<in>set ms. bin_at v = None"
    by (induction ms) (auto split: option.splits)
  with JObj show ?case by (force simp: snds.simps intro!: map_idI)
qed (auto split: if_splits)

section \<open>Bytes\<close>

lemma bytes_text_bytes [simp]: "bytes_text (text_bytes s) = s"
proof -
  have "unat (word_of_nat (of_char c) :: 8 word) = of_char c" for c
    by (simp add: unat_of_nat of_char_mod_256 [where 'a = nat, simplified])
  then show ?thesis by (simp add: bytes_text_def text_bytes_def comp_def)
qed

lemma getUint32_setUint32:
  assumes "n < 2 ^ 32" shows "getUint32 (setUint32 n @ bs) = n"
proof -
  define q1 q2 q3 where q: "q1 = n div 256" "q2 = q1 div 256" "q3 = q2 div 256"
  have d: "n div 2 ^ 24 = q3" "n div 2 ^ 16 = q2" "n div 2 ^ 8 = q1"
    by (simp_all add: q flip: div_mult2_eq)
  have "q3 < 256" using assms by (simp add: q less_mult_imp_div_less flip: div_mult2_eq)
  then have "getUint32 (setUint32 n @ bs) = ((q3 * 256 + q2 mod 256) * 256 + q1 mod 256) * 256 + n mod 256"
    unfolding getUint32_def setUint32_def by (simp add: unat_of_nat d [simplified])
  also have "\<dots> = n" by (simp add: q div_mult_mod_eq)
  finally show ?thesis .
qed

section \<open>Round trip\<close>

text \<open>The text of the head of a binary frame, for bytes at place \<open>ps\<close>.\<close>

definition head_text :: "payload \<Rightarrow> string list \<Rightarrow> string" where
  "head_text env ps =
     stringify (JObj (fill_object JNull env @ [(''_binary_path'', JStr (foldl join_path [] ps))]))"

definition sendable :: "payload \<Rightarrow> bool" where
  "sendable env =
     (keys_distinct (JObj env) \<and>
      (case bin_at (JObj env) of
         None \<Rightarrow> True
       | Some ps \<Rightarrow> list_all plain_key ps \<and> map_of env ''_binary_path'' = None \<and>
           length (head_text env ps) < 2 ^ 32))"

lemma no_key_map: "map_of m k = None \<Longrightarrow> k \<notin> set (map fst m)"
  by (simp add: map_of_eq_None_iff)

lemma delete_last: "map_of m k = None \<Longrightarrow> AList.delete k (m @ [(k, v)]) = m"
  by (induction m) (auto split: if_splits)

lemma encode_binary:
  assumes "sendable env" "bin_at (JObj env) = Some ps"
  shows "encodeFrame env = Ok (BinFrame (setUint32 (length (head_text env ps)) @
    text_bytes (head_text env ps) @ first_bytes (JObj env)))"
proof -
  let ?path = "foldl join_path [] ps"
  have kd: "keys_distinct (JObj env)" and pk: "\<forall>p\<in>set ps. plain_key p"
    and fresh: "map_of env ''_binary_path'' = None"
    using assms by (auto simp: sendable_def list_all_iff)
  have ne: "ps \<noteq> []" using assms(2) bin_at_Nil [of "JObj env"] by auto
  have sp: "split_dot ?path = ps" using ne pk by (rule split_joined)
  have safe: "\<not> list_ex isUnsafeKey ps" using pk by (auto simp: list_ex_iff plain_key_def)
  obtain b where b: "get_parts (Some (JObj env)) ps = Ok (Some b)"
    "asArrayBuffer (Some b) = Ok (first_bytes (JObj env))"
    using get_bin_at [OF kd assms(2)] by blast
  have st: "set_parts (deepClone (JObj env)) ps JNull = Ok (fill JNull (JObj env))"
    using set_bin_at [OF kd assms(2) ne, of _ JNull JNull] by blast
  have up: "AList.update ''_binary_path'' v (fill_object JNull env) =
      fill_object JNull env @ [(''_binary_path'', v)]" for v
    using no_key_map [OF fresh] by (intro update_fresh) (metis fill_object_keys set_map)
  have len: "length (text_bytes s) = length s" for s by (simp add: text_bytes_def)
  show ?thesis
    using b st
    by (simp add: encodeFrame_def findBinaryPath_bin_at assms(2) getPath_def setPath_def sp safe
        set_member_def up head_text_def Let_def len del: bin_at.simps deepClone.simps findBinaryPath.simps)
qed

text \<open>The head survives the JSON round trip.\<close>

lemma parse_head:
  assumes "keys_distinct (JObj env)" "map_of (fill_object JNull env) ''_binary_path'' = None"
  shows "json_parse (head_text env ps) =
    Some (JObj (fill_object JNull env @ [(''_binary_path'', JStr (foldl join_path [] ps))]))"
    (is "_ = Some ?head")
proof -
  have hk: "keys_distinct ?head"
    using assms(1) keys_fill(1) [of JNull "JObj env"] no_key_map [OF assms(2)] by auto
  have hc: "deepClone ?head = ?head" using clone_fill(3) [of JNull env] by simp
  show ?thesis unfolding head_text_def by (simp only: parse_stringify [OF hk] hc)
qed

lemma decode_binary:
  assumes "sendable env" "bin_at (JObj env) = Some ps"
  shows "decodeFrame (BinFrame (setUint32 (length (head_text env ps)) @
    text_bytes (head_text env ps) @ bs)) = Ok (fill (JView bs) (JObj env))"
proof -
  let ?path = "foldl join_path [] ps"
  let ?head = "JObj (fill_object JNull env @ [(''_binary_path'', JStr ?path)])"
  have kd: "keys_distinct (JObj env)" and pk: "\<forall>p\<in>set ps. plain_key p"
    and fresh: "map_of env ''_binary_path'' = None" and len: "length (head_text env ps) < 2 ^ 32"
    using assms by (auto simp: sendable_def list_all_iff)
  have ne: "ps \<noteq> []" using assms(2) bin_at_Nil [of "JObj env"] by auto
  have sp: "split_dot ?path = ps" using ne pk by (rule split_joined)
  have safe: "\<not> list_ex isUnsafeKey ps" using pk by (auto simp: list_ex_iff plain_key_def)
  have ff: "map_of (fill_object JNull env) ''_binary_path'' = None"
    using no_key_map [OF fresh] by (metis fill_object_keys map_of_eq_None_iff set_map)
  have parse: "json_parse (head_text env ps) = Some ?head" using kd ff by (rule parse_head)
  have st: "set_parts (fill JNull (JObj env)) ps (JView bs) = Ok (fill (JView bs) (JObj env))"
    using set_bin_at [OF kd assms(2) ne, of _ JNull "JView bs"] by blast
  have l4: "length (setUint32 n) = 4" for n by (simp add: setUint32_def)
  have lt: "length (text_bytes s) = length s" for s by (simp add: text_bytes_def)
  have "decode_head ?head bs = Ok (fill (JView bs) (JObj env))"
    using st ff by (simp add: decode_head_def Let_def delete_last setPath_def sp safe map_add_def)
  then show ?thesis
    by (simp add: decodeFrame_def Let_def getUint32_setUint32 [OF len] l4 lt parse)
qed


definition sample_envelope :: payload where
  "sample_envelope = [(''type'', JStr ''call''), (''target'', JStr ''pty''),
     (''payload'', JObj [(''type'', JStr ''paste_image''), (''parts'', JArr [JNum 7, JBuf [1, 2, 3]])]),
     (''id'', JStr ''1'')]"


text \<open>
  Bytes under a rejected key do not arrive. The sender's \<^verbatim>\<open>setPath\<close> silently skips the
  nulling and the receiver's silently skips the insertion, so a blob sent under the key
  \<^verbatim>\<open>constructor\<close> decodes to an empty object, whatever its content.
\<close>

theorem frame_rejected_key_loses_bytes:
  "\<exists>f. encodeFrame [(''constructor'', JBuf bs)] = Ok f \<and>
     decodeFrame f = Ok (JObj [(''constructor'', JObj [])])"
proof -
  let ?head = "JObj [(''constructor'', JObj []), (''_binary_path'', JStr ''constructor'')]"
  let ?n = "length (stringify ?head)"
  have sp: "split_dot ''constructor'' = [''constructor'']" by (simp add: split_dot_plain)
  have l4: "length (setUint32 n) = 4" for n by (simp add: setUint32_def)
  have lt: "length (text_bytes s) = length s" for s by (simp add: text_bytes_def)
  have n: "?n < 2 ^ 32" by (simp add: quote_string_def escape_char_def Let_def)
  have enc: "encodeFrame [(''constructor'', JBuf bs)] =
      Ok (BinFrame (setUint32 ?n @ text_bytes (stringify ?head) @ bs))"
    by (simp add: encodeFrame_def join_path_def getPath_def setPath_def sp get_member_def
        asArrayBuffer_def isUnsafeKey_def set_member_def Let_def lt del: stringify.simps)
  have "json_parse (stringify ?head) = Some ?head" using parse_stringify [of ?head] by simp
  moreover have "decode_head ?head bs = Ok (JObj [(''constructor'', JObj [])])"
    by (simp add: decode_head_def Let_def setPath_def sp isUnsafeKey_def)
  ultimately have "decodeFrame (BinFrame (setUint32 ?n @ text_bytes (stringify ?head) @ bs)) =
      Ok (JObj [(''constructor'', JObj [])])"
    by (simp add: decodeFrame_def Let_def getUint32_setUint32 [OF n] l4 lt del: stringify.simps)
  with enc show ?thesis by blast
qed

text \<open>
  Bytes under a key that contains a dot are never sent: \<^verbatim>\<open>encodeFrame\<close> splits the key into two
  steps, finds nothing there and throws.
\<close>

theorem frame_dotted_key_throws:
  "encodeFrame [(''a.b'', JBuf bs)] = Throws"
  by (simp add: encodeFrame_def join_path_def getPath_def get_member_def prototype_keys_def)

end
