(* ===== verification/Conn.thy ===== *)
theory Conn
  imports Frame Steps
begin

text \<open>
  One auto-reconnecting socket: class \<^verbatim>\<open>Conn\<close> of \<^verbatim>\<open>ts/src/transport/bridge.ts\<close>.

  The browser's event loop is a step function \<open>conn_step\<close>: every callback of the socket, the
  reconnect timer, every method call of a client and every continuation of \<^verbatim>\<open>await this.ready\<close>
  is one event. What is in \<^verbatim>\<open>src/\<close> is a definition; what the platform guarantees is a guard:

  \<^item> a socket opens at most once, delivers messages only while open (or closing), closes once and
    is silent afterwards (\<open>sock\<close> tracks the state of the newest socket; an older one is dead);
  \<^item> continuations of a resolved promise run in registration order before the next callback.

  A promise is a number: \<open>ready\<close> is the current \<^verbatim>\<open>this.ready\<close>, \<open>resolveReady\<close> the promise whose
  resolver the object still holds, \<open>resolved\<close> the promises that have been resolved. A call is a
  token; it is in \<open>waiting\<close> while suspended at \<^verbatim>\<open>await this.ready\<close> and in \<open>pending\<close> once its frame
  is sent. \<open>effects\<close> records in order everything the object does to the outside.
  Where \<^verbatim>\<open>ws.send\<close> may throw, the event says whether it does.
\<close>

section \<open>State\<close>

datatype call_result = Resolved json | Rejected string

datatype effect =
    Dial string                        \<comment> \<open>\<^verbatim>\<open>make(url)\<close>\<close>
  | SendFrame wire_frame               \<comment> \<open>\<^verbatim>\<open>ws.send(data)\<close> that does not throw\<close>
  | CloseSocket                        \<comment> \<open>\<^verbatim>\<open>ws.close()\<close>\<close>
  | Settle nat call_result             \<comment> \<open>the promise of a call is settled\<close>
  | Notify nat bool                    \<comment> \<open>a lifecycle listener: connected or disconnected\<close>
  | OnEvent string json                \<comment> \<open>\<^verbatim>\<open>onEvent(src, payload)\<close>\<close>
  | OnState payload                    \<comment> \<open>the state sink\<close>

datatype socket_state = Connecting | Opened | Closing | Dead

record call =
  call_token :: nat
  call_promise :: nat
  call_payload :: payload
  call_target :: string

record conn =
  endpoint :: string
  url :: string
  maxDelay :: nat
  sock :: "socket_state option"
  connected :: bool
  closedByUs :: bool
  nextId :: nat
  delay :: nat
  reconnectTimer :: "nat option"
  lifecycle :: "nat list"
  wantsState :: bool
  onState :: bool
  pending :: "(string \<times> nat) list"
  ready :: nat
  resolveReady :: "nat option"
  resolved :: "nat list"
  waiting :: "call list"
  effects :: "effect list"

definition effect :: "effect \<Rightarrow> conn \<Rightarrow> conn" where
  "effect e c = c\<lparr>effects := effects c @ [e]\<rparr>"

section \<open>\<^verbatim>\<open>String(v)\<close>\<close>

fun js_String :: "json \<Rightarrow> string" where
  "js_String JNull = ''null''"
| "js_String (JBool b) = (if b then ''true'' else ''false'')"
| "js_String (JNum i) = show_int i"
| "js_String (JStr s) = s"
| "js_String (JArr vs) = commas (map (\<lambda>v. if v = JNull then [] else js_String v) vs)"
| "js_String (JObj ms) = ''[object Object]''"
| "js_String (JBuf bs) = ''[object ArrayBuffer]''"
| "js_String (JView bs) = commas (map (show_nat \<circ> unat) bs)"

definition js_String_opt :: "json option \<Rightarrow> string" where
  "js_String_opt v = (case v of None \<Rightarrow> ''undefined'' | Some x \<Rightarrow> js_String x)"

section \<open>Operations\<close>

text \<open>A fresh promise is the successor of every promise so far.\<close>

definition arm :: "conn \<Rightarrow> conn" where
  "arm c = c\<lparr>ready := Suc (ready c), resolveReady := Some (Suc (ready c))\<rparr>"

definition connect :: "conn \<Rightarrow> conn" where
  "connect c = (if closedByUs c then c
     else effect (Dial (url c)) (c\<lparr>sock := Some Connecting\<rparr>))"

definition new_conn :: "string \<Rightarrow> string \<Rightarrow> nat \<Rightarrow> conn" where
  "new_conn ep u md = connect (arm
     \<lparr>endpoint = ep, url = u, maxDelay = md, sock = None, connected = False, closedByUs = False,
      nextId = 1, delay = 1000, reconnectTimer = None, lifecycle = [], wantsState = False,
      onState = False, pending = [], ready = 0, resolveReady = None, resolved = [], waiting = [],
      effects = []\<rparr>)"

definition sendFrame :: "payload \<Rightarrow> bool \<Rightarrow> conn \<Rightarrow> conn \<times> bool" where
  "sendFrame env send_throws c =
     (if \<not> connected c \<or> sock c = None then (c, False)
      else case encodeFrame env of
          Ok f \<Rightarrow> if send_throws then (c, False) else (effect (SendFrame f) c, True)
        | _ \<Rightarrow> (c, False))"

definition state_frame :: "bool \<Rightarrow> payload" where
  "state_frame on = [(''type'', JStr (if on then ''state_subscribe'' else ''state_unsubscribe''))]"

definition notify :: "bool \<Rightarrow> conn \<Rightarrow> conn" where
  "notify up c = c\<lparr>effects := effects c @ map (\<lambda>l. Notify l up) (lifecycle c)\<rparr>"

definition resolve_ready :: "conn \<Rightarrow> conn" where
  "resolve_ready c =
     c\<lparr>resolveReady := None,
       resolved := resolved c @ (case resolveReady c of Some p \<Rightarrow> [p] | None \<Rightarrow> [])\<rparr>"

definition onopen :: "bool \<Rightarrow> conn \<Rightarrow> conn" where
  "onopen send_throws c =
     (let c1 = c\<lparr>sock := Some Opened, connected := True, delay := 1000\<rparr>;
          c2 = (if wantsState c1 then fst (sendFrame (state_frame True) send_throws c1) else c1)
      in notify True (resolve_ready c2))"

definition rejectAll :: "string \<Rightarrow> conn \<Rightarrow> conn" where
  "rejectAll err c = c\<lparr>pending := [],
     effects := effects c @ map (\<lambda>(_, t). Settle t (Rejected err)) (pending c)\<rparr>"

definition onclose :: "conn \<Rightarrow> conn" where
  "onclose c =
     (let c1 = notify False (rejectAll ''disconnected'' (c\<lparr>sock := Some Dead, connected := False\<rparr>))
      in if closedByUs c1 then c1
         else (arm c1)\<lparr>reconnectTimer := Some (delay c1), delay := min (delay c1 * 2) (maxDelay c1)\<rparr>)"

definition reconnect :: "conn \<Rightarrow> conn" where
  "reconnect c = connect (c\<lparr>reconnectTimer := None\<rparr>)"

definition on_reply :: "payload \<Rightarrow> conn \<Rightarrow> conn" where
  "on_reply msg c =
     (let i = js_String_opt (map_of msg ''id'') in
      case map_of (pending c) i of
        None \<Rightarrow> c
      | Some t \<Rightarrow>
          (let c1 = c\<lparr>pending := AList.delete i (pending c)\<rparr> in
           if map_of msg ''type'' = Some (JStr ''error'')
           then effect (Settle t (Rejected
                  (case nullish (map_of msg ''error'') of Some e \<Rightarrow> js_String e | None \<Rightarrow> ''error''))) c1
           else effect (Settle t (Resolved
                  (case map_of msg ''data'' of Some d \<Rightarrow> d | None \<Rightarrow> JNull))) c1))"

definition is_object :: "json \<Rightarrow> bool" where
  "is_object v = (case v of JArr _ \<Rightarrow> True | JObj _ \<Rightarrow> True | JBuf _ \<Rightarrow> True | JView _ \<Rightarrow> True | _ \<Rightarrow> False)"

text \<open>\<^const>\<open>None\<close>: the frame's path escapes the modelled heap.\<close>

definition onMessage :: "wire_frame \<Rightarrow> conn \<Rightarrow> conn option" where
  "onMessage data c =
     (case decodeFrame data of
        Escapes \<Rightarrow> None
      | Ok (JObj msg) \<Rightarrow>
          (let ty = map_of msg ''type'' in
           if ty = Some (JStr ''reply'') \<or> ty = Some (JStr ''error'') then Some (on_reply msg c)
           else if ty = Some (JStr ''event'') then
             (case map_of msg ''payload'' of
                Some p \<Rightarrow> Some (if is_object p then effect (OnEvent (endpoint c) p) c else c)
              | None \<Rightarrow> Some c)
           else if ty = Some (JStr ''state_snapshot'') \<or> ty = Some (JStr ''state_event'') then
             Some (if onState c then effect (OnState msg) c else c)
           else Some c)
      | _ \<Rightarrow> Some c)"

text \<open>\<^verbatim>\<open>call\<close> up to its \<^verbatim>\<open>await\<close>, and its continuation.\<close>

definition call_start :: "nat \<Rightarrow> payload \<Rightarrow> string \<Rightarrow> conn \<Rightarrow> conn" where
  "call_start t p target c = c\<lparr>waiting := waiting c @
     [\<lparr>call_token = t, call_promise = ready c, call_payload = p, call_target = target\<rparr>]\<rparr>"

definition call_envelope :: "payload \<Rightarrow> string \<Rightarrow> string \<Rightarrow> payload" where
  "call_envelope p target i = [(''type'', JStr ''call''), (''target'', JStr target),
     (''payload'', JObj p), (''id'', JStr i)]"

definition call_resume :: "call \<Rightarrow> bool \<Rightarrow> conn \<Rightarrow> conn" where
  "call_resume w send_throws c =
     (if \<not> connected c \<or> sock c = None
      then effect (Settle (call_token w) (Rejected ''disconnected'')) c
      else
        (let i = show_nat (nextId c); c1 = c\<lparr>nextId := Suc (nextId c)\<rparr> in
         case encodeFrame (call_envelope (call_payload w) (call_target w) i) of
           Ok f \<Rightarrow>
             if send_throws then effect (Settle (call_token w) (Rejected ''send'')) c1
             else effect (SendFrame f) (c1\<lparr>pending := AList.update i (call_token w) (pending c1)\<rparr>)
         | _ \<Rightarrow> effect (Settle (call_token w) (Rejected ''encode'')) c1))"

definition emit_frame :: "payload \<Rightarrow> string \<Rightarrow> bool \<Rightarrow> conn \<Rightarrow> conn" where
  "emit_frame p target send_throws c =
     fst (sendFrame [(''type'', JStr ''emit''), (''target'', JStr target), (''payload'', JObj p)]
       send_throws c)"

definition add_lifecycle :: "nat \<Rightarrow> conn \<Rightarrow> conn" where
  "add_lifecycle l c = c\<lparr>lifecycle := set_add l (lifecycle c)\<rparr>"

definition del_lifecycle :: "nat \<Rightarrow> conn \<Rightarrow> conn" where
  "del_lifecycle l c = c\<lparr>lifecycle := set_del l (lifecycle c)\<rparr>"

definition setStateSink :: "bool \<Rightarrow> conn \<Rightarrow> conn" where
  "setStateSink on c = c\<lparr>onState := on\<rparr>"

definition setWantsState :: "bool \<Rightarrow> bool \<Rightarrow> conn \<Rightarrow> conn" where
  "setWantsState on send_throws c =
     (if wantsState c = on then c
      else fst (sendFrame (state_frame on) send_throws (c\<lparr>wantsState := on\<rparr>)))"

definition close_conn :: "conn \<Rightarrow> conn" where
  "close_conn c =
     (let c1 = rejectAll ''closed'' (c\<lparr>closedByUs := True, reconnectTimer := None\<rparr>) in
      case sock c1 of
        None \<Rightarrow> c1
      | Some s \<Rightarrow> effect CloseSocket (c1\<lparr>sock := Some (if s = Dead then Dead else Closing)\<rparr>))"

section \<open>The event loop\<close>

datatype conn_event =
    SocketOpen bool
  | SocketMessage wire_frame
  | SocketClose
  | TimerFires
  | Continue bool
  | ClientCall nat payload string
  | ClientEmit payload string bool
  | AddLifecycle nat
  | DelLifecycle nat
  | SetSink bool
  | SetWants bool bool
  | ClientClose

definition runnable :: "conn \<Rightarrow> call list" where
  "runnable c = filter (\<lambda>w. call_promise w \<in> set (resolved c)) (waiting c)"

fun conn_step :: "conn_event \<Rightarrow> conn \<Rightarrow> conn option" where
  "conn_step (SocketOpen thr) c =
     (if sock c = Some Connecting \<and> runnable c = [] then Some (onopen thr c) else None)"
| "conn_step (SocketMessage d) c =
     (if (sock c = Some Opened \<or> sock c = Some Closing) \<and> runnable c = [] then onMessage d c else None)"
| "conn_step SocketClose c =
     (if sock c \<noteq> None \<and> sock c \<noteq> Some Dead \<and> runnable c = [] then Some (onclose c) else None)"
| "conn_step TimerFires c =
     (if reconnectTimer c \<noteq> None \<and> runnable c = [] then Some (reconnect c) else None)"
| "conn_step (Continue thr) c =
     (case runnable c of
        [] \<Rightarrow> None
      | w # _ \<Rightarrow> Some (call_resume w thr (c\<lparr>waiting := remove1 w (waiting c)\<rparr>)))"
| "conn_step (ClientCall t p target) c = Some (call_start t p target c)"
| "conn_step (ClientEmit p target thr) c = Some (emit_frame p target thr c)"
| "conn_step (AddLifecycle l) c = Some (add_lifecycle l c)"
| "conn_step (DelLifecycle l) c = Some (del_lifecycle l c)"
| "conn_step (SetSink on) c = Some (setStateSink on c)"
| "conn_step (SetWants on thr) c = Some (setWantsState on thr c)"
| "conn_step ClientClose c = Some (close_conn c)"

abbreviation conn_run :: "conn_event list \<Rightarrow> conn \<Rightarrow> conn option" where
  "conn_run \<equiv> run_events conn_step"

lemmas conn_op_defs =
  effect_def arm_def connect_def sendFrame_def notify_def resolve_ready_def onopen_def
  rejectAll_def onclose_def reconnect_def on_reply_def onMessage_def call_start_def
  call_resume_def emit_frame_def add_lifecycle_def del_lifecycle_def setStateSink_def
  setWantsState_def close_conn_def

section \<open>Invariant\<close>

text \<open>
  The shape of the connection: which combinations of socket, timer, flags and promises occur.
\<close>

definition conn_shape :: "conn \<Rightarrow> bool" where
  "conn_shape c =
     (sock c \<noteq> None \<and>
      (connected c \<longrightarrow> sock c = Some Opened \<or> sock c = Some Closing) \<and>
      (sock c = Some Opened \<longrightarrow> connected c) \<and>
      (sock c = Some Closing \<longrightarrow> closedByUs c) \<and>
      (reconnectTimer c \<noteq> None \<longleftrightarrow> \<not> closedByUs c \<and> sock c = Some Dead))"

definition promises_ok :: "conn \<Rightarrow> bool" where
  "promises_ok c =
     ((\<forall>p\<in>set (resolved c). p \<le> ready c) \<and>
      (case resolveReady c of
         Some p \<Rightarrow> p = ready c \<and> p \<notin> set (resolved c)
       | None \<Rightarrow> ready c \<in> set (resolved c)) \<and>
      (connected c \<longrightarrow> resolveReady c = None) \<and>
      (\<forall>w\<in>set (waiting c). call_promise w \<le> ready c))"

definition ids_ok :: "conn \<Rightarrow> bool" where
  "ids_ok c =
     (distinct (map fst (pending c)) \<and>
      (\<forall>i\<in>set (map fst (pending c)). \<exists>n<nextId c. i = show_nat n) \<and>
      (\<not> connected c \<longrightarrow> pending c = []))"

definition conn_inv :: "conn \<Rightarrow> bool" where
  "conn_inv c = (conn_shape c \<and> promises_ok c \<and> ids_ok c)"

lemma new_conn_inv: "conn_inv (new_conn ep u md)"
  by (simp add: conn_inv_def conn_shape_def promises_ok_def ids_ok_def new_conn_def conn_op_defs)

section \<open>The transitions of a connection\<close>

text \<open>
  The step function seen from outside: each step is one of ten kinds of transition. The
  invariants are proved by case analysis on them.
\<close>

definition quiet :: "effect list \<Rightarrow> bool" where
  "quiet es = list_all (\<lambda>e. case e of Settle _ _ \<Rightarrow> False | Dial _ \<Rightarrow> False | _ \<Rightarrow> True) es"

inductive conn_trans :: "(nat \<times> payload \<times> string) option \<Rightarrow> conn \<Rightarrow> conn \<Rightarrow> bool" where
  Quiet: "quiet es \<Longrightarrow>
    conn_trans None c (c\<lparr>lifecycle := ls, onState := s, wantsState := w, effects := effects c @ es\<rparr>)"
| Open: "sock c = Some Connecting \<Longrightarrow> runnable c = [] \<Longrightarrow> quiet es \<Longrightarrow>
    conn_trans None c (c\<lparr>sock := Some Opened, connected := True, delay := 1000, resolveReady := None,
      resolved := resolved c @ (case resolveReady c of Some p \<Rightarrow> [p] | None \<Rightarrow> []),
      effects := effects c @ es\<rparr>)"
| Reply: "map_of (pending c) i = Some t \<Longrightarrow>
    conn_trans None c (c\<lparr>pending := AList.delete i (pending c), effects := effects c @ [Settle t r]\<rparr>)"
| Lost: "sock c \<noteq> None \<Longrightarrow> sock c \<noteq> Some Dead \<Longrightarrow> runnable c = [] \<Longrightarrow> conn_trans None c (onclose c)"
| Redial: "reconnectTimer c \<noteq> None \<Longrightarrow> runnable c = [] \<Longrightarrow> \<not> closedByUs c \<Longrightarrow>
    conn_trans None c (c\<lparr>reconnectTimer := None, sock := Some Connecting, effects := effects c @ [Dial (url c)]\<rparr>)"
| Stale_Timer: "reconnectTimer c \<noteq> None \<Longrightarrow> closedByUs c \<Longrightarrow>
    conn_trans None c (c\<lparr>reconnectTimer := None\<rparr>)"
| Start: "conn_trans (Some (t, p, target)) c (call_start t p target c)"
| Sent: "w \<in> set (runnable c) \<Longrightarrow> connected c \<Longrightarrow>
    encodeFrame (call_envelope (call_payload w) (call_target w) (show_nat (nextId c))) = Ok f \<Longrightarrow>
    conn_trans None c (c\<lparr>waiting := remove1 w (waiting c), nextId := Suc (nextId c),
      pending := AList.update (show_nat (nextId c)) (call_token w) (pending c),
      effects := effects c @ [SendFrame f]\<rparr>)"
| Failed: "w \<in> set (runnable c) \<Longrightarrow> n = nextId c \<or> n = Suc (nextId c) \<Longrightarrow>
    conn_trans None c (c\<lparr>waiting := remove1 w (waiting c), nextId := n,
      effects := effects c @ [Settle (call_token w) (Rejected err)]\<rparr>)"
| Shut: "conn_trans None c (close_conn c)"

lemma quiet_simps [simp]: "quiet []" "quiet (e # f # es) = (quiet [e] \<and> quiet (f # es))"
  "quiet (es @ fs) = (quiet es \<and> quiet fs)"
  by (simp_all add: quiet_def)

lemma quiet_single [simp]:
  "quiet [SendFrame f]" "quiet [CloseSocket]" "quiet [Notify l b]" "quiet [OnEvent s p]" "quiet [OnState m]"
  "\<not> quiet [Settle t r]" "\<not> quiet [Dial u]"
  by (simp_all add: quiet_def)

lemma quiet_notes [simp]: "quiet (map (\<lambda>l. Notify l b) ls)"
  by (simp add: quiet_def list_all_iff)

lemma Quiet_effects:
  "quiet es \<Longrightarrow> conn_trans None c (c\<lparr>effects := effects c @ es\<rparr>)"
  using Quiet [of es c, where ls = "lifecycle c" and s = "onState c" and w = "wantsState c"] by simp

lemma conn_refl: "conn_trans None c c"
  using Quiet_effects [of "[]" c] by simp

lemma sendFrame_cases:
  obtains "fst (sendFrame env thr c) = c"
  | f where "encodeFrame env = Ok f" "fst (sendFrame env thr c) = effect (SendFrame f) c"
    "connected c" "\<not> thr"
proof (cases "connected c \<and> sock c \<noteq> None \<and> \<not> thr")
  case True
  then show ?thesis using that by (cases "encodeFrame env") (auto simp: sendFrame_def)
next
  case False
  then show ?thesis using that(1) by (auto simp: sendFrame_def split: outcome.splits)
qed

lemma sendFrame_keeps [simp]:
  "waiting (fst (sendFrame env thr c)) = waiting c"
  "resolved (fst (sendFrame env thr c)) = resolved c"
  "resolveReady (fst (sendFrame env thr c)) = resolveReady c"
  "lifecycle (fst (sendFrame env thr c)) = lifecycle c"
  "wantsState (fst (sendFrame env thr c)) = wantsState c"
  "connected (fst (sendFrame env thr c)) = connected c"
  "sock (fst (sendFrame env thr c)) = sock c"
  by (rule sendFrame_cases [of env thr c], simp_all add: effect_def)+

lemma sendFrame_trans: "conn_trans None c ((fst (sendFrame env thr c)))"
  by (rule sendFrame_cases [of env thr c]) (simp_all add: conn_refl effect_def Quiet_effects)

lemma setWantsState_trans: "conn_trans None c (setWantsState on thr c)"
proof (cases "wantsState c = on")
  case False
  have *: "conn_trans None c (c\<lparr>wantsState := on, effects := effects c @ es\<rparr>)" if "quiet es" for es
    using Quiet [OF that, of c, where ls = "lifecycle c" and s = "onState c" and w = on] by simp
  with *[of "[]"] False show ?thesis
    by (simp add: setWantsState_def, cases rule: sendFrame_cases
      [of "state_frame on" thr "c\<lparr>wantsState := on\<rparr>"]) (simp_all add: effect_def)
qed (simp add: setWantsState_def conn_refl)

lemma on_reply_trans: "conn_trans None c (on_reply msg c)"
  by (cases "map_of (pending c) (js_String_opt (map_of msg ''id''))")
    (simp_all add: on_reply_def Let_def effect_def conn_refl Reply)

lemma onMessage_cases:
  assumes "onMessage d c = Some c'"
  obtains "c' = c" | msg where "c' = on_reply msg c" | e where "quiet [e]" "c' = effect e c"
proof -
  from assms have "c' = c \<or> (\<exists>msg. c' = on_reply msg c) \<or>
      (\<exists>p. c' = effect (OnEvent (endpoint c) p) c) \<or> (\<exists>m. c' = effect (OnState m) c)"
    unfolding onMessage_def Let_def
    by (cases "decodeFrame d") (auto split: json.splits if_splits option.splits)
  then show ?thesis using that by (metis quiet_single(4,5))
qed

lemma onMessage_trans: assumes "onMessage d c = Some c'" shows "conn_trans None c c'"
  using assms by (cases rule: onMessage_cases) (auto simp: conn_refl on_reply_trans effect_def Quiet_effects)

lemma onopen_trans:
  assumes "sock c = Some Connecting" "runnable c = []"
  shows "conn_trans None c (onopen thr c)"
proof -
  let ?c1 = "c\<lparr>sock := Some Opened, connected := True, delay := 1000\<rparr>"
  obtain es where es: "(if wantsState ?c1 then fst (sendFrame (state_frame True) thr ?c1) else ?c1) =
      ?c1\<lparr>effects := effects c @ es\<rparr>" "quiet es"
  proof (cases rule: sendFrame_cases [of "state_frame True" thr ?c1])
    case 1
    then show ?thesis using that [of "[]"] by simp
  next
    case (2 f)
    then show ?thesis using that [of "if wantsState c then [SendFrame f] else []"] by (simp add: effect_def)
  qed
  have "onopen thr c = notify True (resolve_ready (?c1\<lparr>effects := effects c @ es\<rparr>))"
    by (simp only: onopen_def Let_def es(1))
  then show ?thesis
    using Open [OF assms, of "es @ map (\<lambda>l. Notify l True) (lifecycle c)"] es(2)
    by (simp add: notify_def resolve_ready_def)
qed

lemma resume_trans:
  assumes "w \<in> set (runnable c)"
  shows "conn_trans None c (call_resume w thr (c\<lparr>waiting := remove1 w (waiting c)\<rparr>))"
  using Failed [OF assms, of "nextId c"] Failed [OF assms, of "Suc (nextId c)"] Sent [OF assms]
  by (auto simp: call_resume_def effect_def Let_def split: outcome.split)

definition call_label :: "conn_event \<Rightarrow> (nat \<times> payload \<times> string) option" where
  "call_label e = (case e of ClientCall t p g \<Rightarrow> Some (t, p, g) | _ \<Rightarrow> None)"

lemma conn_step_trans: assumes "conn_step e c = Some c'" shows "conn_trans (call_label e) c c'"
proof (cases e)
  case (Continue thr)
  with assms obtain w ws where "runnable c = w # ws"
    "c' = call_resume w thr (c\<lparr>waiting := remove1 w (waiting c)\<rparr>)"
    by (auto split: list.splits)
  with resume_trans [of w c thr] Continue show ?thesis by (simp add: call_label_def)
next
  case (AddLifecycle l)
  with assms Quiet [of "[]" c, where ls = "set_add l (lifecycle c)" and s = "onState c" and w = "wantsState c"]
  show ?thesis by (auto simp: call_label_def add_lifecycle_def)
next
  case (DelLifecycle l)
  with assms Quiet [of "[]" c, where ls = "set_del l (lifecycle c)" and s = "onState c" and w = "wantsState c"]
  show ?thesis by (auto simp: call_label_def del_lifecycle_def)
next
  case (SetSink on)
  with assms Quiet [of "[]" c, where ls = "lifecycle c" and s = on and w = "wantsState c"]
  show ?thesis by (auto simp: call_label_def setStateSink_def)
next
  case TimerFires
  with assms Redial [of c] Stale_Timer [of c] show ?thesis
    by (auto simp: call_label_def reconnect_def connect_def effect_def split: if_splits)
qed (use assms in \<open>auto simp: call_label_def emit_frame_def intro: onopen_trans onMessage_trans Lost Start sendFrame_trans
    setWantsState_trans Shut split: if_splits\<close>)

section \<open>The invariant is kept\<close>

lemma conn_shape_trans: "conn_trans l c c' \<Longrightarrow> conn_shape c \<Longrightarrow> conn_shape c'"
  by (induction rule: conn_trans.induct)
    (auto simp: conn_shape_def onclose_def rejectAll_def notify_def arm_def call_start_def
      close_conn_def effect_def Let_def split: if_splits)

lemma promises_ok_trans: "conn_trans l c c' \<Longrightarrow> promises_ok c \<Longrightarrow> promises_ok c'"
proof (induction rule: conn_trans.induct)
  case (Open c es)
  then show ?case by (auto simp: promises_ok_def split: option.splits)
next
  case (Sent w c f)
  then show ?case by (auto simp: promises_ok_def split: option.splits dest: notin_set_remove1)
next
  case (Failed w c n err)
  then show ?case by (auto simp: promises_ok_def split: option.splits dest: notin_set_remove1)
qed (auto simp: promises_ok_def onclose_def rejectAll_def notify_def arm_def call_start_def
      close_conn_def effect_def Let_def split: option.splits)

lemma ids_ok_trans: "conn_trans l c c' \<Longrightarrow> ids_ok c \<Longrightarrow> ids_ok c'"
proof (induction rule: conn_trans.induct)
  case (Reply c i t r)
  have "x \<in> set (AList.delete i (pending c)) \<Longrightarrow> x \<in> set (pending c)" for x
    by (auto simp: AList.delete_eq)
  with Reply show ?case by (auto simp: ids_ok_def)
next
  case (Sent w c f)
  then show ?case by (auto simp: ids_ok_def dom_update less_Suc_eq)
next
  case (Failed w c n err)
  then show ?case by (fastforce simp: ids_ok_def less_Suc_eq)
qed (auto simp: ids_ok_def onclose_def rejectAll_def notify_def arm_def call_start_def
      close_conn_def effect_def Let_def split: option.splits)

lemma conn_inv_trans: "conn_trans l c c' \<Longrightarrow> conn_inv c \<Longrightarrow> conn_inv c'"
  using conn_shape_trans promises_ok_trans ids_ok_trans unfolding conn_inv_def by blast

lemma endpoint_trans: "conn_trans l c c' \<Longrightarrow> endpoint c' = endpoint c"
  by (induction rule: conn_trans.induct)
    (auto simp: onclose_def rejectAll_def notify_def arm_def call_start_def close_conn_def effect_def
      Let_def split: option.split)

interpretation conn_steps: step_invariant conn_step "\<lambda>_. True" conn_inv
proof
  fix c e c' assume "conn_inv c" "conn_step e c = Some c'"
  then show "conn_inv c'"
    using conn_step_trans conn_inv_trans by blast
qed

lemma list_all_True [simp]: "list_all (\<lambda>_. True) xs"
  by (simp add: list_all_iff)

lemma conn_run_inv: "conn_run es c = Some c' \<Longrightarrow> conn_inv c \<Longrightarrow> conn_inv c'"
  using conn_steps.run_inv [of es c c'] by simp

section \<open>Accounting for calls\<close>

definition settled :: "effect list \<Rightarrow> nat list" where
  "settled es = concat (map (\<lambda>e. case e of Settle t _ \<Rightarrow> [t] | _ \<Rightarrow> []) es)"

definition issued_call :: "conn_event \<Rightarrow> nat multiset" where
  "issued_call e = (case e of ClientCall t _ _ \<Rightarrow> {#t#} | _ \<Rightarrow> {#})"

definition call_ledger :: "conn \<Rightarrow> nat multiset" where
  "call_ledger c = mset (map call_token (waiting c)) + mset (map snd (pending c)) +
     mset (settled (effects c))"

lemma settled_append [simp]: "settled (es @ fs) = settled es @ settled fs"
  by (simp add: settled_def)

lemma settled_simps [simp]:
  "settled [] = []" "settled [Settle t r] = [t]" "settled [Dial u] = []" "settled [SendFrame f] = []"
  "settled [CloseSocket] = []" "settled (map (\<lambda>l. Notify l b) ls) = []"
  by (auto simp: settled_def)

lemma settled_rejects [simp]: "settled (map (\<lambda>(_, t). Settle t r) ps) = map snd ps"
  by (induction ps) (auto simp: settled_def)

lemma settled_quiet [simp]: "quiet es \<Longrightarrow> settled es = []"
  by (induction es) (auto simp: settled_def quiet_def split: effect.splits)

lemma mset_delete:
  "distinct (map fst m) \<Longrightarrow> map_of m i = Some t \<Longrightarrow>
   mset (map snd m) = add_mset t (mset (map snd (AList.delete i m)))"
  using mset_map_delete [of m i t id] by simp

lemma mset_map_remove1:
  "w \<in> set ws \<Longrightarrow> mset (map f ws) = add_mset (f w) (mset (map f (remove1 w ws)))"
  by (induction ws) auto

lemma call_ledger_trans:
  assumes "conn_trans l c c'" "conn_inv c"
  shows "call_ledger c' = call_ledger c + (case l of Some (t, _) \<Rightarrow> {#t#} | None \<Rightarrow> {#})"
  using assms
proof (induction rule: conn_trans.induct)
  case (Reply c i t r)
  then show ?case using mset_delete [of "pending c" i t]
    by (simp add: call_ledger_def conn_inv_def ids_ok_def)
next
  case (Lost c)
  then show ?case
    by (simp add: call_ledger_def onclose_def rejectAll_def notify_def arm_def Let_def ac_simps)
next
  case (Sent w c f)
  have "show_nat (nextId c) \<notin> fst ` set (pending c)"
    using Sent.prems(1) show_nat_inj by (force simp: conn_inv_def ids_ok_def)
  moreover have "w \<in> set (waiting c)" using Sent.hyps(1) by (simp add: runnable_def)
  then have "mset (map call_token (waiting c)) =
      add_mset (call_token w) (mset (map call_token (remove1 w (waiting c))))"
    by (rule mset_map_remove1)
  ultimately show ?case by (simp add: call_ledger_def update_fresh)
next
  case (Failed w c n err)
  have "w \<in> set (waiting c)" using Failed.hyps(1) by (simp add: runnable_def)
  then have "mset (map call_token (waiting c)) =
      add_mset (call_token w) (mset (map call_token (remove1 w (waiting c))))"
    by (rule mset_map_remove1)
  then show ?case by (simp add: call_ledger_def)
next
  case (Start c t p target)
  show ?case by (simp add: call_ledger_def call_start_def)
next
  case (Shut c)
  then show ?case
    by (auto simp: call_ledger_def close_conn_def rejectAll_def effect_def Let_def ac_simps
        split: option.split)
qed (simp_all add: call_ledger_def)

interpretation conn_calls: step_ledger conn_step "\<lambda>_. True" conn_inv issued_call call_ledger
proof
  fix c e c' assume "conn_inv c" "conn_step e c = Some c'"
  with call_ledger_trans [OF conn_step_trans] show "call_ledger c' = call_ledger c + issued_call e"
    by (auto simp: issued_call_def call_label_def split: conn_event.splits)
qed

end
