(* ===== verification/Conn_Props.thy ===== *)
theory Conn_Props
  imports Conn
begin

text \<open>
  What a connection guarantees to its clients: every call is accounted for, replies reach the call
  they answer, a lost socket is redialled with a bounded exponential delay, the host's state stream
  follows the wish of the clients - and the one promise it does not keep, a call made before a
  failed dial.
\<close>

section \<open>Accounting\<close>

text \<open>
  C15: no call is lost or settled twice. After any sequence of events, the calls made so far are,
  as a multiset, the calls still waiting for the socket, the calls whose frame is sent and
  unanswered, and the calls that have been settled; so each call is in exactly one of the three
  and is settled at most once.
\<close>

theorem conn_calls_accounted:
  assumes "conn_run es (new_conn ep u md) = Some c"
  shows "sum_list (map issued_call es) =
    mset (map call_token (waiting c)) + mset (map snd (pending c)) + mset (settled (effects c))"
proof -
  have "call_ledger c = call_ledger (new_conn ep u md) + sum_list (map issued_call es)"
    using assms new_conn_inv by (rule conn_calls.run_ledger) simp
  then show ?thesis
    by (simp add: call_ledger_def new_conn_def connect_def arm_def effect_def)
qed

definition ping :: payload where
  "ping = [(''type'', JStr ''ping'')]"

text \<open>A session: a call, the socket opens, the call is sent, the reply arrives.\<close>

definition sample_session :: "conn_event list" where
  "sample_session = [ClientCall 7 ping ''pty'', SocketOpen False, Continue False,
     SocketMessage (TextFrame (stringify (JObj [(''type'', JStr ''reply''), (''id'', JStr ''1''), (''data'', JNum 3)])))]"

lemma sample_reply:
  "decodeFrame (TextFrame (stringify (JObj [(''type'', JStr ''reply''), (''id'', JStr ''1''), (''data'', JNum 3)]))) =
   Ok (JObj [(''type'', JStr ''reply''), (''id'', JStr ''1''), (''data'', JNum 3)])"
  using parse_stringify [of "JObj [(''type'', JStr ''reply''), (''id'', JStr ''1''), (''data'', JNum 3)]"]
  by (simp add: decodeFrame_def)

lemma show_nat_1 [simp]: "show_nat (Suc 0) = ''1''"
  by (simp add: show_nat.simps digit_def char_of_eq_iff)

lemma encode_ping:
  "\<exists>f. encodeFrame (call_envelope ping g i) = Ok f"
  by (simp add: encodeFrame_def call_envelope_def ping_def)

lemma sample_session_runs:
  "\<exists>c. conn_run sample_session (new_conn ''kernel'' ''ws://host/kernel/ws'' 16000) = Some c \<and>
     waiting c = [] \<and> pending c = [] \<and> settled (effects c) = [7]"
proof -
  obtain f where f: "encodeFrame (call_envelope ping ''pty'' ''1'') = Ok f" using encode_ping by blast
  show ?thesis
    by (simp add: sample_session_def new_conn_def connect_def arm_def effect_def call_start_def runnable_def
        onopen_def notify_def resolve_ready_def call_resume_def f onMessage_def sample_reply
        on_reply_def js_String_opt_def Let_def settled_def del: stringify.simps)
qed

theorem conn_calls_accounted_witness:
  "\<exists>c. conn_run sample_session (new_conn ''kernel'' ''ws://host/kernel/ws'' 16000) = Some c \<and>
     {#7#} = mset (map call_token (waiting c)) + mset (map snd (pending c)) + mset (settled (effects c))"
proof -
  obtain c where c: "conn_run sample_session (new_conn ''kernel'' ''ws://host/kernel/ws'' 16000) = Some c"
    using sample_session_runs by blast
  have "sum_list (map issued_call sample_session) = {#7#}"
    by (simp add: sample_session_def issued_call_def)
  with conn_calls_accounted [OF c] c show ?thesis by metis
qed

section \<open>Replies reach their calls\<close>

text \<open>\<open>calls_ok H c\<close>: what waits and what is pending comes from the calls of \<open>H\<close>.\<close>

definition calls_ok :: "(nat \<times> payload \<times> string) set \<Rightarrow> conn \<Rightarrow> bool" where
  "calls_ok H c =
     ((\<forall>w\<in>set (waiting c). (call_token w, call_payload w, call_target w) \<in> H) \<and>
      (\<forall>(i, t)\<in>set (pending c). \<exists>p g f. (t, p, g) \<in> H \<and>
         encodeFrame (call_envelope p g i) = Ok f \<and> SendFrame f \<in> set (effects c)))"

lemma calls_ok_mono:
  "calls_ok H c \<Longrightarrow> H \<subseteq> H' \<Longrightarrow> set (waiting c') \<subseteq> set (waiting c) \<Longrightarrow>
   set (pending c') \<subseteq> set (pending c) \<Longrightarrow> set (effects c) \<subseteq> set (effects c') \<Longrightarrow> calls_ok H' c'"
  unfolding calls_ok_def
proof (intro conjI ballI, goal_cases)
  case (2 x)
  then obtain i t where x: "x = (i, t)" "(i, t) \<in> set (pending c)" by (cases x) auto
  with 2(1) obtain p g f where "(t, p, g) \<in> H" "encodeFrame (call_envelope p g i) = Ok f"
    "SendFrame f \<in> set (effects c)" by blast
  with 2 x show ?case by blast
qed blast

lemma set_update_subset: "set (AList.update k v m) \<subseteq> insert (k, v) (set m)"
  by (induction m) auto

lemma calls_ok_trans:
  "conn_trans l c c' \<Longrightarrow> calls_ok H c \<Longrightarrow> calls_ok (H \<union> set_option l) c'"
proof (induction rule: conn_trans.induct)
  case (Reply c i t r)
  have "set (AList.delete i (pending c)) \<subseteq> set (pending c)" by (auto simp: AList.delete_eq)
  with Reply show ?case by (intro calls_ok_mono [OF Reply.prems]) auto
next
  case (Start t p target c)
  then show ?case unfolding calls_ok_def call_start_def by fastforce
next
  case (Sent w c f)
  have w: "w \<in> set (waiting c)" using Sent.hyps(1) by (simp add: runnable_def)
  have "set (remove1 w (waiting c)) \<subseteq> set (waiting c)" by (rule set_remove1_subset)
  with Sent.prems w Sent.hyps(3) set_update_subset [of "show_nat (nextId c)" "call_token w" "pending c"]
  show ?case unfolding calls_ok_def by (force simp: subset_iff)
next
  case (Failed w c n err)
  show ?case using set_remove1_subset [of w "waiting c"] by (intro calls_ok_mono [OF Failed.prems]) auto
qed (rule calls_ok_mono, assumption, auto simp: onclose_def rejectAll_def notify_def arm_def
    close_conn_def effect_def Let_def split: option.splits)+

definition calls_of :: "conn_event list \<Rightarrow> (nat \<times> payload \<times> string) set" where
  "calls_of es = (\<Union>e\<in>set es. set_option (call_label e))"

lemma calls_ok_run:
  "conn_run es c = Some c' \<Longrightarrow> calls_ok H c \<Longrightarrow> calls_ok (H \<union> calls_of es) c'"
proof (induction es arbitrary: c H)
  case (Cons e es)
  then obtain c1 where "conn_step e c = Some c1" "conn_run es c1 = Some c'"
    by (auto split: option.splits)
  with Cons.IH [of c1 "H \<union> set_option (call_label e)"] calls_ok_trans [OF conn_step_trans, of e c c1 H]
    Cons.prems(2) show ?case by (simp add: calls_of_def Un_assoc)
qed (simp add: calls_of_def)

text \<open>
  C16: a reply settles the call it answers. Whenever a call is pending under an id, that id was sent
  to the host in the frame of exactly that call; a \<^verbatim>\<open>reply\<close> message with that id resolves the
  call with the message's data, takes it out of the pending calls and touches no other one.
\<close>

theorem conn_reply_correlated:
  assumes "conn_run es (new_conn ep u md) = Some c" "map_of (pending c) i = Some t"
    and "decodeFrame d = Ok (JObj msg)" "map_of msg ''type'' = Some (JStr ''reply'')"
    and "map_of msg ''id'' = Some (JStr i)"
  shows "(\<exists>p g f. ClientCall t p g \<in> set es \<and> encodeFrame (call_envelope p g i) = Ok f \<and>
      SendFrame f \<in> set (effects c)) \<and>
    onMessage d c = Some (c\<lparr>pending := AList.delete i (pending c),
      effects := effects c @ [Settle t (Resolved
        (case map_of msg ''data'' of Some v \<Rightarrow> v | None \<Rightarrow> JNull))]\<rparr>)"
proof -
  have "calls_ok {} (new_conn ep u md)"
    by (simp add: calls_ok_def new_conn_def connect_def arm_def effect_def)
  then have "calls_ok (calls_of es) c" using calls_ok_run [OF assms(1), of "{}"] by simp
  then obtain p g f where "(t, p, g) \<in> calls_of es" "encodeFrame (call_envelope p g i) = Ok f"
    "SendFrame f \<in> set (effects c)"
    using map_of_SomeD [OF assms(2)] by (auto simp: calls_ok_def)
  moreover from this(1) have "ClientCall t p g \<in> set es"
    by (auto simp: calls_of_def call_label_def) (auto split: conn_event.splits)
  ultimately show ?thesis
    using assms(2-5)
    by (auto simp: onMessage_def on_reply_def js_String_opt_def effect_def Let_def)
qed

lemma sample_session_pending:
  "\<exists>c. conn_run (take 3 sample_session) (new_conn ''kernel'' ''ws://host/kernel/ws'' 16000) = Some c \<and>
     pending c = [(''1'', 7)]"
proof -
  obtain f where f: "encodeFrame (call_envelope ping ''pty'' ''1'') = Ok f" using encode_ping by blast
  show ?thesis
    by (simp add: sample_session_def new_conn_def connect_def arm_def effect_def call_start_def runnable_def
        onopen_def notify_def resolve_ready_def call_resume_def f Let_def del: stringify.simps)
qed

theorem conn_reply_correlated_witness:
  "\<exists>c d c'. conn_run (take 3 sample_session) (new_conn ''kernel'' ''ws://host/kernel/ws'' 16000) = Some c \<and>
     onMessage d c = Some c' \<and> effects c' = effects c @ [Settle 7 (Resolved (JNum 3))] \<and>
     ClientCall 7 ping ''pty'' \<in> set sample_session"
proof -
  obtain c where c: "conn_run (take 3 sample_session) (new_conn ''kernel'' ''ws://host/kernel/ws'' 16000) = Some c"
    "pending c = [(''1'', 7)]" using sample_session_pending by blast
  show ?thesis
    using conn_reply_correlated [OF c(1), of "''1''" 7, OF _ sample_reply] c
    by (intro exI [of _ c] exI conjI) (auto simp: sample_session_def simp del: stringify.simps)
qed

section \<open>Reconnecting\<close>



text \<open>
  C18: the reconnect delay doubles from one second up to the ceiling. When the next dials of a
  connection fail \<open>Suc k\<close> times in a row, the timer armed after the last failure is one second for
  \<open>k = 0\<close> and the minimum of \<open>1000 * 2 ^ k\<close> and the ceiling otherwise.
\<close>

definition failed_dials :: "nat \<Rightarrow> conn_event list" where
  "failed_dials k = concat (replicate k [SocketClose, TimerFires])"

lemma failed_dial:
  assumes "conn_inv c" "sock c = Some Connecting" "\<not> closedByUs c" "runnable c = []"
  obtains c' where "conn_run [SocketClose, TimerFires] c = Some c'" "conn_inv c'"
    "sock c' = Some Connecting" "\<not> closedByUs c'" "runnable c' = []"
    "delay c' = min (delay c * 2) (maxDelay c)" "maxDelay c' = maxDelay c"
proof -
  let ?c1 = "onclose c" let ?c2 = "reconnect ?c1"
  have r1: "runnable ?c1 = []" "closedByUs ?c1 = False" "reconnectTimer ?c1 = Some (delay c)"
    using assms(3,4) by (auto simp: onclose_def rejectAll_def notify_def arm_def runnable_def Let_def)
  have run: "conn_run [SocketClose, TimerFires] c = Some ?c2" using assms r1 by simp
  have "runnable ?c2 = []" "sock ?c2 = Some Connecting" "\<not> closedByUs ?c2"
    using r1 by (auto simp: reconnect_def connect_def effect_def runnable_def)
  moreover have "delay ?c2 = min (delay c * 2) (maxDelay c)" "maxDelay ?c2 = maxDelay c"
    using assms(3) by (simp_all add: reconnect_def connect_def effect_def onclose_def rejectAll_def
        notify_def arm_def Let_def)
  ultimately show ?thesis using that [OF run] conn_run_inv [OF run assms(1)] by simp
qed

lemma min_doubling: "1 \<le> p \<Longrightarrow> min (min a m * p) m = min (a * p) (m :: nat)"
proof (cases "a \<le> m")
  case False
  assume "1 \<le> p"
  then have "m * 1 \<le> m * p" "a * 1 \<le> a * p" by (intro mult_le_mono2; simp)+
  then have "m \<le> m * p" "m \<le> a * p" using False by linarith+
  then have "min (m * p) m = m" "min (a * p) m = m" by (simp_all only: min.absorb2)
  moreover have "min a m = m" using False by simp
  ultimately show ?thesis by simp
qed (simp add: min_def)

lemma failed_dials_delay:
  assumes "conn_inv c" "sock c = Some Connecting" "\<not> closedByUs c" "runnable c = []"
  shows "\<exists>c'. conn_run (failed_dials k @ [SocketClose]) c = Some c' \<and>
    reconnectTimer c' = Some (if k = 0 then delay c else min (delay c * 2 ^ k) (maxDelay c))"
  using assms
proof (induction k arbitrary: c)
  case 0
  then show ?case
    by (simp add: failed_dials_def onclose_def rejectAll_def notify_def arm_def Let_def)
next
  case (Suc k)
  from failed_dial [OF Suc.prems] obtain c1 where c1: "conn_run [SocketClose, TimerFires] c = Some c1"
    "conn_inv c1" "sock c1 = Some Connecting" "\<not> closedByUs c1" "runnable c1 = []"
    "delay c1 = min (delay c * 2) (maxDelay c)" "maxDelay c1 = maxDelay c" by blast
  from Suc.IH [OF c1(2-5)] obtain c' where "conn_run (failed_dials k @ [SocketClose]) c1 = Some c'"
    "reconnectTimer c' = Some (if k = 0 then delay c1 else min (delay c1 * 2 ^ k) (maxDelay c1))" by blast
  moreover have "failed_dials (Suc k) @ [SocketClose] =
      [SocketClose, TimerFires] @ failed_dials k @ [SocketClose]" by (simp add: failed_dials_def)
  moreover have "min (min (delay c * 2) (maxDelay c) * 2 ^ k) (maxDelay c) = min (delay c * 2 ^ Suc k) (maxDelay c)"
    using min_doubling [of "2 ^ k" "delay c * 2" "maxDelay c"] by (simp add: ac_simps)
  ultimately show ?case using c1(1,6,7) by (simp only: run_events_append) (auto split: if_splits)
qed



section \<open>Waiting calls\<close>

text \<open>
  C19: an opening socket releases every call that waits for it. From a connecting socket, the
  open event followed by one continuation per call that waits on the current promise leaves no
  call that could run; of the waiting calls only those on an older promise remain.
\<close>

definition fresh_calls :: "conn \<Rightarrow> call list" where
  "fresh_calls c = filter (\<lambda>w. call_promise w = ready c) (waiting c)"

lemma continue_drains:
  assumes "conn_inv c" "length (runnable c) = n"
  shows "\<exists>c'. conn_run (replicate n (Continue False)) c = Some c' \<and> runnable c' = [] \<and>
    waiting c' = filter (\<lambda>w. call_promise w \<notin> set (resolved c)) (waiting c)"
  using assms
proof (induction n arbitrary: c)
  case 0
  then show ?case by (auto simp: runnable_def filter_empty_conv intro!: filter_True [symmetric])
next
  case (Suc n)
  then obtain w ws where r: "runnable c = w # ws" by (cases "runnable c") auto
  then have "w \<in> set (runnable c)" by simp
  then have w: "w \<in> set (waiting c)" "call_promise w \<in> set (resolved c)"
    by (simp_all add: runnable_def)
  let ?c1 = "call_resume w False (c\<lparr>waiting := remove1 w (waiting c)\<rparr>)"
  have step: "conn_step (Continue False) c = Some ?c1" using r by simp
  have eq: "resolved ?c1 = resolved c" "waiting ?c1 = remove1 w (waiting c)"
    by (auto simp: call_resume_def effect_def Let_def split: outcome.split)
  have "runnable ?c1 = ws" using r by (simp add: runnable_def eq filter_remove1)
  then have "length (runnable ?c1) = n" using Suc.prems(2) r by simp
  with Suc.IH [of ?c1] conn_steps.inv_step [OF Suc.prems(1) _ step] obtain c' where
    "conn_run (replicate n (Continue False)) ?c1 = Some c'" "runnable c' = []"
    "waiting c' = filter (\<lambda>w. call_promise w \<notin> set (resolved c)) (remove1 w (waiting c))"
    by (auto simp: eq)
  with step w(2) show ?case by (auto simp: filter_remove1 remove1_idem)
qed



text \<open>
  A call made before a failed dial hangs for ever. \<^verbatim>\<open>onclose\<close> replaces \<^verbatim>\<open>this.ready\<close> and drops
  the resolver of the old promise, so a call that waits on it is neither sent nor settled by any
  later sequence of events, the successful reconnect and \<^verbatim>\<open>close()\<close> included.
\<close>

lemma stale_trans:
  assumes "conn_trans l c c'" "promises_ok c" "w \<in> set (waiting c)"
    "call_promise w < ready c" "call_promise w \<notin> set (resolved c)"
  shows "w \<in> set (waiting c') \<and> call_promise w < ready c' \<and> call_promise w \<notin> set (resolved c')"
  using assms
proof (induction rule: conn_trans.induct)
  case (Sent v c f)
  then have "v \<noteq> w" by (auto simp: runnable_def)
  with Sent show ?case by simp
next
  case (Failed v c n err)
  then have "v \<noteq> w" by (auto simp: runnable_def)
  with Failed show ?case by simp
next
  case (Open c es)
  then show ?case by (auto simp: promises_ok_def split: option.splits)
qed (auto simp: onclose_def rejectAll_def notify_def arm_def call_start_def close_conn_def effect_def
    Let_def split: option.split)

lemma stale_run:
  assumes "conn_run es c = Some c'" "conn_inv c" "w \<in> set (waiting c)"
    "call_promise w < ready c" "call_promise w \<notin> set (resolved c)"
  shows "w \<in> set (waiting c')"
  using assms
proof (induction es arbitrary: c)
  case (Cons e es)
  then obtain c1 where c1: "conn_step e c = Some c1" "conn_run es c1 = Some c'"
    by (auto split: option.splits)
  with stale_trans [OF conn_step_trans [OF c1(1)]] Cons.prems(2-) have
    "w \<in> set (waiting c1)" "call_promise w < ready c1" "call_promise w \<notin> set (resolved c1)"
    by (auto simp: conn_inv_def)
  with Cons.IH [OF c1(2)] conn_steps.inv_step [OF Cons.prems(2) _ c1(1)] show ?case by simp
qed simp

theorem conn_failed_dial_strands_calls:
  assumes "conn_run (ClientCall t p g # SocketClose # es) (new_conn ep u md) = Some c"
  shows "t \<in> set (map call_token (waiting c))"
proof -
  let ?c0 = "onclose (call_start t p g (new_conn ep u md))"
  let ?w = "\<lparr>call_token = t, call_promise = 1, call_payload = p, call_target = g\<rparr>"
  have run: "conn_run [ClientCall t p g, SocketClose] (new_conn ep u md) = Some ?c0"
    by (simp add: call_start_def new_conn_def connect_def arm_def effect_def runnable_def)
  then have "conn_run es ?c0 = Some c"
    using assms run_events_append [of conn_step "[ClientCall t p g, SocketClose]" es "new_conn ep u md"] by simp
  moreover have "conn_inv ?c0" using conn_run_inv [OF run new_conn_inv] .
  moreover have "waiting ?c0 = [?w]" "ready ?c0 = 2" "resolved ?c0 = []"
    by (simp_all add: onclose_def call_start_def new_conn_def connect_def arm_def effect_def
        rejectAll_def notify_def Let_def)
  ultimately have "?w \<in> set (waiting c)" by (intro stale_run [of es ?c0 c ?w]) simp_all
  then show ?thesis by force
qed

theorem conn_failed_dial_strands_calls_witness:
  "\<exists>c. conn_run [ClientCall 7 ping ''pty'', SocketClose, TimerFires, SocketOpen False]
      (new_conn ''kernel'' ''ws://host/kernel/ws'' 16000) = Some c \<and>
     connected c \<and> 7 \<in> set (map call_token (waiting c))"
proof -
  obtain c where c: "conn_run [ClientCall 7 ping ''pty'', SocketClose, TimerFires, SocketOpen False]
      (new_conn ''kernel'' ''ws://host/kernel/ws'' 16000) = Some c" "connected c"
    by (simp add: call_start_def new_conn_def connect_def arm_def effect_def runnable_def onclose_def
        rejectAll_def notify_def reconnect_def onopen_def resolve_ready_def Let_def)
  with conn_failed_dial_strands_calls [OF c(1)] show ?thesis by blast
qed

section \<open>The host's state stream\<close>

text \<open>What the host has been told on the current socket: a fresh socket starts unsubscribed.\<close>

fun host_sees :: "effect \<Rightarrow> bool \<Rightarrow> bool" where
  "host_sees (Dial u) b = False"
| "host_sees (SendFrame f) b =
     (if encodeFrame (state_frame True) = Ok f then True
      else if encodeFrame (state_frame False) = Ok f then False else b)"
| "host_sees e b = b"

definition host_subscribed :: "effect list \<Rightarrow> bool" where
  "host_subscribed es = fold host_sees es False"

definition sends_work :: "conn_event \<Rightarrow> bool" where
  "sends_work e = (case e of SocketOpen thr \<Rightarrow> \<not> thr | SetWants _ thr \<Rightarrow> \<not> thr | _ \<Rightarrow> True)"

definition stream_inv :: "conn \<Rightarrow> bool" where
  "stream_inv c = (conn_inv c \<and> (connected c \<longrightarrow> host_subscribed (effects c) = wantsState c) \<and>
     (sock c = Some Connecting \<longrightarrow> \<not> host_subscribed (effects c)))"

lemma state_frame_text:
  "encodeFrame (state_frame on) = Ok (TextFrame (CHR 0x7B # quote_string ''type'' @ CHR 0x3A #
     quote_string (if on then ''state_subscribe'' else ''state_unsubscribe'') @ [CHR 0x7D]))"
  by (simp add: state_frame_def encodeFrame_def)

lemma state_frames_differ: "encodeFrame (state_frame True) \<noteq> encodeFrame (state_frame False)"
  by (simp add: state_frame_text quote_string_def escape_char_def)

lemma other_frame:
  assumes "encodeFrame ((''type'', JStr ty) # rest) = Ok f" "ty = ''call'' \<or> ty = ''emit''"
  shows "encodeFrame (state_frame on) \<noteq> Ok f"
proof (cases "findBinaryPath (JObj ((''type'', JStr ty) # rest)) []")
  case None
  then have "f = TextFrame (stringify (JObj ((''type'', JStr ty) # rest)))"
    using assms(1) by (simp add: encodeFrame_def del: stringify.simps findBinaryPath.simps)
  with assms(2) show ?thesis
    by (cases rest) (auto simp: state_frame_text quote_string_def escape_char_def)
next
  case (Some path)
  have "encodeFrame ((''type'', JStr ty) # rest) \<noteq> Ok (TextFrame s)" for s
    unfolding encodeFrame_def Some
    by (simp add: and_then_Ok_iff Let_def del: deepClone.simps)
  with assms(1) show ?thesis by (auto simp: state_frame_text)
qed

lemma host_subscribed_append [simp]:
  "host_subscribed (es @ fs) = fold host_sees fs (host_subscribed es)"
  by (simp add: host_subscribed_def)

lemma fold_notes [simp]: "fold host_sees (map (\<lambda>l. Notify l b) ls) x = x"
  by (induction ls) simp_all

lemma fold_rejects [simp]: "fold host_sees (map (\<lambda>(_, t). Settle t r) ps) x = x"
  by (induction ps) auto

lemma subscribed_after_state_frame:
  "connected c \<Longrightarrow> sock c \<noteq> None \<Longrightarrow>
   host_subscribed (effects (fst (sendFrame (state_frame on) False c))) = on"
  using state_frames_differ
  by (cases on) (auto simp: sendFrame_def effect_def state_frame_text quote_string_def escape_char_def)

lemma stream_onopen:
  "sock c = Some Connecting \<Longrightarrow> \<not> host_subscribed (effects c) \<Longrightarrow>
   host_subscribed (effects (onopen False c)) = wantsState (onopen False c)"
  using subscribed_after_state_frame [of "c\<lparr>sock := Some Opened, connected := True, delay := 1000\<rparr>" True]
  by (auto simp: onopen_def notify_def resolve_ready_def Let_def)

lemma stream_sent:
  assumes "encodeFrame ((''type'', JStr ty) # rest) = Ok f" "ty = ''call'' \<or> ty = ''emit''"
  shows "host_subscribed (es @ [SendFrame f]) = host_subscribed es"
  using other_frame [OF assms] by simp

lemma stream_emit: "host_subscribed (effects (emit_frame p g thr c)) = host_subscribed (effects c)"
proof -
  let ?env = "[(''type'', JStr ''emit''), (''target'', JStr g), (''payload'', JObj p)]"
  show ?thesis
    by (rule sendFrame_cases [of ?env thr c])
      (simp_all add: emit_frame_def effect_def stream_sent [of "''emit''"] del: host_subscribed_append)
qed

lemma stream_resume:
  "host_subscribed (effects (call_resume w thr c)) = host_subscribed (effects c)"
proof (cases "encodeFrame (call_envelope (call_payload w) (call_target w) (show_nat (nextId c)))")
  case (Ok f)
  from stream_sent [OF this [unfolded call_envelope_def]] Ok show ?thesis
    by (simp add: call_resume_def effect_def Let_def)
qed (simp_all add: call_resume_def effect_def Let_def)

lemma stream_reply: "host_subscribed (effects (on_reply msg c)) = host_subscribed (effects c)"
  by (auto simp: on_reply_def effect_def Let_def split: option.split)

lemma stream_message:
  assumes "onMessage d c = Some c'"
  shows "host_subscribed (effects c') = host_subscribed (effects c) \<and>
    wantsState c' = wantsState c \<and> connected c' = connected c \<and> sock c' = sock c"
proof -
  have "wantsState (on_reply msg c) = wantsState c" "connected (on_reply msg c) = connected c"
    "sock (on_reply msg c) = sock c" for msg
    by (auto simp: on_reply_def effect_def Let_def split: option.split)
  with assms show ?thesis
    unfolding onMessage_def Let_def
    by (cases "decodeFrame d")
      (auto simp: effect_def stream_reply split: json.splits if_splits option.splits)
qed

lemma stream_setWants:
  assumes "sock c \<noteq> None" "connected c \<longrightarrow> host_subscribed (effects c) = wantsState c"
  shows "wantsState (setWantsState on False c) = on \<and>
    connected (setWantsState on False c) = connected c \<and> sock (setWantsState on False c) = sock c \<and>
    host_subscribed (effects (setWantsState on False c)) =
      (if connected c then on else host_subscribed (effects c))"
proof (cases "wantsState c = on \<or> \<not> connected c")
  case True
  with assms show ?thesis by (auto simp: setWantsState_def sendFrame_def)
next
  case False
  with assms subscribed_after_state_frame [of "c\<lparr>wantsState := on\<rparr>" on] show ?thesis
    by (simp add: setWantsState_def)
qed

interpretation conn_stream: step_invariant conn_step sends_work stream_inv
proof
  fix c e c' assume inv: "stream_inv c" and e: "sends_work e" and step: "conn_step e c = Some c'"
  then have ci: "conn_inv c'" using conn_steps.inv_step unfolding stream_inv_def by blast
  show "stream_inv c'"
  proof (cases e)
    case (SocketOpen thr)
    with e have "\<not> thr" by (simp add: sends_work_def)
    with SocketOpen step have "c' = onopen False c" "sock c = Some Connecting" by (auto split: if_splits)
    with stream_onopen [of c] inv ci show ?thesis
      by (simp add: stream_inv_def) (simp add: onopen_def notify_def resolve_ready_def Let_def)
  next
    case (SocketMessage d)
    with step have "onMessage d c = Some c'" by (auto split: if_splits)
    from stream_message [OF this] inv ci show ?thesis by (simp add: stream_inv_def)
  next
    case (Continue thr)
    with step obtain w where c': "c' = call_resume w thr (c\<lparr>waiting := remove1 w (waiting c)\<rparr>)"
      by (auto split: list.splits)
    then have "connected c' = connected c" "sock c' = sock c" "wantsState c' = wantsState c"
      by (auto simp: call_resume_def effect_def Let_def split: outcome.splits)
    with stream_resume [of w thr "c\<lparr>waiting := remove1 w (waiting c)\<rparr>"] c' inv ci show ?thesis
      by (simp add: stream_inv_def)
  next
    case (SetWants on thr)
    with e step have c': "c' = setWantsState on False c" by (simp add: sends_work_def)
    have "sock c \<noteq> None" "sock c = Some Connecting \<Longrightarrow> \<not> connected c"
      using inv by (auto simp: stream_inv_def conn_inv_def conn_shape_def)
    with stream_setWants [of c on] inv ci c' show ?thesis by (simp add: stream_inv_def)
  next
    case TimerFires
    with step inv have "\<not> connected c"
      by (auto simp: stream_inv_def conn_inv_def conn_shape_def split: if_splits)
    with TimerFires step inv ci show ?thesis
      by (auto simp: stream_inv_def reconnect_def connect_def effect_def split: if_splits)
  next
    case (ClientEmit p g thr)
    with step inv ci show ?thesis
      by (auto simp: stream_inv_def stream_emit) (auto simp: emit_frame_def)
  qed (use step inv ci in \<open>auto simp: stream_inv_def onclose_def rejectAll_def notify_def arm_def
      reconnect_def connect_def effect_def call_start_def add_lifecycle_def del_lifecycle_def
      setStateSink_def close_conn_def Let_def split: if_splits option.splits\<close>)
qed

text \<open>
  C20: the host's state stream follows the wish of the clients across reconnects. As long as
  \<^verbatim>\<open>ws.send\<close> does not throw on the subscription frames, on every connected socket the last
  subscription message the host has seen agrees with \<open>wantsState\<close>.
\<close>

theorem conn_state_stream:
  assumes "conn_run es (new_conn ep u md) = Some c" "list_all sends_work es" "connected c"
  shows "host_subscribed (effects c) = wantsState c"
proof -
  have "stream_inv (new_conn ep u md)"
    using new_conn_inv [of ep u md]
    by (simp add: stream_inv_def host_subscribed_def)
      (simp add: new_conn_def connect_def arm_def effect_def)
  from conn_stream.run_inv [OF assms(1) this assms(2)] assms(3) show ?thesis
    by (simp add: stream_inv_def)
qed

theorem conn_state_stream_witness:
  "\<exists>c. conn_run [SetWants True False, SocketOpen False, SocketClose, TimerFires, SocketOpen False]
      (new_conn ''kernel'' ''ws://host/kernel/ws'' 16000) = Some c \<and> host_subscribed (effects c)"
proof -
  obtain c where c: "conn_run [SetWants True False, SocketOpen False, SocketClose, TimerFires, SocketOpen False]
      (new_conn ''kernel'' ''ws://host/kernel/ws'' 16000) = Some c" "connected c" "wantsState c"
    by (simp add: new_conn_def connect_def arm_def effect_def runnable_def onclose_def setWantsState_def
        rejectAll_def notify_def reconnect_def onopen_def resolve_ready_def Let_def sendFrame_def state_frame_text)
  with conn_state_stream [OF c(1)] show ?thesis by (auto simp: sends_work_def)
qed

end
