(* ===== verification/Ws_Bridge.thy ===== *)
theory Ws_Bridge
  imports Conn Kernel
begin

text \<open>
  The federation transport: class \<^verbatim>\<open>WsBridge\<close> of \<^verbatim>\<open>ts/src/transport/bridge.ts\<close>, the
  implementation of the kernel's \<^verbatim>\<open>Bridge\<close> interface.

  \<^verbatim>\<open>Conn\<close> objects live in a store; \<open>conns\<close> maps an endpoint to the address of its object. An object
  that has been closed and forgotten stays in the store: its socket still delivers its last
  events. Callers and state handlers are tokens. The theory also gives the interface the
  kernel's watches rely on as a locale and proves that the kernel keeps exactly one socket open
  per watched remote source.
\<close>

section \<open>State\<close>

record ws_bridge =
  origin :: string
  controlEndpoint :: string
  wb_maxDelay :: nat
  conn_store :: "conn list"
  conns :: "(string \<times> nat) list"
  stateHandlers :: "nat list"

definition strip_slashes :: "string \<Rightarrow> string" where
  "strip_slashes s = rev (dropWhile (\<lambda>c. c = CHR ''/'') (rev s))"

definition new_bridge :: "string \<Rightarrow> string \<Rightarrow> nat option \<Rightarrow> ws_bridge" where
  "new_bridge org control md =
     \<lparr>origin = strip_slashes org, controlEndpoint = control,
      wb_maxDelay = (case md of Some d \<Rightarrow> d | None \<Rightarrow> 16000),
      conn_store = [], conns = [], stateHandlers = []\<rparr>"

definition on_conn :: "nat \<Rightarrow> (conn \<Rightarrow> conn) \<Rightarrow> ws_bridge \<Rightarrow> ws_bridge" where
  "on_conn a f b = b\<lparr>conn_store := (conn_store b)[a := f (conn_store b ! a)]\<rparr>"

section \<open>Operations\<close>

definition connFor :: "string \<Rightarrow> ws_bridge \<Rightarrow> ws_bridge \<times> nat" where
  "connFor ep b =
     (case map_of (conns b) ep of
        Some a \<Rightarrow> (b, a)
      | None \<Rightarrow>
          (let a = length (conn_store b);
               c = new_conn ep (origin b @ ''/'' @ ep @ ''/ws'') (wb_maxDelay b)
           in (b\<lparr>conn_store := conn_store b @ [c], conns := AList.update ep a (conns b)\<rparr>, a)))"

text \<open>\<^verbatim>\<open>this.conns.get(target) ?? this.connFor(this.controlEndpoint)\<close>\<close>

definition route :: "string \<Rightarrow> ws_bridge \<Rightarrow> ws_bridge \<times> nat" where
  "route target b =
     (case map_of (conns b) target of Some a \<Rightarrow> (b, a) | None \<Rightarrow> connFor (controlEndpoint b) b)"

definition forward_call :: "string \<Rightarrow> payload \<Rightarrow> nat \<Rightarrow> ws_bridge \<Rightarrow> ws_bridge" where
  "forward_call target p t b =
     (let (b1, a) = route target b in on_conn a (call_start t p target) b1)"

definition bridge_emit :: "string \<Rightarrow> payload \<Rightarrow> bool \<Rightarrow> ws_bridge \<Rightarrow> ws_bridge" where
  "bridge_emit target p send_throws b =
     (let (b1, a) = route target b in on_conn a (emit_frame p target send_throws) b1)"

definition watchRemote :: "string \<Rightarrow> ws_bridge \<Rightarrow> ws_bridge" where
  "watchRemote src b = fst (connFor src b)"

definition unwatchRemote :: "string \<Rightarrow> ws_bridge \<Rightarrow> ws_bridge" where
  "unwatchRemote src b =
     (if src = controlEndpoint b then b
      else case map_of (conns b) src of
          None \<Rightarrow> b
        | Some a \<Rightarrow> (on_conn a close_conn b)\<lparr>conns := AList.delete src (conns b)\<rparr>)"

definition bridge_onLifecycle :: "string \<Rightarrow> nat \<Rightarrow> ws_bridge \<Rightarrow> ws_bridge" where
  "bridge_onLifecycle ep fn b = (let (b1, a) = connFor ep b in on_conn a (add_lifecycle fn) b1)"

text \<open>The closure \<^verbatim>\<open>subscribeState\<close> returns keeps the control connection it saw.\<close>

definition bridge_subscribeState :: "nat \<Rightarrow> bool \<Rightarrow> ws_bridge \<Rightarrow> ws_bridge \<times> nat" where
  "bridge_subscribeState h send_throws b =
     (let (b1, a) = connFor (controlEndpoint b) b;
          b2 = (if stateHandlers b1 = []
                then on_conn a (setWantsState True send_throws \<circ> setStateSink True) b1 else b1)
      in (b2\<lparr>stateHandlers := set_add h (stateHandlers b2)\<rparr>, a))"

definition bridge_unsubscribeState :: "nat \<Rightarrow> nat \<Rightarrow> bool \<Rightarrow> ws_bridge \<Rightarrow> ws_bridge" where
  "bridge_unsubscribeState h a send_throws b =
     (let b1 = b\<lparr>stateHandlers := set_del h (stateHandlers b)\<rparr>
      in if stateHandlers b1 = []
         then on_conn a (setStateSink False \<circ> setWantsState False send_throws) b1 else b1)"

definition close_bridge :: "ws_bridge \<Rightarrow> ws_bridge" where
  "close_bridge b = (fold (\<lambda>(_, a). on_conn a close_conn) (conns b) b)\<lparr>conns := []\<rparr>"

text \<open>An event of the connection at an address, as the event loop delivers it.\<close>

definition bridge_conn_event :: "nat \<Rightarrow> conn_event \<Rightarrow> ws_bridge \<Rightarrow> ws_bridge option" where
  "bridge_conn_event a e b =
     (if a < length (conn_store b)
      then map_option (\<lambda>c. b\<lparr>conn_store := (conn_store b)[a := c]\<rparr>) (conn_step e (conn_store b ! a))
      else None)"

section \<open>The registry of connections\<close>

definition conns_ok :: "ws_bridge \<Rightarrow> bool" where
  "conns_ok b =
     (distinct (map fst (conns b)) \<and>
      (\<forall>ep a. map_of (conns b) ep = Some a \<longrightarrow>
         a < length (conn_store b) \<and> endpoint (conn_store b ! a) = ep \<and>
         \<not> closedByUs (conn_store b ! a)) \<and>
      (\<forall>c\<in>set (conn_store b). conn_inv c) \<and>
      (\<forall>a<length (conn_store b). \<not> closedByUs (conn_store b ! a) \<longrightarrow>
         map_of (conns b) (endpoint (conn_store b ! a)) = Some a))"

lemma conns_okD:
  assumes "conns_ok b" "map_of (conns b) ep = Some a"
  shows "a < length (conn_store b)" "endpoint (conn_store b ! a) = ep"
    "\<not> closedByUs (conn_store b ! a)"
  using assms by (auto simp: conns_ok_def)

lemma new_bridge_ok: "conns_ok (new_bridge org control md)"
  by (simp add: conns_ok_def new_bridge_def)

lemma connFor_ok:
  assumes "conns_ok b" "connFor ep b = (b', a)"
  shows "conns_ok b' \<and> map_of (conns b') ep = Some a"
proof (cases "map_of (conns b) ep")
  case None
  let ?c = "new_conn ep (origin b @ ''/'' @ ep @ ''/ws'') (wb_maxDelay b)"
  have c: "endpoint ?c = ep" "\<not> closedByUs ?c"
    by (simp_all add: new_conn_def connect_def arm_def effect_def)
  have b': "b' = b\<lparr>conn_store := conn_store b @ [?c], conns := AList.update ep (length (conn_store b)) (conns b)\<rparr>"
    "a = length (conn_store b)" using assms(2) None by (auto simp: connFor_def Let_def)
  have fresh: "\<not> closedByUs (conn_store b ! i) \<Longrightarrow> endpoint (conn_store b ! i) \<noteq> ep"
    if "i < length (conn_store b)" for i
    using assms(1) None that by (auto simp: conns_ok_def)
  show ?thesis
    using assms(1) c fresh new_conn_inv
    by (auto simp: conns_ok_def b' nth_append less_Suc_eq)
qed (use assms in \<open>auto simp: connFor_def\<close>)

lemma on_conn_simps [simp]:
  "conns (on_conn a f b) = conns b" "length (conn_store (on_conn a f b)) = length (conn_store b)"
  "controlEndpoint (on_conn a f b) = controlEndpoint b" "stateHandlers (on_conn a f b) = stateHandlers b"
  by (simp_all add: on_conn_def)

lemma on_conn_nth:
  "i < length (conn_store b) \<Longrightarrow>
   conn_store (on_conn a f b) ! i = (if i = a then f (conn_store b ! i) else conn_store b ! i)"
  by (auto simp: on_conn_def nth_list_update)

lemma close_conn_simps [simp]:
  "endpoint (close_conn c) = endpoint c" "closedByUs (close_conn c)"
  by (auto simp: close_conn_def rejectAll_def effect_def Let_def split: option.split)

lemma close_conn_inv [simp]: "conn_inv c \<Longrightarrow> conn_inv (close_conn c)"
  by (rule conn_inv_trans [OF conn_trans.Shut])

lemma all_conns: "(\<forall>c\<in>set (conn_store b). P c) \<longleftrightarrow> (\<forall>i<length (conn_store b). P (conn_store b ! i))"
  by (simp add: all_set_conv_all_nth)

text \<open>Operations on one connection that keep its name and do not close it.\<close>

definition gentle :: "(conn \<Rightarrow> conn) \<Rightarrow> bool" where
  "gentle f = (\<forall>c. endpoint (f c) = endpoint c \<and> closedByUs (f c) = closedByUs c \<and>
     (conn_inv c \<longrightarrow> conn_inv (f c)))"

lemma on_conn_ok: "conns_ok b \<Longrightarrow> gentle f \<Longrightarrow> conns_ok (on_conn a f b)"
  unfolding conns_ok_def all_conns by (auto simp: on_conn_nth gentle_def)

lemma gentle_trans:
  assumes "\<And>c. conn_trans l c (f c)" "\<And>c. closedByUs (f c) = closedByUs c" shows "gentle f"
  unfolding gentle_def using endpoint_trans [OF assms(1)] conn_inv_trans [OF assms(1)] assms(2) by blast

lemma gentle_comp: "gentle f \<Longrightarrow> gentle g \<Longrightarrow> gentle (f \<circ> g)"
  by (simp add: gentle_def)

lemma closedByUs_sendFrame [simp]: "closedByUs (fst (sendFrame env thr c)) = closedByUs c"
  by (rule sendFrame_cases [of env thr c]) (simp_all add: effect_def)

lemma gentle_ops:
  "gentle (call_start t p g)" "gentle (emit_frame p g thr)" "gentle (add_lifecycle l)"
  "gentle (setStateSink on)" "gentle (setWantsState on thr)" "gentle (del_lifecycle l)"
proof -
  show "gentle (call_start t p g)"
    by (rule gentle_trans) (rule conn_trans.Start, simp add: call_start_def)
  show "gentle (emit_frame p g thr)"
    by (rule gentle_trans [of None]) (simp_all add: emit_frame_def sendFrame_trans)
  show "gentle (setWantsState on thr)"
    by (rule gentle_trans, rule setWantsState_trans) (simp add: setWantsState_def)
  have *: "gentle f" if "\<And>c. conn_step e c = Some (f c)" "\<And>c. closedByUs (f c) = closedByUs c" for e f
    using conn_step_trans [OF that(1)] that(2) by (rule gentle_trans)
  show "gentle (add_lifecycle l)" by (rule *[of "AddLifecycle l"]) (simp_all add: add_lifecycle_def)
  show "gentle (del_lifecycle l)" by (rule *[of "DelLifecycle l"]) (simp_all add: del_lifecycle_def)
  show "gentle (setStateSink on)" by (rule *[of "SetSink on"]) (simp_all add: setStateSink_def)
qed

lemma fold_close:
  fixes b xs defines "b' \<equiv> fold (\<lambda>(_, a). on_conn a close_conn) xs b"
  shows "conns b' = conns b \<and> length (conn_store b') = length (conn_store b) \<and>
   (\<forall>i<length (conn_store b). endpoint (conn_store b' ! i) = endpoint (conn_store b ! i) \<and>
     (conn_inv (conn_store b ! i) \<longrightarrow> conn_inv (conn_store b' ! i)) \<and>
     (closedByUs (conn_store b' ! i) \<longleftrightarrow> closedByUs (conn_store b ! i) \<or> i \<in> snd ` set xs))"
  unfolding b'_def
proof (induction xs arbitrary: b)
  case (Cons x xs)
  obtain ep a where x: "x = (ep, a)" by (cases x)
  show ?case using Cons.IH [of "on_conn a close_conn b"] by (auto simp: x on_conn_nth)
qed simp

lemma close_bridge_ok:
  assumes "conns_ok b" shows "conns_ok (close_bridge b)"
proof -
  let ?b = "fold (\<lambda>(_, a). on_conn a close_conn) (conns b) b"
  have "i \<in> snd ` set (conns b)" if "i < length (conn_store b)" "\<not> closedByUs (conn_store b ! i)" for i
    using assms that by (force simp: conns_ok_def dest: map_of_SomeD)
  then have "closedByUs (conn_store ?b ! i)" if "i < length (conn_store b)" for i
    using fold_close [of "conns b" b] that by blast
  with assms fold_close [of "conns b" b] show ?thesis
    unfolding conns_ok_def all_conns close_bridge_def by auto
qed

lemma conns_okI:
  assumes "distinct (map fst (conns b))"
    and "\<And>ep a. map_of (conns b) ep = Some a \<Longrightarrow> a < length (conn_store b) \<and>
      endpoint (conn_store b ! a) = ep \<and> \<not> closedByUs (conn_store b ! a)"
    and "\<And>a. a < length (conn_store b) \<Longrightarrow> conn_inv (conn_store b ! a)"
    and "\<And>a. a < length (conn_store b) \<Longrightarrow> \<not> closedByUs (conn_store b ! a) \<Longrightarrow>
      map_of (conns b) (endpoint (conn_store b ! a)) = Some a"
  shows "conns_ok b"
  using assms unfolding conns_ok_def all_conns by blast

lemma conns_ok_open:
  "conns_ok b \<Longrightarrow> i < length (conn_store b) \<Longrightarrow> \<not> closedByUs (conn_store b ! i) \<Longrightarrow>
   map_of (conns b) (endpoint (conn_store b ! i)) = Some i"
  by (simp add: conns_ok_def)

lemma forget_ok:
  assumes "conns_ok b" "map_of (conns b) src = Some a"
  shows "conns_ok ((on_conn a close_conn b)\<lparr>conns := AList.delete src (conns b)\<rparr>)"
proof (rule conns_okI)
  show "distinct (map fst (conns ((on_conn a close_conn b)\<lparr>conns := AList.delete src (conns b)\<rparr>)))"
    using assms(1) by (simp add: conns_ok_def)
next
  fix ep a' assume "map_of (conns ((on_conn a close_conn b)\<lparr>conns := AList.delete src (conns b)\<rparr>)) ep = Some a'"
  then have *: "map_of (conns b) ep = Some a'" "ep \<noteq> src" by (auto split: if_splits)
  then have "a' \<noteq> a" using conns_okD(2) [OF assms] conns_okD(2) [OF assms(1) *(1)] by auto
  with conns_okD [OF assms(1) *(1)] show "a' < length (conn_store ((on_conn a close_conn b)
      \<lparr>conns := AList.delete src (conns b)\<rparr>)) \<and>
    endpoint (conn_store ((on_conn a close_conn b)\<lparr>conns := AList.delete src (conns b)\<rparr>) ! a') = ep \<and>
    \<not> closedByUs (conn_store ((on_conn a close_conn b)\<lparr>conns := AList.delete src (conns b)\<rparr>) ! a')"
    by (simp add: on_conn_nth)
next
  fix i assume "i < length (conn_store ((on_conn a close_conn b)\<lparr>conns := AList.delete src (conns b)\<rparr>))"
  then have i: "i < length (conn_store b)" by simp
  then have "conn_inv (conn_store b ! i)" using assms(1) by (simp add: conns_ok_def)
  with i show "conn_inv (conn_store ((on_conn a close_conn b)\<lparr>conns := AList.delete src (conns b)\<rparr>) ! i)"
    by (auto simp: on_conn_nth)
  assume "\<not> closedByUs (conn_store ((on_conn a close_conn b)\<lparr>conns := AList.delete src (conns b)\<rparr>) ! i)"
  then have "i \<noteq> a" "\<not> closedByUs (conn_store b ! i)" using i by (auto simp: on_conn_nth split: if_splits)
  with conns_ok_open [OF assms(1) i] assms(2) i
  show "map_of (conns ((on_conn a close_conn b)\<lparr>conns := AList.delete src (conns b)\<rparr>))
      (endpoint (conn_store ((on_conn a close_conn b)\<lparr>conns := AList.delete src (conns b)\<rparr>) ! i)) = Some i"
    by (auto simp: on_conn_nth)
qed

lemma unwatch_ok: "conns_ok b \<Longrightarrow> conns_ok (unwatchRemote src b)"
  by (simp add: unwatchRemote_def forget_ok split: option.split)

lemma route_ok:
  assumes "conns_ok b" "route target b = (b', a)"
  shows "conns_ok b'" "map_of (conns b') (endpoint (conn_store b' ! a)) = Some a"
    "endpoint (conn_store b' ! a) = target \<or> endpoint (conn_store b' ! a) = controlEndpoint b"
proof -
  have "conns_ok b' \<and> (map_of (conns b') target = Some a \<or> map_of (conns b') (controlEndpoint b) = Some a)"
    using assms connFor_ok [OF assms(1), of "controlEndpoint b" b' a]
    by (auto simp: route_def split: option.splits)
  then show "conns_ok b'" "map_of (conns b') (endpoint (conn_store b' ! a)) = Some a"
    "endpoint (conn_store b' ! a) = target \<or> endpoint (conn_store b' ! a) = controlEndpoint b"
    using conns_okD [of b'] by auto
qed

section \<open>The bridge as an event system\<close>

datatype bridge_event =
    BForward string payload nat
  | BEmit string payload bool
  | BWatch string
  | BUnwatch string
  | BLifecycle string nat
  | BSubscribe nat bool
  | BUnsubscribe nat nat bool
  | BClose
  | BConn nat conn_event

text \<open>
  Only the platform acts on a connection directly: its clients go through the bridge. A closure
  returned by \<^verbatim>\<open>subscribeState\<close> holds a connection to the control endpoint.
\<close>

definition platform_event :: "conn_event \<Rightarrow> bool" where
  "platform_event e = (case e of SocketOpen _ \<Rightarrow> True | SocketMessage _ \<Rightarrow> True | SocketClose \<Rightarrow> True
     | TimerFires \<Rightarrow> True | Continue _ \<Rightarrow> True | DelLifecycle _ \<Rightarrow> True | _ \<Rightarrow> False)"

fun bridge_step :: "bridge_event \<Rightarrow> ws_bridge \<Rightarrow> ws_bridge option" where
  "bridge_step (BForward target p t) b = Some (forward_call target p t b)"
| "bridge_step (BEmit target p thr) b = Some (bridge_emit target p thr b)"
| "bridge_step (BWatch src) b = Some (watchRemote src b)"
| "bridge_step (BUnwatch src) b = Some (unwatchRemote src b)"
| "bridge_step (BLifecycle ep fn) b = Some (bridge_onLifecycle ep fn b)"
| "bridge_step (BSubscribe h thr) b = Some (fst (bridge_subscribeState h thr b))"
| "bridge_step (BUnsubscribe h a thr) b =
     (if a < length (conn_store b) \<and> endpoint (conn_store b ! a) = controlEndpoint b
      then Some (bridge_unsubscribeState h a thr b) else None)"
| "bridge_step BClose b = Some (close_bridge b)"
| "bridge_step (BConn a e) b = (if platform_event e then bridge_conn_event a e b else None)"

lemma set_handlers_ok [simp]: "conns_ok (b\<lparr>stateHandlers := hs\<rparr>) = conns_ok b"
  by (simp add: conns_ok_def)

lemma platform_closed:
  assumes "conn_step e c = Some c'" "platform_event e" shows "closedByUs c' = closedByUs c"
  using assms
  by (cases e) (auto simp: platform_event_def onopen_def notify_def resolve_ready_def onclose_def
      rejectAll_def arm_def reconnect_def connect_def effect_def call_resume_def del_lifecycle_def
      onMessage_def on_reply_def Let_def
      split: if_splits option.splits list.splits outcome.splits json.splits)

lemma connFor_length: "connFor ep b = (b', a) \<Longrightarrow> conns_ok b \<Longrightarrow> a < length (conn_store b')"
  using connFor_ok conns_okD(1) by blast

lemma conn_event_ok:
  assumes "conns_ok b" "bridge_conn_event a e b = Some b'" "platform_event e"
  shows "conns_ok b'"
proof -
  from assms(2) obtain c where a: "a < length (conn_store b)" and c: "conn_step e (conn_store b ! a) = Some c"
    and b': "b' = on_conn a (\<lambda>_. c) b"
    by (auto simp: bridge_conn_event_def on_conn_def split: if_splits)
  have "endpoint c = endpoint (conn_store b ! a)" "closedByUs c = closedByUs (conn_store b ! a)"
    "conn_inv (conn_store b ! a) \<longrightarrow> conn_inv c"
    using endpoint_trans [OF conn_step_trans [OF c]] platform_closed [OF c assms(3)]
      conn_inv_trans [OF conn_step_trans [OF c]] by auto
  with assms(1) a show ?thesis unfolding b' conns_ok_def all_conns by (auto simp: on_conn_nth)
qed

interpretation bridge_conns: step_invariant bridge_step "\<lambda>_. True" conns_ok
proof
  fix b e b' assume ok: "conns_ok b" and step: "bridge_step e b = Some b'"
  have g: "gentle (setWantsState x thr \<circ> setStateSink y)" "gentle (setStateSink y \<circ> setWantsState x thr)" for x y thr
    by (rule gentle_comp; rule gentle_ops)+
  note on = on_conn_ok gentle_ops g
  have cf: "conns_ok (fst (connFor ep b))" for ep
    using connFor_ok [OF ok, of ep] by (cases "connFor ep b") auto
  have rt: "conns_ok (fst (route tg b))" for tg
    using route_ok(1) [OF ok, of tg] by (cases "route tg b") auto
  show "conns_ok b'"
  proof (cases e)
    case (BConn a ce)
    with step conn_event_ok [OF ok] show ?thesis by (auto split: if_splits)
  next
    case (BSubscribe h thr)
    with step cf [of "controlEndpoint b"] show ?thesis
      by (auto simp: bridge_subscribeState_def Let_def split_def intro!: on)
  next
    case (BUnsubscribe h a thr)
    with step ok show ?thesis
      by (auto simp: bridge_unsubscribeState_def Let_def intro!: on split: if_splits)
  qed (use step ok cf rt in \<open>auto simp: forward_call_def bridge_emit_def watchRemote_def bridge_onLifecycle_def
      split_def Let_def close_bridge_ok unwatch_ok intro!: on\<close>)
qed



section \<open>Routing\<close>

text \<open>
  A forwarded call goes out on the socket of its target when there is one and on the control
  socket otherwise: exactly one connection gets it, at the end of its waiting calls, that
  connection is the registered one for the target or the control endpoint, and every other
  connection is left as it was.
\<close>

theorem forward_routes:
  assumes "run_events bridge_step es (new_bridge org control md) = Some b"
  shows "\<exists>a b1. connFor (if map_of (conns b) target = None then controlEndpoint b else target) b = (b1, a) \<and>
    map_of (conns b1) (if map_of (conns b) target = None then controlEndpoint b else target) = Some a \<and>
    conns (forward_call target p t b) = conns b1 \<and>
    waiting (conn_store (forward_call target p t b) ! a) = waiting (conn_store b1 ! a) @
      [\<lparr>call_token = t, call_promise = ready (conn_store b1 ! a), call_payload = p, call_target = target\<rparr>] \<and>
    (\<forall>i<length (conn_store b). i \<noteq> a \<longrightarrow>
       conn_store (forward_call target p t b) ! i = conn_store b ! i)"
proof -
  let ?ep = "if map_of (conns b) target = None then controlEndpoint b else target"
  have ok: "conns_ok b" using bridge_conns.run_inv [OF assms new_bridge_ok] by simp
  obtain b1 a where c: "connFor ?ep b = (b1, a)" by (cases "connFor ?ep b")
  then have r: "route target b = (b1, a)" by (auto simp: route_def connFor_def split: option.splits)
  have m: "map_of (conns b1) ?ep = Some a" "conns_ok b1" using connFor_ok [OF ok c] by auto
  have a: "a < length (conn_store b1)" using conns_okD(1) [OF m(2,1)] .
  have old: "conn_store b1 ! i = conn_store b ! i" "i < length (conn_store b1)" if "i < length (conn_store b)" for i
    using c that by (auto simp: connFor_def Let_def nth_append split: option.splits)
  show ?thesis
    using c m a old by (intro exI [of _ a] exI [of _ b1]) (simp add: forward_call_def r on_conn_nth call_start_def)
qed

theorem forward_routes_witness:
  "\<exists>b a b1. run_events bridge_step [BWatch ''pty''] (new_bridge ''ws://host/'' ''kernel'' None) = Some b \<and>
     connFor ''kernel'' b = (b1, a) \<and> map_of (conns b1) ''kernel'' = Some a \<and>
     length (waiting (conn_store (forward_call ''files'' [] 1 b) ! a)) = Suc (length (waiting (conn_store b1 ! a)))"
proof -
  obtain b where b: "run_events bridge_step [BWatch ''pty''] (new_bridge ''ws://host/'' ''kernel'' None) = Some b"
    "map_of (conns b) ''files'' = None" "controlEndpoint b = ''kernel''"
    by (simp add: new_bridge_def watchRemote_def connFor_def Let_def)
  from forward_routes [OF b(1), of "''files''" "[]" 1] b show ?thesis by auto
qed

section \<open>Watches and sockets\<close>

text \<open>
  The part of the \<^verbatim>\<open>Bridge\<close> interface the kernel's watches rely on: \<^verbatim>\<open>watchRemote\<close> opens a
  source, \<^verbatim>\<open>unwatchRemote\<close> closes it unless it is the one kept for calls.
\<close>

definition drive :: "(string \<Rightarrow> 'b \<Rightarrow> 'b) \<Rightarrow> (string \<Rightarrow> 'b \<Rightarrow> 'b) \<Rightarrow> action list \<Rightarrow> 'b \<Rightarrow> 'b" where
  "drive wr ur acts b =
     fold (\<lambda>x b. case x of WatchRemote s \<Rightarrow> wr s b | UnwatchRemote s \<Rightarrow> ur s b | _ \<Rightarrow> b) acts b"

datatype watch_op = Watch string string | Unwatch string string

fun watch_step :: "watch_op \<Rightarrow> 'h kernel \<Rightarrow> 'h kernel" where
  "watch_step (Watch src w) k = watch src w k"
| "watch_step (Unwatch src w) k = unwatch src w k"

text \<open>The kernel and its bridge together: the bridge performs what the kernel asks for.\<close>

definition coupled_step ::
    "(string \<Rightarrow> 'b \<Rightarrow> 'b) \<Rightarrow> (string \<Rightarrow> 'b \<Rightarrow> 'b) \<Rightarrow> watch_op \<Rightarrow> 'h kernel \<times> 'b \<Rightarrow> 'h kernel \<times> 'b" where
  "coupled_step wr ur x s =
     (let k = watch_step x (fst s)
      in (k, drive wr ur (drop (length (trace (fst s))) (trace k)) (snd s)))"

locale remote_watches =
  fixes opened :: "'b \<Rightarrow> string set" and wr ur :: "string \<Rightarrow> 'b \<Rightarrow> 'b" and kept :: string and ok :: "'b \<Rightarrow> bool"
  assumes wr_opens: "ok b \<Longrightarrow> opened (wr s b) = insert s (opened b)"
    and ur_closes: "ok b \<Longrightarrow> opened (ur s b) = (if s = kept then opened b else opened b - {s})"
    and wr_ok: "ok b \<Longrightarrow> ok (wr s b)"
    and ur_ok: "ok b \<Longrightarrow> ok (ur s b)"
begin

definition in_step :: "'h kernel \<times> 'b \<Rightarrow> bool" where
  "in_step s = (ok (snd s) \<and> bridge (fst s) \<and>
     (\<forall>src ws. map_of (watchers (fst s)) src = Some ws \<longrightarrow> ws \<noteq> []) \<and>
     (\<forall>src. remote_src (fst s) src \<longrightarrow> src \<noteq> kept \<longrightarrow>
        (src \<in> opened (snd s) \<longleftrightarrow> watchers_of (fst s) src \<noteq> [])))"

lemma watch_in_step:
  assumes "in_step (k, b)"
  shows "in_step (coupled_step wr ur (Watch src w) (k, b))"
  using assms
  by (auto simp: in_step_def coupled_step_def drive_def watch_def watchers_of_def bridge_call_def act_def
      remote_src_def get_agent_def Let_def wr_opens wr_ok split: option.splits if_splits)

lemma unwatch_in_step:
  assumes "in_step (k, b)"
  shows "in_step (coupled_step wr ur (Unwatch src w) (k, b))"
  using assms
  by (auto simp: in_step_def coupled_step_def drive_def unwatch_def watchers_of_def bridge_call_def act_def
      remote_src_def get_agent_def Let_def ur_closes ur_ok split: option.splits if_splits)

lemma coupled_in_step: "in_step s \<Longrightarrow> in_step (fold (coupled_step wr ur) xs s)"
proof (induction xs arbitrary: s)
  case (Cons x xs)
  have "in_step (coupled_step wr ur x s)"
    using Cons.prems watch_in_step unwatch_in_step by (cases x; cases s) simp_all
  then show ?case using Cons.IH by simp
qed simp

end

lemma connFor_fields [simp]:
  "controlEndpoint (fst (connFor ep b)) = controlEndpoint b" "stateHandlers (fst (connFor ep b)) = stateHandlers b"
  by (auto simp: connFor_def Let_def split: option.split)

interpretation ws_watches: remote_watches "\<lambda>b :: ws_bridge. dom (map_of (conns b))" watchRemote unwatchRemote control
  "\<lambda>b. controlEndpoint b = control" for control
proof
  fix b :: ws_bridge and s assume b: "controlEndpoint b = control"
  show "dom (map_of (conns (watchRemote s b))) = insert s (dom (map_of (conns b)))"
    by (auto simp: watchRemote_def connFor_def Let_def split: option.split)
  show "dom (map_of (conns (unwatchRemote s b))) =
      (if s = control then dom (map_of (conns b)) else dom (map_of (conns b)) - {s})"
    using b by (auto simp: unwatchRemote_def split: option.split)
  show "controlEndpoint (watchRemote s b) = control" using b by (simp add: watchRemote_def)
  show "controlEndpoint (unwatchRemote s b) = control"
    using b by (auto simp: unwatchRemote_def split: option.split)
qed

text \<open>
  C23: the kernel and its bridge agree on what is watched. Start from a kernel with a bridge and no
  watchers and a fresh bridge; after any sequence of \<^verbatim>\<open>watch\<close> and \<^verbatim>\<open>unwatch\<close>, for every source
  that no local handler answers for, other than the control endpoint, there is a socket to the
  source exactly when somebody watches it.
\<close>

theorem watched_sources_have_sockets:
  assumes "bridge k" "watchers k = []"
    and "(k', b') = fold (coupled_step watchRemote unwatchRemote) xs (k, new_bridge org control md)"
    and "remote_src k' src" "src \<noteq> control"
  shows "map_of (conns b') src \<noteq> None \<longleftrightarrow> watchers_of k' src \<noteq> []"
proof -
  have "ws_watches.in_step control (k, new_bridge org control md)"
    using assms(1,2) by (simp add: ws_watches.in_step_def new_bridge_def watchers_of_def)
  from ws_watches.coupled_in_step [OF this, of xs] have "ws_watches.in_step control (k', b')"
    using assms(3) by simp
  with assms(4,5) show ?thesis by (auto simp: ws_watches.in_step_def domIff)
qed

theorem watched_sources_have_sockets_witness:
  "\<exists>k' b'. (k', b') = fold (coupled_step watchRemote unwatchRemote)
       [Watch ''pty'' ''view'', Watch ''pty'' ''chat'', Unwatch ''pty'' ''view'']
       ((new_kernel 0 :: nat kernel)\<lparr>bridge := True\<rparr>, new_bridge ''ws://host'' ''kernel'' None) \<and>
     watchers_of k' ''pty'' = [''chat''] \<and> map_of (conns b') ''pty'' \<noteq> None"
proof -
  let ?s = "fold (coupled_step watchRemote unwatchRemote)
       [Watch ''pty'' ''view'', Watch ''pty'' ''chat'', Unwatch ''pty'' ''view'']
       ((new_kernel 0 :: nat kernel)\<lparr>bridge := True\<rparr>, new_bridge ''ws://host'' ''kernel'' None)"
  obtain k' b' where s: "(k', b') = ?s" by (metis surj_pair)
  then have k': "k' = fst ?s" by (metis fst_conv)
  have w: "watchers_of k' ''pty'' = [''chat'']" "remote_src k' ''pty''" unfolding k'
    by (simp_all add: coupled_step_def watch_def unwatch_def watchers_of_def remote_src_def get_agent_def
        resolve_def bridge_call_def act_def new_kernel_def Let_def set_add_def set_del_def)
  with watched_sources_have_sockets [OF _ _ s w(2)] s show ?thesis
    by (intro exI [of _ k'] exI [of _ b']) (simp add: new_kernel_def)
qed

section \<open>The state stream is reference counted\<close>

definition handlers_inv :: "ws_bridge \<Rightarrow> bool" where
  "handlers_inv b =
     (conns_ok b \<and>
      (map_of (conns b) (controlEndpoint b) = None \<longrightarrow> stateHandlers b = []) \<and>
      (\<forall>a<length (conn_store b). endpoint (conn_store b ! a) = controlEndpoint b \<longrightarrow>
         \<not> closedByUs (conn_store b ! a) \<and>
         wantsState (conn_store b ! a) = (stateHandlers b \<noteq> []) \<and>
         onState (conn_store b ! a) = (stateHandlers b \<noteq> [])))"

definition steady :: "(conn \<Rightarrow> conn) \<Rightarrow> bool" where
  "steady f = (gentle f \<and> (\<forall>c. wantsState (f c) = wantsState c \<and> onState (f c) = onState c))"

lemma onState_sendFrame [simp]: "onState (fst (sendFrame env thr c)) = onState c"
  by (rule sendFrame_cases [of env thr c]) (simp_all add: effect_def)

lemma steady_ops: "steady (call_start t p g)" "steady (emit_frame p g thr)" "steady (add_lifecycle l)"
  by (simp_all add: steady_def gentle_ops call_start_def emit_frame_def add_lifecycle_def)

lemma handlers_on_conn: "handlers_inv b \<Longrightarrow> steady f \<Longrightarrow> handlers_inv (on_conn a f b)"
  unfolding handlers_inv_def
  by (auto simp: on_conn_ok steady_def on_conn_nth gentle_def)

lemma handlers_connFor: assumes "handlers_inv b" shows "handlers_inv (fst (connFor ep b))"
proof -
  have "conns_ok (fst (connFor ep b))"
    using assms connFor_ok [of b ep] by (cases "connFor ep b") (auto simp: handlers_inv_def)
  moreover have "map_of (conns b) ep = None \<Longrightarrow> ep = controlEndpoint b \<Longrightarrow> stateHandlers b = []"
    using assms by (simp add: handlers_inv_def)
  moreover have "wantsState (new_conn x y z) = False" "onState (new_conn x y z) = False"
    "closedByUs (new_conn x y z) = False" "endpoint (new_conn x y z) = x" for x y z
    by (simp_all add: new_conn_def connect_def arm_def effect_def)
  ultimately show ?thesis
    using assms unfolding handlers_inv_def
    by (auto simp: connFor_def Let_def nth_append less_Suc_eq split: option.splits)
qed

lemma handlers_route: "handlers_inv b \<Longrightarrow> handlers_inv (fst (route tg b))"
  by (auto simp: route_def handlers_connFor split: option.split)

lemma control_unique:
  assumes "handlers_inv b" "i < length (conn_store b)" "endpoint (conn_store b ! i) = controlEndpoint b"
  shows "map_of (conns b) (controlEndpoint b) = Some i"
  using assms conns_ok_open [of b i] by (auto simp: handlers_inv_def)

lemma platform_steady:
  assumes "conn_step e c = Some c'" "platform_event e"
  shows "wantsState c' = wantsState c \<and> onState c' = onState c"
  using assms
  by (cases e) (auto simp: platform_event_def onopen_def notify_def resolve_ready_def onclose_def
      rejectAll_def arm_def reconnect_def connect_def effect_def call_resume_def del_lifecycle_def
      onMessage_def on_reply_def Let_def
      split: if_splits option.splits list.splits outcome.splits json.splits)

lemma handlers_event:
  assumes "handlers_inv b" "bridge_conn_event a e b = Some b'" "platform_event e"
  shows "handlers_inv b'"
proof -
  from assms(2) obtain c where a: "a < length (conn_store b)" and c: "conn_step e (conn_store b ! a) = Some c"
    and b': "b' = on_conn a (\<lambda>_. c) b"
    by (auto simp: bridge_conn_event_def on_conn_def split: if_splits)
  have "conns_ok b'" using conn_event_ok [OF _ assms(2,3)] assms(1) by (simp add: handlers_inv_def)
  with assms(1) a endpoint_trans [OF conn_step_trans [OF c]] platform_closed [OF c assms(3)]
    platform_steady [OF c assms(3)] show ?thesis
    unfolding b' handlers_inv_def by (auto simp: on_conn_nth)
qed

lemma on_conn_handlers:
  "on_conn a f (b\<lparr>stateHandlers := hs\<rparr>) = (on_conn a f b)\<lparr>stateHandlers := hs\<rparr>"
  by (simp add: on_conn_def)

lemma handlers_keep:
  "handlers_inv b \<Longrightarrow> hs = [] \<longleftrightarrow> stateHandlers b = [] \<Longrightarrow> handlers_inv (b\<lparr>stateHandlers := hs\<rparr>)"
  by (simp add: handlers_inv_def)

lemma handlers_set:
  assumes "handlers_inv b" and m: "map_of (conns b) (controlEndpoint b) = Some a" and g: "gentle f"
    and f: "\<And>x. wantsState (f x) = on \<and> onState (f x) = on" and hs: "hs \<noteq> [] \<longleftrightarrow> on"
  shows "handlers_inv ((on_conn a f b)\<lparr>stateHandlers := hs\<rparr>)"
proof -
  have "conns_ok (on_conn a f b)" using assms(1) g by (simp add: handlers_inv_def on_conn_ok)
  moreover have "\<not> closedByUs (conn_store (on_conn a f b) ! i) \<and>
      wantsState (conn_store (on_conn a f b) ! i) = on \<and> onState (conn_store (on_conn a f b) ! i) = on"
    if "i < length (conn_store b)" "endpoint (conn_store (on_conn a f b) ! i) = controlEndpoint b" for i
  proof -
    have e: "endpoint (conn_store b ! i) = controlEndpoint b"
      using that g by (auto simp: on_conn_nth gentle_def split: if_splits)
    then have "i = a" using control_unique [OF assms(1) that(1)] m by simp
    moreover have "\<not> closedByUs (conn_store b ! i)" using assms(1) that(1) e by (simp add: handlers_inv_def)
    ultimately show ?thesis using that(1) g f by (simp add: on_conn_nth gentle_def)
  qed
  ultimately show ?thesis using m hs unfolding handlers_inv_def by simp
qed

lemma handlers_subscribe:
  assumes "handlers_inv b" shows "handlers_inv (fst (bridge_subscribeState h thr b))"
proof -
  obtain b1 a where c: "connFor (controlEndpoint b) b = (b1, a)" by (cases "connFor (controlEndpoint b) b")
  have i1: "handlers_inv b1" using handlers_connFor [OF assms, of "controlEndpoint b"] c by simp
  have ce: "controlEndpoint b1 = controlEndpoint b" using connFor_fields(1) [of "controlEndpoint b" b] c by simp
  have m: "map_of (conns b1) (controlEndpoint b1) = Some a"
    using connFor_ok [of b "controlEndpoint b" b1 a] c assms ce by (simp add: handlers_inv_def)
  have g: "gentle (setWantsState True thr \<circ> setStateSink True)" by (rule gentle_comp; rule gentle_ops)
  have "handlers_inv ((on_conn a (setWantsState True thr \<circ> setStateSink True) b1)\<lparr>stateHandlers := set_add h hs\<rparr>)" for hs
    by (rule handlers_set [OF i1 m g, of True]) (auto simp: setWantsState_def setStateSink_def)
  with handlers_keep [OF i1] show ?thesis
    by (auto simp: bridge_subscribeState_def c Let_def)
qed

lemma handlers_unsubscribe:
  assumes "handlers_inv b" "a < length (conn_store b)" "endpoint (conn_store b ! a) = controlEndpoint b"
  shows "handlers_inv (bridge_unsubscribeState h a thr b)"
proof -
  have m: "map_of (conns b) (controlEndpoint b) = Some a" using control_unique [OF assms] .
  have g: "gentle (setStateSink False \<circ> setWantsState False thr)" by (rule gentle_comp; rule gentle_ops)
  have "handlers_inv ((on_conn a (setStateSink False \<circ> setWantsState False thr) b)\<lparr>stateHandlers := []\<rparr>)"
    by (rule handlers_set [OF assms(1) m g, of False]) (auto simp: setWantsState_def setStateSink_def)
  moreover have "handlers_inv (b\<lparr>stateHandlers := set_del h (stateHandlers b)\<rparr>)"
    if "set_del h (stateHandlers b) \<noteq> []"
    using that by (intro handlers_keep [OF assms(1)]) (auto simp: set_del_def)
  ultimately show ?thesis
    by (auto simp: bridge_unsubscribeState_def Let_def on_conn_handlers)
qed

lemma handlers_unwatch:
  assumes "handlers_inv b" shows "handlers_inv (unwatchRemote src b)"
proof (cases "src = controlEndpoint b \<or> map_of (conns b) src = None")
  case False
  then obtain a where a: "map_of (conns b) src = Some a" by auto
  have ok: "conns_ok b" using assms by (simp add: handlers_inv_def)
  have "endpoint (conn_store b ! a) \<noteq> controlEndpoint b" using conns_okD(2) [OF ok a] False by simp
  with assms a False forget_ok [OF ok a] show ?thesis
    unfolding handlers_inv_def by (auto simp: unwatchRemote_def on_conn_nth)
qed (use assms in \<open>auto simp: unwatchRemote_def\<close>)

interpretation bridge_handlers: step_invariant bridge_step "\<lambda>e. e \<noteq> BClose" handlers_inv
proof
  fix b e b' assume inv: "handlers_inv b" and "e \<noteq> BClose" and step: "bridge_step e b = Some b'"
  then show "handlers_inv b'"
  proof (cases e)
    case (BConn a ce)
    with step handlers_event [OF inv] show ?thesis by (auto split: if_splits)
  qed (auto simp: forward_call_def bridge_emit_def watchRemote_def bridge_onLifecycle_def split_def Let_def
      split: if_splits
      intro!: handlers_on_conn handlers_route handlers_connFor steady_ops handlers_subscribe
        handlers_unsubscribe handlers_unwatch)
qed

text \<open>
  C24: the host's state stream is reference counted. Until the bridge is closed, the control
  connection asks for the stream, and routes its frames, exactly while at least one state handler
  is subscribed; without a control connection there is no handler.
\<close>

theorem state_stream_refcount:
  assumes "run_events bridge_step es (new_bridge org control md) = Some b" "BClose \<notin> set es"
  shows "case map_of (conns b) (controlEndpoint b) of
      None \<Rightarrow> stateHandlers b = []
    | Some a \<Rightarrow> wantsState (conn_store b ! a) = (stateHandlers b \<noteq> []) \<and>
        onState (conn_store b ! a) = (stateHandlers b \<noteq> [])"
proof -
  have "handlers_inv (new_bridge org control md)"
    using new_bridge_ok [of org control md] by (simp add: handlers_inv_def) (simp add: new_bridge_def)
  then have inv: "handlers_inv b"
    using bridge_handlers.run_inv [OF assms(1)] assms(2) by (auto simp: list_all_iff)
  show ?thesis
  proof (cases "map_of (conns b) (controlEndpoint b)")
    case None
    with inv show ?thesis by (simp add: handlers_inv_def)
  next
    case (Some a)
    with inv conns_okD [of b, OF _ Some] show ?thesis by (simp add: handlers_inv_def)
  qed
qed

theorem state_stream_refcount_witness:
  "\<exists>b. run_events bridge_step [BSubscribe 1 False, BSubscribe 2 False, BUnsubscribe 1 0 False]
      (new_bridge ''ws://host/'' ''kernel'' None) = Some b \<and>
    map_of (conns b) ''kernel'' = Some 0 \<and> wantsState (conn_store b ! 0)"
proof -
  obtain b where b: "run_events bridge_step [BSubscribe 1 False, BSubscribe 2 False, BUnsubscribe 1 0 False]
      (new_bridge ''ws://host/'' ''kernel'' None) = Some b" "map_of (conns b) (controlEndpoint b) = Some 0"
    "controlEndpoint b = ''kernel''" "stateHandlers b = [2]"
    by (simp add: new_bridge_def bridge_subscribeState_def bridge_unsubscribeState_def connFor_def Let_def
        on_conn_def set_add_def set_del_def setStateSink_def setWantsState_def new_conn_def connect_def
        arm_def effect_def sendFrame_def)
  with state_stream_refcount [OF b(1)] show ?thesis by auto
qed

end
