(* ===== verification/Federation.thy ===== *)
theory Federation
  imports Kernel_Run Conn_Props Ws_Bridge
begin

text \<open>
  The kernel, its bridge and the sockets together. What an operation of the kernel asks of \<^verbatim>\<open>this.bridge\<close>
  (\<^verbatim>\<open>ts/src/kernel/kernel.ts\<close>) is performed by the bridge at once and in order, and what a connection hands to \<^verbatim>\<open>onEvent\<close>
  is emitted by the kernel (\<^verbatim>\<open>ts/src/transport/bridge.ts\<close>, \<^verbatim>\<open>connFor\<close>). The steps are the operations of the kernel, the
  events of the sockets and the closures the bridge has given out. A listener the kernel calls acts through later steps.
  The theorems say that calls are neither lost nor answered twice on their way, that a call is answered with the reply to
  it, and that what a watched agent of the host emits reaches every watcher.
\<close>

section \<open>The composed system\<close>

record federation =
  fd_kernel :: "bundle_fn kernel"
  fd_bridge :: ws_bridge
  fd_next :: nat

text \<open>
  The bridge's part of one action of the kernel. \<open>fd_next\<close> numbers the promises of forwarded calls; the flag says whether
  \<^verbatim>\<open>ws.send\<close> throws.
\<close>

fun bridge_perform :: "action \<Rightarrow> bool \<Rightarrow> ws_bridge \<times> nat \<Rightarrow> ws_bridge \<times> nat" where
  "bridge_perform (Forward i p) thr (b, n) = (forward_call i p n b, Suc n)"
| "bridge_perform (ForwardBinary i p) thr (b, n) = (forward_call i p n b, Suc n)"
| "bridge_perform (EmitRemote i p) thr (b, n) = (bridge_emit i p thr b, n)"
| "bridge_perform (WatchRemote src) thr (b, n) = (watchRemote src b, n)"
| "bridge_perform (UnwatchRemote src) thr (b, n) = (unwatchRemote src b, n)"
| "bridge_perform (OnLifecycle ep fn) thr (b, n) = (bridge_onLifecycle ep fn b, n)"
| "bridge_perform (SubscribeState fn) thr (b, n) = (fst (bridge_subscribeState fn thr b), n)"
| "bridge_perform _ thr (b, n) = (b, n)"

fun bridge_performs :: "action list \<Rightarrow> bool list \<Rightarrow> ws_bridge \<times> nat \<Rightarrow> ws_bridge \<times> nat" where
  "bridge_performs [] thrs s = s"
| "bridge_performs (x # xs) thrs s = bridge_performs xs (tl thrs) (bridge_perform x (thrs \<noteq> [] \<and> hd thrs) s)"

text \<open>\<^verbatim>\<open>(src, payload) => this.kernel.emit(src, payload)\<close>; the payload of an event is a plain object.\<close>

fun hear :: "effect \<Rightarrow> 'h kernel \<Rightarrow> 'h kernel" where
  "hear (OnEvent src (JObj p)) k = emit src p k"
| "hear _ k = k"

datatype fed_event =
    FKernel kernel_event "bool list"
  | FSocket nat conn_event
  | FUnsubscribe nat nat bool
  | FClose

definition new_actions :: "'h kernel \<Rightarrow> 'h kernel \<Rightarrow> action list" where
  "new_actions k k' = drop (length (trace k)) (trace k')"

definition new_effects :: "nat \<Rightarrow> ws_bridge \<Rightarrow> ws_bridge \<Rightarrow> effect list" where
  "new_effects a b b' = drop (length (effects (conn_store b ! a))) (effects (conn_store b' ! a))"

fun fed_step :: "fed_event \<Rightarrow> federation \<Rightarrow> federation option" where
  "fed_step (FKernel e thrs) s =
     (case kernel_step e (fd_kernel s) of
        None \<Rightarrow> None
      | Some k \<Rightarrow>
          (let (b, n) = bridge_performs (new_actions (fd_kernel s) k) thrs (fd_bridge s, fd_next s)
           in Some \<lparr>fd_kernel = k, fd_bridge = b, fd_next = n\<rparr>))"
| "fed_step (FSocket a e) s =
     (case bridge_step (BConn a e) (fd_bridge s) of
        None \<Rightarrow> None
      | Some b \<Rightarrow> Some (s\<lparr>fd_bridge := b, fd_kernel := fold hear (new_effects a (fd_bridge s) b) (fd_kernel s)\<rparr>))"
| "fed_step (FUnsubscribe h a thr) s = map_option (\<lambda>b. s\<lparr>fd_bridge := b\<rparr>) (bridge_step (BUnsubscribe h a thr) (fd_bridge s))"
| "fed_step FClose s = map_option (\<lambda>b. s\<lparr>fd_bridge := b\<rparr>) (bridge_step BClose (fd_bridge s))"

definition new_federation :: "int \<Rightarrow> string \<Rightarrow> string \<Rightarrow> nat option \<Rightarrow> federation" where
  "new_federation now org control md =
     \<lparr>fd_kernel = (new_kernel now)\<lparr>bridge := True\<rparr>, fd_bridge = new_bridge org control md, fd_next = 0\<rparr>"

section \<open>Calls across the sockets\<close>

text \<open>Every promise given out, wherever its call is: waiting for its socket, sent and unanswered, or settled.\<close>

definition bridge_ledger :: "ws_bridge \<Rightarrow> nat multiset" where
  "bridge_ledger b = sum_list (map call_ledger (conn_store b))"

definition calls_inv :: "ws_bridge \<times> nat \<Rightarrow> bool" where
  "calls_inv s = (conns_ok (fst s) \<and> bridge_ledger (fst s) = mset [0..<snd s])"

lemma ledger_on_conn:
  assumes "a < length (conn_store b)" "call_ledger (f (conn_store b ! a)) = call_ledger (conn_store b ! a) + M"
  shows "bridge_ledger (on_conn a f b) = bridge_ledger b + M"
proof -
  have "sum_list (map call_ledger (xs[a := y])) = sum_list (map call_ledger xs) + M"
    if "a < length xs" "call_ledger y = call_ledger (xs ! a) + M" for xs :: "conn list" and y
    using that by (induction xs arbitrary: a) (auto simp: ac_simps split: nat.split)
  with assms show ?thesis by (simp add: bridge_ledger_def on_conn_def)
qed

lemma ledger_connFor [simp]: "bridge_ledger (fst (connFor ep b)) = bridge_ledger b"
proof -
  have "call_ledger (new_conn x y z) = {#}" for x y z
    by (simp add: new_conn_def connect_def arm_def effect_def call_ledger_def)
  then show ?thesis by (auto simp: connFor_def Let_def bridge_ledger_def split: option.split)
qed

lemma ledger_route [simp]: "bridge_ledger (fst (route tg b)) = bridge_ledger b"
  by (auto simp: route_def split: option.split)

text \<open>Operations on one connection that move no call.\<close>

definition callless :: "(conn \<Rightarrow> conn) \<Rightarrow> bool" where
  "callless f = (\<forall>c. conn_inv c \<longrightarrow> conn_inv (f c) \<and> call_ledger (f c) = call_ledger c)"

lemma callless_trans: "(\<And>c. conn_trans None c (f c)) \<Longrightarrow> callless f"
  using conn_inv_trans call_ledger_trans unfolding callless_def by fastforce

lemma callless_comp: "callless f \<Longrightarrow> callless g \<Longrightarrow> callless (f \<circ> g)"
  by (simp add: callless_def)

lemma callless_ops:
  "callless (emit_frame p g thr)" "callless (add_lifecycle l)" "callless (setStateSink on)" "callless (setWantsState on thr)"
  "callless close_conn"
proof -
  show "callless (emit_frame p g thr)" by (rule callless_trans) (simp add: emit_frame_def sendFrame_trans)
  show "callless (setWantsState on thr)" by (rule callless_trans) (rule setWantsState_trans)
  show "callless close_conn" by (rule callless_trans) (rule conn_trans.Shut)
  show "callless (add_lifecycle l)"
    by (rule callless_trans) (use conn_step_trans [of "AddLifecycle l"] in \<open>simp add: call_label_def\<close>)
  show "callless (setStateSink on)"
    by (rule callless_trans) (use conn_step_trans [of "SetSink on"] in \<open>simp add: call_label_def\<close>)
qed

lemma ledger_callless:
  "conns_ok b \<Longrightarrow> a < length (conn_store b) \<Longrightarrow> callless f \<Longrightarrow> bridge_ledger (on_conn a f b) = bridge_ledger b"
  using ledger_on_conn [of a b f "{#}"] by (simp add: callless_def conns_ok_def)

lemma ledger_fields [simp]:
  "bridge_ledger (b\<lparr>conns := x\<rparr>) = bridge_ledger b" "bridge_ledger (b\<lparr>stateHandlers := h\<rparr>) = bridge_ledger b"
  by (simp_all add: bridge_ledger_def)

lemma ledger_close_all:
  assumes "\<forall>c\<in>set (conn_store b). conn_inv c" "\<forall>x\<in>set xs. snd x < length (conn_store b)"
  shows "bridge_ledger (fold (\<lambda>(_, a). on_conn a close_conn) xs b) = bridge_ledger b"
  using assms
proof (induction xs arbitrary: b)
  case (Cons x xs)
  obtain ep a where x: "x = (ep, a)" by (cases x)
  have a: "a < length (conn_store b)" "conn_inv (conn_store b ! a)" using Cons.prems x by simp_all
  then have "bridge_ledger (on_conn a close_conn b) = bridge_ledger b"
    using ledger_on_conn [of a b close_conn "{#}"] callless_ops(5) by (simp add: callless_def)
  moreover have "\<forall>c\<in>set (conn_store (on_conn a close_conn b)). conn_inv c"
    using Cons.prems(1) a by (auto simp: on_conn_def dest: set_update_subset_insert [THEN subsetD])
  ultimately show ?case using Cons.IH [of "on_conn a close_conn b"] Cons.prems(2) x by simp
qed simp

definition issued_promise :: "bridge_event \<Rightarrow> nat multiset" where
  "issued_promise e = (case e of BForward _ _ t \<Rightarrow> {#t#} | _ \<Rightarrow> {#})"

lemma connFor_obtain:
  assumes "conns_ok b"
  obtains b1 a where "connFor ep b = (b1, a)" "conns_ok b1" "a < length (conn_store b1)" "bridge_ledger b1 = bridge_ledger b"
  using connFor_ok [OF assms] connFor_length [OF _ assms] ledger_connFor [of ep b] by (cases "connFor ep b") fastforce

lemma route_obtain:
  assumes "conns_ok b"
  obtains b1 a where "route tg b = (b1, a)" "conns_ok b1" "a < length (conn_store b1)" "bridge_ledger b1 = bridge_ledger b"
  using route_ok [OF assms] conns_okD(1) ledger_route [of tg b] by (cases "route tg b") fastforce

lemma bridge_step_ledger:
  assumes ok: "conns_ok b" and st: "bridge_step e b = Some b'"
  shows "bridge_ledger b' = bridge_ledger b + issued_promise e"
proof (cases e)
  case (BForward tg p t)
  obtain b1 a where r: "route tg b = (b1, a)" "a < length (conn_store b1)" "bridge_ledger b1 = bridge_ledger b"
    using route_obtain [OF ok] by metis
  have "call_ledger (call_start t p tg c) = call_ledger c + {#t#}" for c by (simp add: call_ledger_def call_start_def)
  with ledger_on_conn [OF r(2)] r st BForward show ?thesis by (auto simp: forward_call_def issued_promise_def)
next
  case (BEmit tg p thr)
  obtain b1 a where "route tg b = (b1, a)" "conns_ok b1" "a < length (conn_store b1)" "bridge_ledger b1 = bridge_ledger b"
    using route_obtain [OF ok] by metis
  with st BEmit show ?thesis by (auto simp: bridge_emit_def issued_promise_def ledger_callless callless_ops)
next
  case (BLifecycle ep fn)
  obtain b1 a where "connFor ep b = (b1, a)" "conns_ok b1" "a < length (conn_store b1)" "bridge_ledger b1 = bridge_ledger b"
    using connFor_obtain [OF ok] by metis
  with st BLifecycle show ?thesis by (auto simp: bridge_onLifecycle_def issued_promise_def ledger_callless callless_ops)
next
  case (BSubscribe h thr)
  obtain b1 a where "connFor (controlEndpoint b) b = (b1, a)" "conns_ok b1" "a < length (conn_store b1)" "bridge_ledger b1 = bridge_ledger b"
    using connFor_obtain [OF ok] by metis
  with st BSubscribe show ?thesis
    by (auto simp: bridge_subscribeState_def issued_promise_def ledger_callless callless_ops callless_comp Let_def)
next
  case (BUnsubscribe h a thr)
  with st ok show ?thesis
    by (auto simp: bridge_unsubscribeState_def issued_promise_def ledger_callless callless_ops callless_comp on_conn_handlers Let_def
      split: if_splits)
next
  case (BUnwatch src)
  with st ok conns_okD(1) [OF ok] show ?thesis
    by (auto simp: unwatchRemote_def issued_promise_def ledger_callless callless_ops split: option.splits)
next
  case BClose
  have "\<forall>x\<in>set (conns b). snd x < length (conn_store b)"
    using ok conns_okD(1) [OF ok] by (auto simp: conns_ok_def map_of_Some_iff)
  with st BClose ok ledger_close_all [of b "conns b"] show ?thesis by (auto simp: close_bridge_def issued_promise_def conns_ok_def)
next
  case (BConn a ce)
  then obtain c where a: "a < length (conn_store b)" and c: "conn_step ce (conn_store b ! a) = Some c" "platform_event ce"
    and b': "b' = on_conn a (\<lambda>_. c) b"
    using st by (auto simp: bridge_conn_event_def on_conn_def split: if_splits)
  have "conn_inv (conn_store b ! a)" using ok a by (simp add: conns_ok_def)
  from conn_calls.ledger_step [OF this _ c(1)] c(2) ledger_on_conn [OF a, of "\<lambda>_. c" "{#}"] show ?thesis
    by (auto simp: b' BConn issued_promise_def issued_call_def platform_event_def split: conn_event.splits)
qed (use st in \<open>auto simp: watchRemote_def issued_promise_def\<close>)

interpretation bridge_calls: step_ledger bridge_step "\<lambda>_. True" conns_ok issued_promise bridge_ledger
  by unfold_locales (rule bridge_step_ledger)

section \<open>Watches across the composition\<close>

text \<open>
  A kernel operation that watches nothing new and lets no socket go: whoever is still watched at a remote source was
  watched there before, and the bridge is not asked to unwatch.
\<close>

definition adds :: "action list \<Rightarrow> action list \<Rightarrow> bool" where
  "adds tr tr' \<longleftrightarrow> (\<exists>xs. tr' = tr @ xs \<and> (\<forall>src. UnwatchRemote src \<notin> set xs))"

lemma adds_simps [simp]: "adds tr tr" "adds tr (tr @ xs) \<longleftrightarrow> (\<forall>src. UnwatchRemote src \<notin> set xs)"
  by (auto simp: adds_def)

lemma adds_trans: assumes "adds tr tr1" "adds tr1 tr2" shows "adds tr tr2"
proof -
  from assms obtain xs ys where "tr2 = tr @ (xs @ ys)" "\<forall>src. UnwatchRemote src \<notin> set (xs @ ys)" by (auto simp: adds_def)
  then show ?thesis unfolding adds_def by blast
qed

lemma adds_publish: "trace k' = tr \<Longrightarrow> adds tr (trace (publishState e k'))"
  by auto

definition tame :: "'h kernel \<Rightarrow> 'h kernel \<Rightarrow> bool" where
  "tame k k' \<longleftrightarrow> bridge k' = bridge k \<and> adds (trace k) (trace k') \<and>
     (\<forall>src. remote_src k' src \<longrightarrow> watchers_of k' src \<noteq> [] \<longrightarrow>
        remote_src k src \<and> watchers_of k' src = watchers_of k src)"

lemma tame_refl [simp]: "tame k k"
  by (simp add: tame_def)

lemma tame_trans: "tame k k1 \<Longrightarrow> tame k1 k2 \<Longrightarrow> tame k k2"
  unfolding tame_def by (metis adds_trans)

lemma remote_src_cong: "agents k' = agents k \<Longrightarrow> store k' = store k \<Longrightarrow> remote_src k' src = remote_src k src"
  by (simp add: remote_src_def get_agent_def)

lemma watchers_of_cong: "watchers k' = watchers k \<Longrightarrow> watchers_of k' src = watchers_of k src"
  by (simp add: watchers_of_def)

lemma tame_frame:
  assumes "bridge k' = bridge k" "agents k' = agents k" "store k' = store k" "watchers k' = watchers k" "adds (trace k) (trace k')"
  shows "tame k k'"
  unfolding tame_def using remote_src_cong [of k' k] watchers_of_cong [of k' k] assms by simp

lemma tame_emit: "tame k (emit i p k)"
  by (rule tame_frame) (simp_all only: trace_emit adds_simps, auto simp: emit_def Let_def)

lemma remote_updateMeta:
  assumes "addresses_ok k"
  shows "remote_src (fst (updateMeta i patch k)) src = remote_src k src"
proof (cases "get_agent k i")
  case None
  then have "updateMeta i patch k = (k, None)" by (simp add: updateMeta_def get_agent_def)
  then show ?thesis by simp
next
  case (Some a)
  from updateMeta_get [OF assms this] Some show ?thesis by (simp add: remote_src_def)
qed

lemma tame_updateMeta:
  assumes "addresses_ok k" shows "tame k (fst (updateMeta i patch k))"
proof (cases "map_of (agents k) i")
  case None
  then show ?thesis by (simp add: updateMeta_def)
next
  case (Some a)
  have "watchers (fst (updateMeta i patch k)) = watchers k" "bridge (fst (updateMeta i patch k)) = bridge k"
    "adds (trace k) (trace (fst (updateMeta i patch k)))"
    using Some by (simp_all add: updateMeta_def Let_def adds_publish del: trace_publishState)
  then show ?thesis using remote_updateMeta [OF assms] by (simp add: tame_def watchers_of_def)
qed

lemma tame_set_content: "addresses_ok k \<Longrightarrow> tame k (fst (set_content i key s k))"
  using tame_trans [OF tame_updateMeta tame_emit] by (simp add: set_content_def)

lemma tame_run_bundle: "addresses_ok k \<Longrightarrow> tame k (fst (run_bundle h i p k))"
  by (cases h) (simp_all add: glAgent_def htmlAgent_def Let_def tame_set_content)

lemma tame_act: "(\<And>src. x \<noteq> UnwatchRemote src) \<Longrightarrow> tame k (act x k)"
  by (rule tame_frame) (auto simp: act_def)

lemma tame_bridge_call: "(\<And>src. x \<noteq> UnwatchRemote src) \<Longrightarrow> tame k (bridge_call x k)"
  by (simp add: bridge_call_def tame_act)

lemma tame_send: assumes "addresses_ok k" shows "tame k (fst (send n run_bundle target p k))"
proof -
  have "tame k k1" if "run_bundle h i p k = (k1, r)" for h i p k1 r
    using tame_run_bundle [OF assms, of h i p] that by simp
  then show ?thesis by (auto simp: send_def Let_def tame_act split: option.split prod.split)
qed

lemma adds_register: "adds (trace k) (trace (register ag k))"
  by (auto simp: register_def Let_def link_child_def intro!: adds_publish simp del: trace_publishState split: option.split)

lemma tame_register:
  assumes "kernel_wf k" "register_ok ag k" shows "tame k (register ag k)"
proof -
  have ad: "addresses_ok k" using assms(1) by (simp add: kernel_wf_def)
  have "remote_src k src" if r: "remote_src (register ag k) src" for src
  proof (cases "map_of (agents k) src")
    case (Some a)
    then have "a < length (store k)" "src \<noteq> ag_id ag" using ad assms(2) by (auto simp: addresses_ok_def register_ok_def)
    with r Some register_lookup(3) [OF ad assms(2), of a] show ?thesis
      by (auto simp: remote_src_def get_agent_def split: if_splits)
  qed (simp add: remote_src_def get_agent_def)
  then show ?thesis using adds_register [of k ag] by (simp add: tame_def watchers_of_def)
qed

text \<open>Removal forgets the watches of what it removes, and no others.\<close>

lemma detach_watch: "watchers (detach i a k) = AList.delete i (watchers k)" "adds (trace k) (trace (detach i a k))"
  by (auto simp: detach_def Let_def unlink_child_def intro!: adds_publish simp del: trace_publishState split: option.split)

lemma removes_watch:
  assumes "removes n ids k = Some k'"
  shows "adds (trace k) (trace k') \<and>
    (\<forall>src. watchers_of k' src \<noteq> [] \<longrightarrow> watchers_of k' src = watchers_of k src \<and>
       (map_of (agents k') src = None \<longrightarrow> map_of (agents k) src = None))"
  using assms
proof (induction n ids k arbitrary: k' rule: removes.induct)
  case (3 n i ids k)
  show ?case
  proof (cases "map_of (agents k) i")
    case None
    then have "removes (Suc n) ids k = Some k'" using "3.prems" by simp
    with "3.IH"(1) [OF None] show ?thesis by blast
  next
    case (Some a)
    with "3.prems" obtain k1 where k1: "removes n (map fst (children (store k ! a))) k = Some k1"
      "removes (Suc n) ids (detach i a k1) = Some k'" by (auto split: option.splits)
    have d: "watchers_of (detach i a k1) src = (if src = i then [] else watchers_of k1 src)"
      "map_of (agents (detach i a k1)) src = (if src = i then None else map_of (agents k1) src)" for src
      by (auto simp: watchers_of_def detach_watch map_of_filter_fst split: option.split)
    note IH = "3.IH"(2) [OF Some k1(1)] and IH' = "3.IH"(3) [OF Some k1(1) k1(2)]
    show ?thesis using IH IH' d adds_trans [OF adds_trans [OF _ detach_watch(2)]] by (metis (full_types))
  qed
qed simp_all

lemma tame_remove:
  assumes wf: "kernel_wf k" and r: "remove (length (agents k)) i k = Some (k', b)"
  shows "tame k k'"
proof (cases "map_of (agents k) i")
  case None
  with r show ?thesis by (simp add: remove_def)
next
  case (Some a)
  have ad: "addresses_ok k" using wf by (simp add: kernel_wf_def)
  from Some remove_removed [OF wf, of i "length (agents k)"] r obtain js where d: "removed k k' (subtree (tree k) i) js" by auto
  have w: "adds (trace k) (trace k')" "watchers_of k' src \<noteq> [] \<Longrightarrow> watchers_of k' src = watchers_of k src \<and>
       (map_of (agents k') src = None \<longrightarrow> map_of (agents k) src = None)" for src
    using removes_watch [of "length (agents k)" "[i]" k k'] r Some by (auto simp: remove_def)
  have "remote_src k src" if "remote_src k' src" "watchers_of k' src \<noteq> []" for src
  proof (cases "map_of (agents k') src")
    case None
    then show ?thesis using w(2) [OF that(2)] by (simp add: remote_src_def get_agent_def)
  next
    case (Some a)
    then have "src \<notin> subtree (tree k) i" using removedD(2) [OF d] by (auto simp: map_of_filter_fst split: if_splits)
    from removed_get_agent [OF d ad this] Some obtain c where "map_of (agents k) src = Some c"
      "(store k' ! a)\<lparr>children := []\<rparr> = (store k ! c)\<lparr>children := []\<rparr>" 
      by (cases "map_of (agents k) src") (simp_all add: get_agent_def)
    with that(1) Some same_core(5) [of "store k' ! a" "store k ! c"] show ?thesis by (simp add: remote_src_def get_agent_def)
  qed
  with w d show ?thesis by (simp add: tame_def removed_def)
qed

lemma builds_watch:
  "builds n ch rs pid k = Some k' \<Longrightarrow> watchers k' = watchers k \<and> bridge k' = bridge k \<and> adds (trace k) (trace k')"
proof (induction n ch rs pid k arbitrary: k' rule: builds.induct)
  case (3 n ch r rs pid k)
  have b: "watchers (build_node r pid k) = watchers k" "bridge (build_node r pid k) = bridge k" "adds (trace k) (trace (build_node r pid k))"
    by (simp_all add: build_node_def Let_def adds_register)
  have s: "watchers (act (skip_warning r) k) = watchers k" "bridge (act (skip_warning r) k) = bridge k" "adds (trace k) (trace (act (skip_warning r) k))"
    by (simp_all add: act_def skip_warning_def)
  show ?case
  proof (cases "bundle_installed k r")
    case True
    with "3.prems" obtain k1 where k1: "builds n ch (child_records ch (rec_id r)) (Some (rec_id r)) (build_node r pid k) = Some k1"
      "builds (Suc n) ch rs pid k1 = Some k'" by (auto split: option.splits)
    from "3.IH"(2) [OF _ k1(1)] "3.IH"(3) [OF _ k1] True b show ?thesis by (auto intro: adds_trans)
  next
    case False
    with "3.prems" have "builds (Suc n) ch rs pid (act (skip_warning r) k) = Some k'" by simp
    from "3.IH"(1) [OF False this] s show ?thesis by (auto intro: adds_trans)
  qed
qed simp_all

lemma tame_load:
  assumes "load n snap k = Inr k'" shows "tame k k'"
proof -
  have "watchers k' = [] \<and> bridge k' = bridge k \<and> adds (trace k) (trace k')"
    using assms builds_watch [of n _ _ None "clear_tree k" k']
    by (auto simp: load_def Let_def clear_tree_def split: sum.splits option.splits prod.splits)
  then show ?thesis by (simp add: tame_def watchers_of_def)
qed

lemma tame_settings:
  "tame k (registerBundle hm h k)" "tame k (setBundleReadme hm rd k)" "tame k (onInbox i l k)" "tame k (offInbox i l k)"
  "tame k (addStateSubscriber cb k)" "tame k (removeStateSubscriber cb k)"
  by (rule tame_frame; simp add: registerBundle_def setBundleReadme_def onInbox_def offInbox_def
      addStateSubscriber_def removeStateSubscriber_def split: option.split)+

lemma tame_step:
  assumes wf: "kernel_wf k" and st: "kernel_step e k = Some k'" and e: "\<And>src w. e \<noteq> KWatch src w \<and> e \<noteq> KUnwatch src w"
  shows "tame k k'"
proof -
  have ad: "addresses_ok k" using wf by (simp add: kernel_wf_def)
  show ?thesis
  proof (cases e)
    case (KSetRoot ag)
    have "tame k1 (k1\<lparr>rootId := r\<rparr>)" for k1 :: "bundle_fn kernel" and r by (rule tame_frame) simp_all
    with KSetRoot st tame_register [OF wf, of ag] show ?thesis by (auto simp: setRoot_def Let_def split: if_splits intro: tame_trans)
  next
    case (KLoad s)
    with st show ?thesis by (auto split: sum.splits kernel_error.splits intro: tame_load)
  qed (use st e wf in \<open>auto simp: tame_settings tame_updateMeta [OF ad] tame_send [OF ad] tame_emit callHost_def forwardBinary_def
      emitRemote_def onLifecycle_def subscribeState_def tame_act tame_bridge_call tame_register tame_remove split: if_splits\<close>)
qed

section \<open>The invariants of the composition\<close>

lemma bridge_step_calls:
  assumes "calls_inv (b, n)" "bridge_step e b = Some b'" "issued_promise e = {#}"
  shows "calls_inv (b', n)"
  using assms bridge_conns.inv_step [of b e b'] bridge_step_ledger [of b e b'] by (simp add: calls_inv_def)

lemma bridge_perform_calls: assumes "calls_inv (b, n)" shows "calls_inv (bridge_perform x thr (b, n))"
proof -
  have fwd: "calls_inv (forward_call i p n b, Suc n)" for i p
    using assms bridge_conns.inv_step [of b "BForward i p n"] bridge_step_ledger [of b "BForward i p n"]
    by (simp add: calls_inv_def issued_promise_def)
  note other = bridge_step_calls [OF assms]
  show ?thesis
    using assms fwd other [of "BEmit i p thr" for i p] other [of "BWatch src" for src] other [of "BUnwatch src" for src]
      other [of "BLifecycle ep fn" for ep fn] other [of "BSubscribe fn thr" for fn]
    by (cases x) (simp_all add: issued_promise_def)
qed

lemma bridge_performs_calls: "calls_inv s \<Longrightarrow> calls_inv (bridge_performs xs thrs s)"
proof (induction xs thrs s rule: bridge_performs.induct)
  case (2 x xs thrs s)
  then show ?case using bridge_perform_calls [of "fst s" "snd s"] by simp
qed simp

lemma connFor_dom: "dom (map_of (conns b)) \<subseteq> dom (map_of (conns (fst (connFor ep b))))"
  by (auto simp: connFor_def Let_def split: option.split)

lemma route_dom: "dom (map_of (conns b)) \<subseteq> dom (map_of (conns (fst (route tg b))))"
  using connFor_dom [of b "controlEndpoint b"] by (auto simp: route_def split: option.split)

lemma bridge_perform_dom:
  assumes "\<forall>src. x \<noteq> UnwatchRemote src"
  shows "dom (map_of (conns b)) \<subseteq> dom (map_of (conns (fst (bridge_perform x thr (b, n)))))"
  using connFor_dom [of b] route_dom [of b] assms
  by (cases x) (simp_all add: forward_call_def bridge_emit_def watchRemote_def bridge_onLifecycle_def
      bridge_subscribeState_def split_def Let_def)

lemma bridge_performs_dom:
  "\<forall>src. UnwatchRemote src \<notin> set xs \<Longrightarrow> dom (map_of (conns (fst s))) \<subseteq> dom (map_of (conns (fst (bridge_performs xs thrs s))))"
proof (induction xs thrs s rule: bridge_performs.induct)
  case (2 x xs thrs s)
  have "dom (map_of (conns (fst s))) \<subseteq> dom (map_of (conns (fst (bridge_perform x (thrs \<noteq> [] \<and> hd thrs) s))))"
    using bridge_perform_dom [of x "fst s" _ "snd s"] "2.prems" by (metis list.set_intros(1) prod.collapse)
  with 2 show ?case by (metis (no_types, lifting) dual_order.trans list.set_intros(2) bridge_performs.simps(2))
qed simp

definition fed_sound :: "federation \<Rightarrow> bool" where
  "fed_sound s = (kernel_wf (fd_kernel s) \<and> bridge (fd_kernel s) \<and> calls_inv (fd_bridge s, fd_next s))"

lemma hear_quiet: "quiet_step k (fold hear es k) \<and> tame k (fold hear es k)"
proof (induction es arbitrary: k)
  case (Cons e es)
  have "quiet_step k (hear e k) \<and> tame k (hear e k)" by (cases "(e, k)" rule: hear.cases) (simp_all add: quiet_emit tame_emit)
  with Cons [of "hear e k"] show ?case by (auto intro: quiet_trans tame_trans)
qed simp

lemma watch_bridge [simp]: "bridge (watch src w k) = bridge k" "bridge (unwatch src w k) = bridge k"
  by (auto simp: watch_def unwatch_def Let_def split: option.split)

lemma step_bridge: "kernel_wf k \<Longrightarrow> kernel_step e k = Some k' \<Longrightarrow> bridge k' = bridge k"
  using tame_step [of k e k'] by (cases e) (auto simp: tame_def)

interpretation fed_run: step_invariant fed_step "\<lambda>_. True" fed_sound
proof
  fix s e s' assume inv: "fed_sound s" and st: "fed_step e s = Some s'"
  note i = inv [unfolded fed_sound_def]
  show "fed_sound s'"
  proof (cases e)
    case (FKernel ke thrs)
    then obtain k b n where k: "kernel_step ke (fd_kernel s) = Some k"
      "bridge_performs (new_actions (fd_kernel s) k) thrs (fd_bridge s, fd_next s) = (b, n)" "s' = \<lparr>fd_kernel = k, fd_bridge = b, fd_next = n\<rparr>"
      using st by (auto split: option.splits prod.splits)
    with i kernel_step_sim [of "fd_kernel s"] step_bridge bridge_performs_calls [of "(fd_bridge s, fd_next s)"] show ?thesis
      by (metis fed_sound_def federation.select_convs)
  next
    case (FSocket a ce)
    then obtain b where b: "bridge_step (BConn a ce) (fd_bridge s) = Some b"
      "s' = s\<lparr>fd_bridge := b, fd_kernel := fold hear (new_effects a (fd_bridge s) b) (fd_kernel s)\<rparr>"
      using st by (auto split: option.splits simp del: bridge_step.simps)
    have "calls_inv (b, fd_next s)" using bridge_step_calls [OF _ b(1)] i by (simp add: issued_promise_def)
    with i b(2) quiet_step_ok hear_quiet show ?thesis by (auto simp: fed_sound_def tame_def)
  next
    case (FUnsubscribe h a thr)
    then obtain b where b: "bridge_step (BUnsubscribe h a thr) (fd_bridge s) = Some b" "s' = s\<lparr>fd_bridge := b\<rparr>"
      using st by (auto simp del: bridge_step.simps)
    with bridge_step_calls [OF _ b(1)] i show ?thesis by (simp add: fed_sound_def issued_promise_def)
  next
    case FClose
    then obtain b where b: "bridge_step BClose (fd_bridge s) = Some b" "s' = s\<lparr>fd_bridge := b\<rparr>"
      using st by (auto simp del: bridge_step.simps)
    with bridge_step_calls [OF _ b(1)] i show ?thesis by (simp add: fed_sound_def issued_promise_def)
  qed
qed

text \<open>Every remote source somebody watches has a registered connection.\<close>

definition watched :: "federation \<Rightarrow> bool" where
  "watched s = (\<forall>src. remote_src (fd_kernel s) src \<longrightarrow> watchers_of (fd_kernel s) src \<noteq> [] \<longrightarrow>
     map_of (conns (fd_bridge s)) src \<noteq> None)"

lemma watched_tame:
  assumes "watched s" "tame (fd_kernel s) (fd_kernel s')" "dom (map_of (conns (fd_bridge s))) \<subseteq> dom (map_of (conns (fd_bridge s')))"
  shows "watched s'"
  using assms by (auto simp: watched_def tame_def domIff subset_iff)

lemma new_actions_tame: "tame k k' \<Longrightarrow> \<forall>src. UnwatchRemote src \<notin> set (new_actions k k')"
  by (auto simp: tame_def adds_def new_actions_def)

lemma watch_dials:
  assumes "watched s" "bridge (fd_kernel s)" "fed_step (FKernel (KWatch src w) thrs) s = Some s'"
  shows "watched s'"
proof -
  let ?k = "fd_kernel s" and ?i = "resolve (fd_kernel s) src"
  have r: "remote_src (watch src w ?k) x = remote_src ?k x" for x
    by (rule remote_src_cong) (simp_all add: watch_def Let_def)
  have wo: "watchers_of (watch src w ?k) x = (if x = ?i then set_add w (watchers_of ?k x) else watchers_of ?k x)" for x
    by (simp add: watch_def Let_def watchers_of_def split: option.split)
  have "new_actions ?k (watch src w ?k) = (if remote_src ?k ?i \<and> watchers_of ?k ?i = [] then [WatchRemote ?i] else [])"
    using assms(2) remote_src_cong [of "?k\<lparr>watchers := x\<rparr>" ?k for x]
    by (simp add: new_actions_def watch_def Let_def bridge_call_def act_def)
  then have "fd_kernel s' = watch src w ?k"
    "fd_bridge s' = (if remote_src ?k ?i \<and> watchers_of ?k ?i = [] then watchRemote ?i (fd_bridge s) else fd_bridge s)"
    using assms(3) by (auto split: if_splits)
  with assms(1) r wo show ?thesis
    by (auto simp: watched_def watchRemote_def connFor_def Let_def split: if_splits option.splits)
qed

lemma unwatch_hangs_up:
  assumes "watched s" "bridge (fd_kernel s)" "fed_step (FKernel (KUnwatch src w) thrs) s = Some s'"
  shows "watched s'"
proof -
  let ?k = "fd_kernel s" and ?i = "resolve (fd_kernel s) src"
  have r: "remote_src (unwatch src w ?k) x = remote_src ?k x" for x
    by (rule remote_src_cong) (simp_all add: unwatch_def Let_def split: option.split)
  have wo: "watchers_of (unwatch src w ?k) x = (if x = ?i then set_del w (watchers_of ?k x) else watchers_of ?k x)" for x
    by (auto simp: unwatch_def Let_def watchers_of_def set_del_def split: option.split)
  have "new_actions ?k (unwatch src w ?k) =
      (if map_of (watchers ?k) ?i \<noteq> None \<and> set_del w (watchers_of ?k ?i) = [] \<and> remote_src ?k ?i then [UnwatchRemote ?i] else [])"
    using assms(2) remote_src_cong [of "?k\<lparr>watchers := x\<rparr>" ?k for x]
    by (auto simp: new_actions_def unwatch_def Let_def bridge_call_def act_def watchers_of_def split: option.splits)
  then have "fd_kernel s' = unwatch src w ?k"
    "fd_bridge s' = fd_bridge s \<or> set_del w (watchers_of ?k ?i) = [] \<and> fd_bridge s' = unwatchRemote ?i (fd_bridge s)"
    using assms(3) by (auto split: if_splits)
  with assms(1) r wo show ?thesis
    by (auto simp: watched_def unwatchRemote_def set_del_def split: if_splits option.splits)
qed

definition not_closed :: "fed_event \<Rightarrow> bool" where
  "not_closed e = (e \<noteq> FClose)"

interpretation fed_watch: step_invariant fed_step not_closed "\<lambda>s. fed_sound s \<and> watched s"
proof
  fix s e s' assume inv: "fed_sound s \<and> watched s" and e: "not_closed e" and st: "fed_step e s = Some s'"
  have wf: "kernel_wf (fd_kernel s)" "bridge (fd_kernel s)" using inv by (simp_all add: fed_sound_def)
  have "watched s'"
  proof (cases e)
    case (FKernel ke thrs)
    show ?thesis
    proof (cases "\<exists>src w. ke = KWatch src w \<or> ke = KUnwatch src w")
      case True
      with inv wf st FKernel watch_dials unwatch_hangs_up show ?thesis by blast
    next
      case False
      obtain k b n where k: "kernel_step ke (fd_kernel s) = Some k"
        "bridge_performs (new_actions (fd_kernel s) k) thrs (fd_bridge s, fd_next s) = (b, n)" "s' = \<lparr>fd_kernel = k, fd_bridge = b, fd_next = n\<rparr>"
        using st FKernel by (auto split: option.splits prod.splits)
      have t: "tame (fd_kernel s) k" using tame_step [OF wf(1) k(1)] False by blast
      have "dom (map_of (conns (fd_bridge s))) \<subseteq> dom (map_of (conns b))"
        using bridge_performs_dom [OF new_actions_tame [OF t], of "(fd_bridge s, fd_next s)" thrs] k(2) by simp
      then show ?thesis using watched_tame [of s s'] t k(3) inv by simp
    qed
  next
    case (FSocket a ce)
    then obtain b where b: "bridge_conn_event a ce (fd_bridge s) = Some b"
      "s' = s\<lparr>fd_bridge := b, fd_kernel := fold hear (new_effects a (fd_bridge s) b) (fd_kernel s)\<rparr>"
      using st by (auto split: option.splits if_splits)
    have "conns b = conns (fd_bridge s)" using b(1) by (auto simp: bridge_conn_event_def split: if_splits)
    then show ?thesis using watched_tame [of s s'] b(2) hear_quiet [of "fd_kernel s"] inv by simp
  next
    case (FUnsubscribe h a thr)
    with st inv show ?thesis
      by (auto simp: watched_def bridge_unsubscribeState_def Let_def split: if_splits)
  qed (use e in \<open>simp add: not_closed_def\<close>)
  with fed_run.inv_step [OF _ _ st] inv show "fed_sound s' \<and> watched s'" by simp
qed

lemma new_federation_sound: "fed_sound (new_federation now org control md)" "watched (new_federation now org control md)"
proof -
  have "kernel_wf ((new_kernel now)\<lparr>bridge := True\<rparr> :: bundle_fn kernel)"
    using same_tree_wf [OF kernel_wf_new same_tree_frame, of "(new_kernel now)\<lparr>bridge := True\<rparr>" now] by simp
  moreover have "bridge_ledger (new_bridge org control md) = {#}" by (simp add: bridge_ledger_def new_bridge_def)
  ultimately show "fed_sound (new_federation now org control md)"
    by (simp add: fed_sound_def new_federation_def calls_inv_def new_bridge_ok)
  show "watched (new_federation now org control md)"
    by (simp add: watched_def new_federation_def new_kernel_def watchers_of_def)
qed

section \<open>What the composition guarantees\<close>

text \<open>
  C10: calls are accounted for across the whole frontend. After any interleaving of kernel operations and socket events, every
  promise the bridge has given out is in exactly one place: its call waits for a socket, or has been sent on one and is
  unanswered, or has been settled, and none is in two places or settled twice; and sending to an agent that is not local always
  gives out exactly one new promise.
\<close>
theorem federation_calls_accounted:
  assumes "run_events fed_step es (new_federation now org control md) = Some s"
  shows "sum_list (map (\<lambda>c. mset (map call_token (waiting c)) + mset (map snd (pending c)) + mset (settled (effects c)))
      (conn_store (fd_bridge s))) = mset [0..<fd_next s] \<and>
    (map_of (agents (fd_kernel s)) (resolve (fd_kernel s) target) = None \<longrightarrow>
      snd (send n run_bundle target p (fd_kernel s)) = Pending \<and>
      map_option fd_next (fed_step (FKernel (KSend target p) thrs) s) = Some (Suc (fd_next s)))"
proof -
  have s: "fed_sound s" using fed_run.run_inv [OF assms new_federation_sound(1)] by (simp add: list_all_iff)
  then show ?thesis
    by (auto simp: fed_sound_def calls_inv_def bridge_ledger_def call_ledger_def [abs_def] send_def new_actions_def act_def Let_def
        split: prod.split)
qed

text \<open>
  C11: what a watched agent of the host emits reaches its watchers. After any run in which the bridge is not closed, a remote
  source that somebody watches has an open registration in the bridge, a connection to that very source; and an event frame
  that arrives there is handed, once and unchanged, to every listener on the inbox of the source and of each of its watchers,
  in order, and to nobody else.
\<close>
theorem watched_events_reach_watchers:
  assumes "run_events fed_step es (new_federation now org control md) = Some s" "FClose \<notin> set es"
    and "remote_src (fd_kernel s) src" "watchers_of (fd_kernel s) src \<noteq> []" "resolve (fd_kernel s) src = src"
  shows "\<exists>a. map_of (conns (fd_bridge s)) src = Some a \<and> endpoint (conn_store (fd_bridge s) ! a) = src \<and>
    \<not> closedByUs (conn_store (fd_bridge s) ! a) \<and>
    (\<forall>f m p. sock (conn_store (fd_bridge s) ! a) = Some Opened \<longrightarrow> runnable (conn_store (fd_bridge s) ! a) = [] \<longrightarrow>
       decodeFrame f = Ok (JObj m) \<longrightarrow> map_of m ''type'' = Some (JStr ''event'') \<longrightarrow> map_of m ''payload'' = Some (JObj p) \<longrightarrow>
       map_option (\<lambda>s'. trace (fd_kernel s')) (fed_step (FSocket a (SocketMessage f)) s) =
         Some (trace (fd_kernel s) @ map (\<lambda>l. Deliver l p)
           (concat (map (inbox_of (fd_kernel s)) (src # watchers_of (fd_kernel s) src)))))"
proof -
  have "list_all not_closed es" using assms(2) by (auto simp: list_all_iff not_closed_def)
  with fed_watch.run_inv [OF assms(1)] new_federation_sound have i: "fed_sound s" "watched s" by blast+
  then have ok: "conns_ok (fd_bridge s)" by (simp add: fed_sound_def calls_inv_def)
  obtain a where a: "map_of (conns (fd_bridge s)) src = Some a" using i(2) assms(3,4) by (auto simp: watched_def)
  note c = conns_okD [OF ok a]
  have "fed_step (FSocket a (SocketMessage f)) s = Some (s\<lparr>fd_bridge := on_conn a (effect (OnEvent src (JObj p))) (fd_bridge s),
      fd_kernel := emit src p (fd_kernel s)\<rparr>)"
    if "sock (conn_store (fd_bridge s) ! a) = Some Opened" "runnable (conn_store (fd_bridge s) ! a) = []"
      "decodeFrame f = Ok (JObj m)" "map_of m ''type'' = Some (JStr ''event'')" "map_of m ''payload'' = Some (JObj p)" for f m p
    using that c by (simp add: platform_event_def bridge_conn_event_def onMessage_def is_object_def new_effects_def on_conn_def effect_def)
  with a c assms(5) show ?thesis by (intro exI [of _ a]) (simp add: trace_emit fan_out_def del: fed_step.simps)
qed

text \<open>A call over an open connection, and the reply to it.\<close>

lemma conn_call_answered:
  assumes inv: "conn_inv c" and c: "sock c = Some Opened" "runnable c = []"
    and f: "encodeFrame (call_envelope p i (show_nat (nextId c))) = Ok f"
    and r: "decodeFrame r = Ok (JObj m)" "map_of m ''type'' = Some (JStr ''reply'')" "map_of m ''id'' = Some (JStr (show_nat (nextId c)))"
      "map_of m ''data'' = Some d"
  shows "\<exists>c2 c3. conn_step (Continue False) (call_start t p i c) = Some c2 \<and> conn_step (SocketMessage r) c2 = Some c3 \<and>
    effects c3 = effects c @ [SendFrame f, Settle t (Resolved d)]"
proof -
  let ?w = "\<lparr>call_token = t, call_promise = ready c, call_payload = p, call_target = i\<rparr>" and ?j = "show_nat (nextId c)"
  have con: "connected c" "ready c \<in> set (resolved c)"
    using inv c(1) by (auto simp: conn_inv_def conn_shape_def promises_ok_def split: option.splits)
  have new: "?w \<notin> set (waiting c)" using c(2) con(2) by (auto simp: runnable_def filter_empty_conv)
  have run: "runnable (call_start t p i c) = [?w]" using c(2) con(2) by (simp add: runnable_def call_start_def)
  let ?c2 = "effect (SendFrame f) (c\<lparr>nextId := Suc (nextId c), pending := AList.update ?j t (pending c)\<rparr>)"
  have "conn_step (Continue False) (call_start t p i c) = Some ?c2"
    using new con c(1) f by (simp add: run call_resume_def) (simp add: call_start_def remove1_append Let_def effect_def)
  moreover have "runnable ?c2 = []" using c(2) by (simp add: runnable_def effect_def)
  then have "conn_step (SocketMessage r) ?c2 = Some (on_reply m ?c2)" using c(1) r by (simp add: onMessage_def effect_def)
  moreover have "effects (on_reply m ?c2) = effects c @ [SendFrame f, Settle t (Resolved d)]"
    using r by (simp add: on_reply_def js_String_opt_def Let_def effect_def)
  ultimately show ?thesis by blast
qed

lemma fed_socket_step:
  assumes "conn_step e (conn_store (fd_bridge s) ! a) = Some c'" "platform_event e" "a < length (conn_store (fd_bridge s))"
  shows "\<exists>s'. fed_step (FSocket a e) s = Some s' \<and> conn_store (fd_bridge s') ! a = c' \<and>
    length (conn_store (fd_bridge s')) = length (conn_store (fd_bridge s))"
  using assms by (simp add: bridge_conn_event_def)


section \<open>A sample federation\<close>

text \<open>A view with a listener watches \<^verbatim>\<open>pty\<close>, and the socket to it opens.\<close>

definition sample_fed :: "fed_event list" where
  "sample_fed = [FKernel (KOnInbox ''view'' 7) [], FKernel (KWatch ''pty'' ''view'') [], FSocket 0 (SocketOpen False)]"

definition sample_state :: "federation \<Rightarrow> bool" where
  "sample_state s =
     (fd_next s = 0 \<and> agents (fd_kernel s) = [] \<and> rootId (fd_kernel s) = None \<and> watchers_of (fd_kernel s) ''pty'' = [''view''] \<and>
      inbox_of (fd_kernel s) ''view'' = [7] \<and> inbox_of (fd_kernel s) ''pty'' = [] \<and> conns (fd_bridge s) = [(''pty'', 0)] \<and>
      sock (conn_store (fd_bridge s) ! 0) = Some Opened \<and> runnable (conn_store (fd_bridge s) ! 0) = [] \<and>
      nextId (conn_store (fd_bridge s) ! 0) = 1)"

lemma sample_fed_runs:
  "\<exists>s. run_events fed_step sample_fed (new_federation 0 ''ws://host'' ''kernel'' None) = Some s \<and> sample_state s"
  by (simp add: sample_state_def sample_fed_def new_federation_def new_kernel_def new_bridge_def onInbox_def watch_def resolve_def watchers_of_def
      remote_src_def get_agent_def bridge_call_def act_def new_actions_def watchRemote_def connFor_def platform_event_def bridge_conn_event_def
      new_conn_def connect_def arm_def effect_def runnable_def onopen_def notify_def resolve_ready_def new_effects_def set_add_def inbox_of_def Let_def)

theorem federation_calls_accounted_witness:
  "\<exists>s. run_events fed_step sample_fed (new_federation 0 ''ws://host'' ''kernel'' None) = Some s \<and>
     map_option fd_next (fed_step (FKernel (KSend ''pty'' ping) []) s) = Some 1"
proof -
  obtain s where s: "run_events fed_step sample_fed (new_federation 0 ''ws://host'' ''kernel'' None) = Some s" "sample_state s"
    using sample_fed_runs by blast
  from federation_calls_accounted [OF s(1), of "''pty''" 0 ping "[]"] s show ?thesis
    by (simp add: sample_state_def del: fed_step.simps run_events.simps)
qed

lemma sample_event:
  "decodeFrame (TextFrame (stringify (JObj [(''type'', JStr ''event''), (''payload'', JObj [(''data'', JStr ''x'')])]))) =
   Ok (JObj [(''type'', JStr ''event''), (''payload'', JObj [(''data'', JStr ''x'')])])"
  using parse_stringify [of "JObj [(''type'', JStr ''event''), (''payload'', JObj [(''data'', JStr ''x'')])]"]
  by (simp add: decodeFrame_def)

theorem watched_events_reach_watchers_witness:
  "\<exists>s f s'. run_events fed_step sample_fed (new_federation 0 ''ws://host'' ''kernel'' None) = Some s \<and>
     fed_step (FSocket 0 (SocketMessage f)) s = Some s' \<and>
     trace (fd_kernel s') = trace (fd_kernel s) @ [Deliver 7 [(''data'', JStr ''x'')]]"
proof -
  obtain s where s: "run_events fed_step sample_fed (new_federation 0 ''ws://host'' ''kernel'' None) = Some s" "sample_state s"
    using sample_fed_runs by blast
  have r: "remote_src (fd_kernel s) ''pty''" "watchers_of (fd_kernel s) ''pty'' \<noteq> []" "resolve (fd_kernel s) ''pty'' = ''pty''"
    "FClose \<notin> set sample_fed"
    using s(2) by (simp_all add: sample_state_def remote_src_def get_agent_def resolve_def sample_fed_def)
  note w = watched_events_reach_watchers [OF s(1) r(4,1,2,3)]
  let ?f = "TextFrame (stringify (JObj [(''type'', JStr ''event''), (''payload'', JObj [(''data'', JStr ''x'')])]))"
  have "map_option (\<lambda>s'. trace (fd_kernel s')) (fed_step (FSocket 0 (SocketMessage ?f)) s) =
      Some (trace (fd_kernel s) @ [Deliver 7 [(''data'', JStr ''x'')]])"
    using w s(2) sample_event by (auto simp: sample_state_def simp del: fed_step.simps stringify.simps)
  then show ?thesis using s(1) by (auto simp del: fed_step.simps stringify.simps)
qed


text \<open>
  The converse of the watching invariant fails: \<^verbatim>\<open>load\<close> forgets every watch without telling the bridge, so the sockets of
  the sources watched before stay registered, with nobody to listen.
\<close>

lemma load_leaves_sockets:
  "case run_events fed_step [FKernel (KWatch ''pty'' ''view'') [], FKernel (KLoad (BareList [[(''id'', JStr ''canvas'')]])) []]
       (new_federation 0 ''ws://h'' ''k'' (Some 1)) of
     Some s \<Rightarrow> watchers_of (fd_kernel s) ''pty'' = [] \<and> map (\<lambda>(ep, a). (ep, closedByUs (conn_store (fd_bridge s) ! a))) (conns (fd_bridge s)) = [(''pty'', False)]
   | None \<Rightarrow> False"
  by code_simp

end
