(* ===== verification/Proxy_Loader.thy ===== *)
theory Proxy_Loader
  imports Kernel_Load Steps
begin

text \<open>
  The loader of the frontend kernel: \<^verbatim>\<open>ts/src/bundles/loader/proxy_loader.ts\<close>. It owns no storage;
  it turns the kernel's state stream into \<^verbatim>\<open>persist_record\<close> and \<^verbatim>\<open>forget_record\<close> messages to a
  loader on the host, which keeps every record in a directory below its parent's.

  \<^verbatim>\<open>flush\<close> is asynchronous: a running flush is a pair of lists still to be sent, and it sends its
  next message each time the reply to the previous one arrives. The host is a parameter: what the
  loader relies on is the locale \<open>host_loader\<close>, and \<open>path_persist\<close> / \<open>path_forget\<close> are a host
  that stores records under (parent, id) and merges as the real one does.
\<close>

section \<open>State\<close>

record loader =
  hostLoaderId :: string
  hostRootId :: string
  subscribed :: bool
  timer :: bool
  dirtyPersist :: "string list"
  dirtyForget :: "(string \<times> string) list"
  parents :: "(string \<times> string) list"
  flushes :: "(string list \<times> (string \<times> string) list) list"

definition new_loader :: "string \<Rightarrow> loader" where
  "new_loader i = \<lparr>hostLoaderId = i, hostRootId = i, subscribed = False, timer = False,
     dirtyPersist = [], dirtyForget = [], parents = [], flushes = []\<rparr>"

section \<open>Hydration\<close>

definition is_anchor :: "string \<Rightarrow> agent_record \<Rightarrow> bool" where
  "is_anchor alias r =
     (map_of r ''id'' = Some (JStr alias) \<or> map_of r ''alias'' = Some (JStr alias))"

definition find_anchor :: "string \<Rightarrow> agent_record list \<Rightarrow> json option" where
  "find_anchor alias records =
     (case find (is_anchor alias) records of None \<Rightarrow> None | Some r \<Rightarrow> map_of r ''id'')"

definition reroot :: "string \<Rightarrow> json option \<Rightarrow> agent_record \<Rightarrow> agent_record" where
  "reroot alias anchorId r =
     (case nullish (map_of r ''parent_id'') of
        Some p \<Rightarrow> if Some p = anchorId \<or> p = JStr alias then AList.update ''parent_id'' JNull r else r
      | None \<Rightarrow> r)"

text \<open>
  \<^verbatim>\<open>loadTree\<close> after the reply has arrived: the learnt root id and the re-rooted records.
\<close>

definition loadTree :: "agent_record list \<Rightarrow> loader \<Rightarrow> loader \<times> agent_record list" where
  "loadTree records l =
     (let anchorId = find_anchor (hostLoaderId l) records;
          l1 = (case anchorId of Some (JStr i) \<Rightarrow> l\<lparr>hostRootId := i\<rparr> | _ \<Rightarrow> l)
      in (l1, map (reroot (hostLoaderId l) anchorId)
            (filter (\<lambda>r. map_of r ''id'' \<noteq> anchorId) records)))"

section \<open>Following the state stream\<close>

definition rewrittenParent :: "loader \<Rightarrow> string option \<Rightarrow> string" where
  "rewrittenParent l p = (case p of Some i \<Rightarrow> i | None \<Rightarrow> hostRootId l)"

definition schedule :: "loader \<Rightarrow> loader" where
  "schedule l = l\<lparr>timer := True\<rparr>"

text \<open>The loop of \<^verbatim>\<open>start\<close>, for one agent.\<close>

definition enqueue :: "'h kernel \<Rightarrow> string \<times> nat \<Rightarrow> loader \<Rightarrow> loader" where
  "enqueue k x l =
     (let a = store k ! snd x in l\<lparr>
        parents := AList.update (ag_id a) (rewrittenParent l (parentId a)) (parents l),
        dirtyPersist := set_add (ag_id a) (dirtyPersist l)\<rparr>)"

definition start :: "'h kernel \<Rightarrow> loader \<Rightarrow> loader" where
  "start k l =
     (if subscribed l then l
      else
        (let l1 = fold (enqueue k) (agents k) l;
             l2 = l1\<lparr>subscribed := True\<rparr>
         in if dirtyPersist l2 \<noteq> [] then schedule l2 else l2))"

definition note_kept :: "'h kernel \<Rightarrow> string \<Rightarrow> loader \<Rightarrow> loader" where
  "note_kept k i l =
     (let l1 = l\<lparr>dirtyForget := AList.delete i (dirtyForget l), dirtyPersist := set_add i (dirtyPersist l)\<rparr>;
          l2 = (case get_agent k i of
                  Some a \<Rightarrow> l1\<lparr>parents := AList.update i (rewrittenParent l1 (parentId a)) (parents l1)\<rparr>
                | None \<Rightarrow> l1)
      in schedule l2)"

definition note_removed :: "string \<Rightarrow> loader \<Rightarrow> loader" where
  "note_removed i l =
     schedule (l\<lparr>dirtyPersist := set_del i (dirtyPersist l),
       dirtyForget := AList.update i
         (case map_of (parents l) i of Some p \<Rightarrow> p | None \<Rightarrow> hostRootId l) (dirtyForget l),
       parents := AList.delete i (parents l)\<rparr>)"

definition onState :: "'h kernel \<Rightarrow> payload \<Rightarrow> loader \<Rightarrow> loader" where
  "onState k e l =
     (let i = str e ''agent_id'' []; kind = str e ''kind'' [] in
      if kind = ''added'' \<or> kind = ''updated'' then note_kept k i l
      else if kind = ''removed'' then note_removed i l else l)"

section \<open>Flushing\<close>

datatype loader_msg = PersistRecord agent_record | ForgetRecord string string

definition msg_payload :: "loader_msg \<Rightarrow> payload" where
  "msg_payload m =
     (case m of
        PersistRecord r \<Rightarrow> [(''type'', JStr ''persist_record''), (''record'', JObj r)]
      | ForgetRecord i p \<Rightarrow> [(''type'', JStr ''forget_record''), (''id'', JStr i), (''parent_id'', JStr p)])"

definition flush_record :: "loader \<Rightarrow> 'h agent \<Rightarrow> agent_record" where
  "flush_record l a = AList.update ''parent_id'' (JStr (rewrittenParent l (parentId a))) (record_of a)"

text \<open>A flush runs on to its next \<^verbatim>\<open>await\<close>: the message it sends and what is left, or its end.\<close>

fun next_send ::
    "'h kernel \<Rightarrow> loader \<Rightarrow> string list \<Rightarrow> (string \<times> string) list \<Rightarrow>
     (loader_msg \<times> string list \<times> (string \<times> string) list) option"
where
  "next_send k l (i # is) fs =
     (case get_agent k i of
        None \<Rightarrow> next_send k l is fs
      | Some a \<Rightarrow> Some (PersistRecord (flush_record l a), is, fs))"
| "next_send k l [] ((i, p) # fs) = Some (ForgetRecord i p, [], fs)"
| "next_send k l [] [] = None"

text \<open>\<^verbatim>\<open>kernel.send(hostLoaderId, ...)\<close> leaves this kernel when there is a bridge and no local agent
  of that id.\<close>

definition reaches_host :: "'h kernel \<Rightarrow> loader \<Rightarrow> bool" where
  "reaches_host k l = (bridge k \<and> map_of (agents k) (resolve k (hostLoaderId l)) = None)"

definition flush_begin :: "loader \<Rightarrow> loader \<times> string list \<times> (string \<times> string) list" where
  "flush_begin l = (l\<lparr>dirtyPersist := [], dirtyForget := []\<rparr>, dirtyPersist l, dirtyForget l)"

section \<open>The loader, its kernel and its host\<close>

record ('h, 's) world =
  kern :: "'h kernel"
  ldr :: loader
  host :: "'s"

datatype 'h loader_event =
    LRegister "'h agent"
  | LUpdate string payload
  | LRemove string
  | LTimer bool
  | LFlush bool
  | LReply nat bool
  | LFail nat
  | LStop bool

text \<open>The events the kernel published to subscriber \<open>cb\<close> between two states.\<close>

definition published :: "nat \<Rightarrow> 'h kernel \<Rightarrow> 'h kernel \<Rightarrow> payload list" where
  "published cb k k' =
     concat (map (\<lambda>x. case x of NotifyState c e \<Rightarrow> if c = cb then [e] else [] | _ \<Rightarrow> [])
       (drop (length (trace k)) (trace k')))"

definition kernel_did :: "nat \<Rightarrow> 'h kernel \<Rightarrow> ('h, 's) world \<Rightarrow> ('h, 's) world" where
  "kernel_did cb k' w =
     w\<lparr>kern := k', ldr := (if subscribed (ldr w)
        then fold (onState k') (published cb (kern w) k') (ldr w) else ldr w)\<rparr>"

text \<open>
  A flush with the given lists runs on. \<open>arrives\<close> says whether its next message gets to the host;
  the flush is suspended at position \<open>n\<close> of the running flushes, or ends.
\<close>

definition flush_on ::
    "(loader_msg \<Rightarrow> 's \<Rightarrow> 's) \<Rightarrow> bool \<Rightarrow> string list \<Rightarrow> (string \<times> string) list \<Rightarrow>
     ((string list \<times> (string \<times> string) list) list \<Rightarrow> (string list \<times> (string \<times> string) list) list) \<Rightarrow>
     ('h, 's) world \<Rightarrow> ('h, 's) world"
where
  "flush_on deliver_msg arrives ps fs place w =
     (case next_send (kern w) (ldr w) ps fs of
        None \<Rightarrow> w
      | Some (m, ps', fs') \<Rightarrow>
          w\<lparr>ldr := (ldr w)\<lparr>flushes := place [(ps', fs')]\<rparr>,
            host := (if arrives \<and> reaches_host (kern w) (ldr w) then deliver_msg m (host w) else host w)\<rparr>)"

definition flush ::
    "(loader_msg \<Rightarrow> 's \<Rightarrow> 's) \<Rightarrow> bool \<Rightarrow> ('h, 's) world \<Rightarrow> ('h, 's) world" where
  "flush deliver_msg arrives w =
     (let (l1, ps, fs) = flush_begin (ldr w)
      in flush_on deliver_msg arrives ps fs (\<lambda>t. flushes l1 @ t) (w\<lparr>ldr := l1\<rparr>))"

definition stop ::
    "(loader_msg \<Rightarrow> 's \<Rightarrow> 's) \<Rightarrow> nat \<Rightarrow> bool \<Rightarrow> ('h, 's) world \<Rightarrow> ('h, 's) world" where
  "stop deliver_msg cb arrives w =
     flush deliver_msg arrives
       (w\<lparr>kern := (if subscribed (ldr w) then removeStateSubscriber cb (kern w) else kern w),
          ldr := (ldr w)\<lparr>subscribed := False, timer := False\<rparr>\<rparr>)"

fun loader_step ::
    "(loader_msg \<Rightarrow> 's \<Rightarrow> 's) \<Rightarrow> nat \<Rightarrow> 'h loader_event \<Rightarrow> ('h, 's) world \<Rightarrow> ('h, 's) world option"
where
  "loader_step dm cb (LRegister ag) w = Some (kernel_did cb (register ag (kern w)) w)"
| "loader_step dm cb (LUpdate i patch) w = Some (kernel_did cb (fst (updateMeta i patch (kern w))) w)"
| "loader_step dm cb (LRemove i) w =
     map_option (\<lambda>(k', _). kernel_did cb k' w) (remove (length (agents (kern w))) i (kern w))"
| "loader_step dm cb (LTimer arrives) w =
     (if timer (ldr w) then Some (flush dm arrives (w\<lparr>ldr := (ldr w)\<lparr>timer := False\<rparr>\<rparr>)) else None)"
| "loader_step dm cb (LFlush arrives) w = Some (flush dm arrives w)"
| "loader_step dm cb (LReply n arrives) w =
     (if n < length (flushes (ldr w)) then
        (let (ps, fs) = flushes (ldr w) ! n;
             before = take n (flushes (ldr w)); after = drop (Suc n) (flushes (ldr w))
         in Some (flush_on dm arrives ps fs (\<lambda>t. before @ t @ after)
              (w\<lparr>ldr := (ldr w)\<lparr>flushes := before @ after\<rparr>\<rparr>)))
      else None)"
| "loader_step dm cb (LFail n) w =
     (if n < length (flushes (ldr w)) then
        Some (w\<lparr>ldr := (ldr w)\<lparr>flushes := take n (flushes (ldr w)) @ drop (Suc n) (flushes (ldr w))\<rparr>\<rparr>)
      else None)"
| "loader_step dm cb (LStop arrives) w = Some (stop dm cb arrives w)"

section \<open>What the loader relies on\<close>

type_synonym path = "string \<times> string"

definition record_path :: "agent_record \<Rightarrow> path" where
  "record_path r = (case map_of r ''parent_id'' of Some (JStr p) \<Rightarrow> p | _ \<Rightarrow> [], rec_id r)"

text \<open>
  The host loader's contract: \<^verbatim>\<open>persist_record\<close> stores at least the given fields under the record's
  own path and leaves every other path alone, \<^verbatim>\<open>forget_record\<close> clears exactly one path.
\<close>

locale host_loader =
  fixes stored :: "'s \<Rightarrow> path \<Rightarrow> agent_record option" and deliver_msg :: "loader_msg \<Rightarrow> 's \<Rightarrow> 's"
  assumes persist_here: "distinct (map fst r) \<Longrightarrow> \<exists>r'. stored (deliver_msg (PersistRecord r) s) (record_path r) = Some r' \<and>
      map_of r \<subseteq>\<^sub>m map_of r'"
    and persist_there: "q \<noteq> record_path r \<Longrightarrow> stored (deliver_msg (PersistRecord r) s) q = stored s q"
    and forget_here: "stored (deliver_msg (ForgetRecord i p) s) (p, i) = None"
    and forget_there: "q \<noteq> (p, i) \<Longrightarrow> stored (deliver_msg (ForgetRecord i p) s) q = stored s q"

text \<open>What the kernel wants stored at a path.\<close>

definition want :: "'h kernel \<Rightarrow> loader \<Rightarrow> path \<Rightarrow> agent_record option" where
  "want k l q =
     (case get_agent k (snd q) of
        Some a \<Rightarrow> if rewrittenParent l (parentId a) = fst q then Some (flush_record l a) else None
      | None \<Rightarrow> None)"

definition covers :: "agent_record option \<Rightarrow> agent_record option \<Rightarrow> bool" where
  "covers have_r want_r =
     (case want_r of
        None \<Rightarrow> have_r = None
      | Some r \<Rightarrow> (\<exists>r'. have_r = Some r' \<and> map_of r \<subseteq>\<^sub>m map_of r'))"

definition all_persists :: "loader \<Rightarrow> string set" where
  "all_persists l = set (dirtyPersist l) \<union> (\<Union>(ps, fs)\<in>set (flushes l). set ps)"

definition all_forgets :: "loader \<Rightarrow> (string \<times> string) set" where
  "all_forgets l = {(i, p). map_of (dirtyForget l) i = Some p} \<union> (\<Union>(ps, fs)\<in>set (flushes l). set fs)"

text \<open>A path is up to date, or the message that will bring it up to date is on its way.\<close>

definition path_ok :: "'h kernel \<Rightarrow> loader \<Rightarrow> (path \<Rightarrow> agent_record option) \<Rightarrow> path \<Rightarrow> bool" where
  "path_ok k l m q =
     (covers (m q) (want k l q) \<or>
      (if want k l q \<noteq> None then snd q \<in> all_persists l else (snd q, fst q) \<in> all_forgets l))"

text \<open>The bookkeeping: what is dirty agrees with the kernel, at most one flush is running, and a
  running flush that is about to forget a record the kernel wants again will be followed by a persist.\<close>

definition loader_ok :: "'h kernel \<Rightarrow> loader \<Rightarrow> bool" where
  "loader_ok k l =
     (distinct (map fst (dirtyForget l)) \<and>
      (\<forall>i. map_of (dirtyForget l) i \<noteq> None \<longrightarrow> get_agent k i = None) \<and>
      (\<forall>i a. get_agent k i = Some a \<longrightarrow> map_of (parents l) i = Some (rewrittenParent l (parentId a))) \<and>
      length (flushes l) \<le> 1 \<and>
      (\<forall>ps fs i p. (ps, fs) \<in> set (flushes l) \<longrightarrow> (i, p) \<in> set fs \<longrightarrow>
         get_agent k i \<noteq> None \<longrightarrow> i \<in> set (dirtyPersist l)))"

definition clean_ids :: "'h kernel \<Rightarrow> bool" where
  "clean_ids k = (\<forall>i a. get_agent k i = Some a \<longrightarrow> ag_id a = i \<and> map_of (meta a) ''id'' = None)"

text \<open>
  What one kernel operation tells the loader: for every changed id whether it is still there.
\<close>

definition told :: "'h kernel \<Rightarrow> 'h kernel \<Rightarrow> (string \<times> bool) list \<Rightarrow> bool" where
  "told k k' es =
     (distinct (map fst es) \<and>
      (\<forall>i b. (i, b) \<in> set es \<longrightarrow> (get_agent k' i \<noteq> None) = b \<and> (b \<or> get_agent k i \<noteq> None)) \<and>
      (\<forall>i. i \<notin> fst ` set es \<longrightarrow> map_option (\<lambda>a. (parentId a, record_of a)) (get_agent k' i) =
         map_option (\<lambda>a. (parentId a, record_of a)) (get_agent k i)) \<and>
      (\<forall>i a a'. get_agent k i = Some a \<longrightarrow> get_agent k' i = Some a' \<longrightarrow> parentId a' = parentId a))"

definition tell :: "'h kernel \<Rightarrow> string \<times> bool \<Rightarrow> loader \<Rightarrow> loader" where
  "tell k e l = (if snd e then note_kept k (fst e) l else note_removed (fst e) l)"

lemma tell_fields [simp]:
  "hostRootId (tell k e l) = hostRootId l" "hostLoaderId (tell k e l) = hostLoaderId l"
  "flushes (tell k e l) = flushes l" "subscribed (tell k e l) = subscribed l"
  by (auto simp: tell_def note_kept_def note_removed_def schedule_def Let_def split: option.split)

lemma tell_dirty:
  "dirtyPersist (tell k (i, b) l) = (if b then set_add i (dirtyPersist l) else set_del i (dirtyPersist l))"
  "map_of (dirtyForget (tell k (i, b) l)) = (map_of (dirtyForget l))(i := if b then None else Some
     (case map_of (parents l) i of Some p \<Rightarrow> p | None \<Rightarrow> hostRootId l))"
  "distinct (map fst (dirtyForget l)) \<Longrightarrow> distinct (map fst (dirtyForget (tell k (i, b) l)))"
  by (auto simp: tell_def note_kept_def note_removed_def schedule_def Let_def split: option.split)

lemma tell_parents:
  "map_of (parents (tell k (i, b) l)) = (map_of (parents l))(i := if b
     then (case get_agent k i of Some a \<Rightarrow> Some (rewrittenParent l (parentId a)) | None \<Rightarrow> map_of (parents l) i)
     else None)"
  by (auto simp: tell_def note_kept_def note_removed_def schedule_def Let_def rewrittenParent_def
      split: option.split)

lemma tells_fields [simp]:
  "hostRootId (fold (tell k) es l) = hostRootId l" "hostLoaderId (fold (tell k) es l) = hostLoaderId l"
  "flushes (fold (tell k) es l) = flushes l" "subscribed (fold (tell k) es l) = subscribed l"
  by (induction es arbitrary: l) simp_all

lemma tells_distinct:
  "distinct (map fst (dirtyForget l)) \<Longrightarrow> distinct (map fst (dirtyForget (fold (tell k) es l)))"
  by (induction es arbitrary: l) (auto simp: tell_dirty)

lemma tells_untouched:
  "i \<notin> fst ` set es \<Longrightarrow>
   (i \<in> set (dirtyPersist (fold (tell k) es l)) \<longleftrightarrow> i \<in> set (dirtyPersist l)) \<and>
   map_of (dirtyForget (fold (tell k) es l)) i = map_of (dirtyForget l) i \<and>
   map_of (parents (fold (tell k) es l)) i = map_of (parents l) i"
proof (induction es arbitrary: l)
  case (Cons e es)
  obtain j b where e: "e = (j, b)" by (cases e)
  with Cons.IH [of "tell k e l"] Cons.prems show ?case by (auto simp: tell_dirty tell_parents)
qed simp

lemma tells_touched:
  assumes "distinct (map fst es)" "(i, b) \<in> set es"
  shows "(i \<in> set (dirtyPersist (fold (tell k) es l)) \<longleftrightarrow> b) \<and>
   map_of (dirtyForget (fold (tell k) es l)) i = map_of (dirtyForget (tell k (i, b) l)) i \<and>
   map_of (parents (fold (tell k) es l)) i = map_of (parents (tell k (i, b) l)) i"
  using assms
proof (induction es arbitrary: l)
  case (Cons e es)
  show ?case
  proof (cases "e = (i, b)")
    case True
    then have "i \<notin> fst ` set es" using Cons.prems(1) by auto
    from tells_untouched [OF this, of k "tell k e l"] True show ?thesis by (auto simp: tell_dirty)
  next
    case False
    obtain j c where e: "e = (j, c)" by (cases e)
    have i: "(i, b) \<in> set es" "distinct (map fst es)" "j \<noteq> i"
      using Cons.prems False e by (auto simp: image_iff)
    with Cons.IH [OF i(2,1), of "tell k e l"] e show ?thesis
      by (auto simp: tell_dirty tell_parents rewrittenParent_def split: option.split)
  qed
qed simp

section \<open>A kernel operation keeps the paths in order\<close>

text \<open>
  The one condition on the client: an id that comes back while its removal is still unsent comes
  back below the same parent.
\<close>

definition same_place :: "'h kernel \<Rightarrow> loader \<Rightarrow> bool" where
  "same_place k' l = (\<forall>i a p. get_agent k' i = Some a \<longrightarrow> map_of (dirtyForget l) i = Some p \<longrightarrow>
     rewrittenParent l (parentId a) = p)"

lemma toldD:
  assumes "told k k' es"
  shows "distinct (map fst es)" "(i, b) \<in> set es \<Longrightarrow> (get_agent k' i \<noteq> None) = b"
    "(i, False) \<in> set es \<Longrightarrow> get_agent k i \<noteq> None"
    "get_agent k i = Some a \<Longrightarrow> get_agent k' i = Some a' \<Longrightarrow> parentId a' = parentId a"
  using assms unfolding told_def by blast+

lemma loader_okD:
  assumes "loader_ok k l"
  shows "map_of (dirtyForget l) i \<noteq> None \<Longrightarrow> get_agent k i = None"
    "get_agent k i = Some a \<Longrightarrow> map_of (parents l) i = Some (rewrittenParent l (parentId a))"
    "length (flushes l) \<le> 1"
    "(ps, fs) \<in> set (flushes l) \<Longrightarrow> (i, p) \<in> set fs \<Longrightarrow> get_agent k i \<noteq> None \<Longrightarrow> i \<in> set (dirtyPersist l)"
    "distinct (map fst (dirtyForget l))"
  using assms unfolding loader_ok_def by blast+

lemma tells_loader_ok:
  assumes ok: "loader_ok k l" and t: "told k k' es"
  shows "loader_ok k' (fold (tell k') es l)"
proof -
  let ?l = "fold (tell k') es l"
  have rp: "rewrittenParent ?l = rewrittenParent l" by (auto simp: rewrittenParent_def fun_eq_iff split: option.split)
  have same: "get_agent k' i = None \<longleftrightarrow> get_agent k i = None" if "i \<notin> fst ` set es" for i
    using t that by (auto simp: told_def)
  have "get_agent k' i = None" if "map_of (dirtyForget ?l) i \<noteq> None" for i
  proof (cases "i \<in> fst ` set es")
    case True
    then obtain b where b: "(i, b) \<in> set es" by auto
    with toldD(2) [OF t b] tells_touched [OF toldD(1) [OF t] b, of k' l] that show ?thesis
      by (auto simp: tell_dirty split: if_splits)
  next
    case False
    with tells_untouched [OF False, of k' l] that ok same [OF False] show ?thesis by (auto simp: loader_ok_def)
  qed
  moreover have "map_of (parents ?l) i = Some (rewrittenParent l (parentId a))" if a: "get_agent k' i = Some a" for i a
  proof (cases "i \<in> fst ` set es")
    case True
    then obtain b where b: "(i, b) \<in> set es" by auto
    have "b" using toldD(2) [OF t b] a by simp
    with tells_touched [OF toldD(1) [OF t] b, of k' l] a show ?thesis by (simp add: tell_parents)
  next
    case False
    then obtain a0 where "get_agent k i = Some a0" using same a by fastforce
    with t a ok tells_untouched [OF False, of k' l] show ?thesis by (auto simp: told_def loader_ok_def)
  qed
  moreover have "i \<in> set (dirtyPersist ?l)"
    if f: "(ps, fs) \<in> set (flushes l)" "(i, p) \<in> set fs" "get_agent k' i \<noteq> None" for ps fs i p
  proof (cases "i \<in> fst ` set es")
    case True
    then obtain b where b: "(i, b) \<in> set es" by auto
    have "b" using toldD(2) [OF t b] f(3) by simp
    with tells_touched [OF toldD(1) [OF t] b, of k' l] show ?thesis by simp
  next
    case False
    with tells_untouched [OF False, of k' l] same [OF False] loader_okD(4) [OF ok f(1,2)] f(3) show ?thesis by simp
  qed
  ultimately show ?thesis
    using ok tells_distinct [of l k' es] unfolding loader_ok_def rp by auto
qed

lemma want_untouched:
  assumes "told k k' es" "i \<notin> fst ` set es"
  shows "want k' (fold (tell k') es l) (p, i) = want k l (p, i)"
proof -
  have "map_option (\<lambda>a. (parentId a, record_of a)) (get_agent k' i) =
      map_option (\<lambda>a. (parentId a, record_of a)) (get_agent k i)"
    using assms by (simp add: told_def)
  then show ?thesis
    by (cases "get_agent k' i"; cases "get_agent k i")
      (auto simp: want_def flush_record_def rewrittenParent_def split: option.splits)
qed

lemma want_None_parent:
  "get_agent k i = Some a \<Longrightarrow> want k l (p, i) = None \<longleftrightarrow> rewrittenParent l (parentId a) \<noteq> p"
  by (simp add: want_def)

lemma tells_path_ok:
  assumes ok: "loader_ok k l" and t: "told k k' es" and pl: "same_place k' l" and q: "path_ok k l m (p, i)"
  shows "path_ok k' (fold (tell k') es l) m (p, i)"
proof (cases "i \<in> fst ` set es")
  case False
  from tells_untouched [OF False, of k' l] have
    "i \<in> all_persists (fold (tell k') es l) \<longleftrightarrow> i \<in> all_persists l"
    "(i, p) \<in> all_forgets (fold (tell k') es l) \<longleftrightarrow> (i, p) \<in> all_forgets l"
    by (simp_all add: all_persists_def all_forgets_def)
  with q want_untouched [OF t False, of l p] show ?thesis by (auto simp: path_ok_def split: if_splits)
next
  case True
  let ?l = "fold (tell k') es l"
  obtain b where b: "(i, b) \<in> set es" using True by auto
  note touched = tells_touched [OF toldD(1) [OF t] b, of k' l]
  have rp: "rewrittenParent ?l = rewrittenParent l"
    by (auto simp: rewrittenParent_def fun_eq_iff split: option.split)
  have fl: "(i, p) \<in> all_forgets ?l" if "(ps, fs) \<in> set (flushes l)" "(i, p) \<in> set fs" for ps fs
    using that by (force simp: all_forgets_def)
  show ?thesis
  proof (cases b)
    case True
    then obtain a' where a': "get_agent k' i = Some a'" using toldD(2) [OF t b] by auto
    show ?thesis
    proof (cases "want k' ?l (p, i)")
      case None
      then have np: "rewrittenParent l (parentId a') \<noteq> p" using want_None_parent [OF a', of ?l p] rp by simp
      have "want k l (p, i) = None"
        using np toldD(4) [OF t _ a'] by (auto simp: want_def split: option.split)
      moreover have "map_of (dirtyForget l) i \<noteq> Some p" using pl a' np by (auto simp: same_place_def)
      ultimately show ?thesis using q None fl by (auto simp: path_ok_def all_forgets_def)
    next
      case (Some r)
      with touched True show ?thesis by (simp add: path_ok_def all_persists_def)
    qed
  next
    case False
    then have none: "want k' ?l (p, i) = None" using toldD(2) [OF t b] by (simp add: want_def)
    obtain a where a: "get_agent k i = Some a" using toldD(3) [OF t] b False by auto
    then have "map_of (parents l) i = Some (rewrittenParent l (parentId a))" "map_of (dirtyForget l) i = None"
      using ok by (auto simp: loader_ok_def)
    then have f: "map_of (dirtyForget ?l) i = Some (rewrittenParent l (parentId a))"
      using touched False by (simp add: tell_dirty)
    show ?thesis
    proof (cases "rewrittenParent l (parentId a) = p")
      case True
      then show ?thesis using f none by (simp add: path_ok_def all_forgets_def)
    next
      case False
      then have "want k l (p, i) = None" using want_None_parent [OF a] by simp
      with q none fl \<open>map_of (dirtyForget l) i = None\<close> show ?thesis by (auto simp: path_ok_def all_forgets_def)
    qed
  qed
qed

section \<open>What the kernel operations tell\<close>

lemma onState_events [simp]:
  "onState k (stamp k0 (added_event a p)) l = tell k (ag_id a, True) l"
  "onState k (stamp k0 (updated_event i patch)) l = tell k (i, True) l"
  "onState k (stamp k0 (removed_event i a)) l = tell k (i, False) l"
  by (simp_all add: onState_def tell_def stamp_def added_event_def updated_event_def removed_event_def str_def)

lemma single_note:
  "distinct subs \<Longrightarrow> cb \<in> set subs \<Longrightarrow> concat (map (\<lambda>c. if c = cb then [e] else []) subs) = [e]"
  by (induction subs) (auto simp: concat_eq_Nil_conv)

definition notes_of :: "nat \<Rightarrow> action list \<Rightarrow> payload list" where
  "notes_of cb xs = concat (map (\<lambda>x. case x of NotifyState c e \<Rightarrow> if c = cb then [e] else [] | _ \<Rightarrow> []) xs)"

lemma notes_of_simps [simp]:
  "notes_of cb [] = []" "notes_of cb (xs @ ys) = notes_of cb xs @ notes_of cb ys"
  by (simp_all add: notes_of_def)

lemma notes_of_publish:
  "distinct subs \<Longrightarrow> cb \<in> set subs \<Longrightarrow> notes_of cb (map (\<lambda>c. NotifyState c e) subs) = [e]"
  using single_note [of subs cb e] by (simp add: notes_of_def comp_def)

lemma published_eq: "trace k' = trace k @ xs \<Longrightarrow> published cb k k' = notes_of cb xs"
  by (simp add: published_def notes_of_def)

definition listening :: "nat \<Rightarrow> 'h kernel \<Rightarrow> bool" where
  "listening cb k = (distinct (stateSubscribers k) \<and> cb \<in> set (stateSubscribers k))"

lemma register_tells:
  assumes "kernel_wf k" "register_ok ag k" "parentId ag \<noteq> None" "listening cb k"
  shows "fold (onState k') (published cb k (register ag k)) l = fold (tell k') [(ag_id ag, True)] l"
    and "told k (register ag k) [(ag_id ag, True)]"
proof -
  from assms(3) obtain p where p: "parentId ag = Some p" by auto
  let ?a = "attach_handler k ag"
  have ev: "added_event ?a p = added_event ag p" by (simp add: added_event_def)
  have "trace (register ag k) = trace k @ map (\<lambda>c. NotifyState c (stamp k (added_event ag p))) (stateSubscribers k)"
    using p ev by (simp add: register_def Let_def link_child_def stamp_def split: option.split)
  then have "published cb k (register ag k) = [stamp k (added_event ag p)]"
    using assms(4) notes_of_publish by (simp add: published_eq listening_def)
  then show "fold (onState k') (published cb k (register ag k)) l = fold (tell k') [(ag_id ag, True)] l" by simp
  have ad: "addresses_ok k" using assms(1) by (simp add: kernel_wf_def)
  have fresh: "get_agent k (ag_id ag) = None" using assms(2) by (simp add: register_ok_def get_agent_def)
  have new: "get_agent (register ag k) j = None" if "get_agent k j = None" "j \<noteq> ag_id ag" for j
    using that by (simp add: get_agent_def)
  have "map_option (\<lambda>a. (parentId a, record_of a)) (get_agent (register ag k) j) =
      map_option (\<lambda>a. (parentId a, record_of a)) (get_agent k j)" if "j \<noteq> ag_id ag" for j
  proof (cases "get_agent k j")
    case (Some a)
    from register_get_agent(2) [OF ad assms(2) Some] Some show ?thesis by auto
  qed (use new that in simp)
  moreover have "parentId a' = parentId a" if "get_agent k j = Some a" "get_agent (register ag k) j = Some a'" for j a a'
    using register_get_agent(2) [OF ad assms(2) that(1)] that(2) by auto
  ultimately show "told k (register ag k) [(ag_id ag, True)]"
    using register_get_agent(1) [OF ad assms(2)] by (auto simp: told_def)
qed

lemma update_tells:
  assumes "kernel_wf k" "listening cb k"
  shows "\<exists>es. fold (onState k') (published cb k (fst (updateMeta i patch k))) l = fold (tell k') es l \<and>
    told k (fst (updateMeta i patch k)) es \<and> map fst es = (if get_agent k i = None then [] else [i])"
proof (cases "map_of (agents k) i")
  case None
  then show ?thesis
    by (intro exI [of _ "[]"]) (auto simp: updateMeta_def told_def published_def get_agent_def)
next
  case (Some a)
  let ?k = "fst (updateMeta i patch k)"
  have "trace ?k = trace k @ map (\<lambda>c. NotifyState c (stamp k (updated_event i patch))) (stateSubscribers k)"
    using Some by (simp add: updateMeta_def Let_def stamp_def)
  then have "published cb k ?k = [stamp k (updated_event i patch)]"
    using assms(2) notes_of_publish by (simp add: published_eq listening_def)
  moreover have "get_agent ?k j = (if j = i then Some ((store k ! a)\<lparr>meta := obj_assign (meta (store k ! a)) patch\<rparr>)
      else get_agent k j)" for j
  proof -
    have ad: "addresses_ok k" using assms(1) by (simp add: kernel_wf_def)
    have st: "agents ?k = agents k" "store ?k =
        (store k)[a := (store k ! a)\<lparr>meta := obj_assign (meta (store k ! a)) patch\<rparr>]"
      using Some by (simp_all add: updateMeta_def Let_def)
    have "a < length (store k)" using ad Some by (simp add: addresses_ok_def)
    moreover have "b \<noteq> a" if "map_of (agents k) j = Some b" "j \<noteq> i" for b
      using addresses_inj [OF ad Some] that by blast
    ultimately show ?thesis using Some by (cases "map_of (agents k) j") (auto simp: get_agent_def st)
  qed
  ultimately show ?thesis
    using Some by (intro exI [of _ "[(i, True)]"]) (auto simp: told_def get_agent_def)
qed

lemma remove_tells:
  assumes "kernel_wf k" "listening cb k" "removed k k2 D js" "D \<subseteq> dom (tree k)"
  shows "fold (onState k') (published cb k k2) l = fold (tell k') (map (\<lambda>j. (j, False)) js) l"
    and "told k k2 (map (\<lambda>j. (j, False)) js)"
proof -
  have n: "notes_of cb (removal_notes k j) = [stamp k (removed_event j (the (get_agent k j)))]" for j
    using assms(2) notes_of_publish by (simp add: removal_notes_def listening_def)
  have "notes_of cb (concat (map (removal_notes k) js)) =
      map (\<lambda>j. stamp k (removed_event j (the (get_agent k j)))) js"
    by (induction js) (simp_all add: n)
  then have pub: "published cb k k2 = map (\<lambda>j. stamp k (removed_event j (the (get_agent k j)))) js"
    using removedD(6) [OF assms(3)] by (simp add: published_eq)
  show "fold (onState k') (published cb k k2) l = fold (tell k') (map (\<lambda>j. (j, False)) js) l"
    unfolding pub by (induction js arbitrary: l) simp_all
  have js: "set js = D" "distinct js" using removedD(3,4) [OF assms(3)] assms(4) by auto
  have ad: "addresses_ok k" using assms(1) by (simp add: kernel_wf_def)
  have gone: "get_agent k2 j = None" if "j \<in> D" for j
    using removedD(2) [OF assms(3)] that by (simp add: get_agent_def map_of_filter_fst)
  have was: "get_agent k j \<noteq> None" if "j \<in> D" for j
    using subsetD [OF assms(4) that] by (auto simp: tree_def split: option.splits)
  have rest: "map_option (\<lambda>a. (parentId a, record_of a)) (get_agent k2 j) =
      map_option (\<lambda>a. (parentId a, record_of a)) (get_agent k j)" if "j \<notin> D" for j
    using removed_get_agent [OF assms(3) ad that]
    by (cases "get_agent k2 j"; cases "get_agent k j") (auto dest: same_core intro!: record_of_cong)
  then have "parentId a' = parentId a" if "get_agent k j = Some a" "get_agent k2 j = Some a'" for j a a'
    using that gone [of j] by (cases "j \<in> D") force+
  with js gone was rest show "told k k2 (map (\<lambda>j. (j, False)) js)"
    by (auto simp: told_def comp_def image_iff)
qed

section \<open>A flush keeps the paths in order\<close>

lemma map_of_obj_assign: "map_of s key = None \<Longrightarrow> map_of (obj_assign ob s) key = map_of ob key"
proof (induction s arbitrary: ob)
  case (Cons x s)
  obtain j v where x: "x = (j, v)" by (cases x)
  with Cons.prems have "j \<noteq> key" "map_of s key = None" by (auto split: if_splits)
  with Cons.IH [of "AList.update j v ob"] x show ?case by (simp add: obj_assign_def)
qed (simp add: obj_assign_def)

lemma flush_record_path:
  assumes "clean_ids k" "get_agent k i = Some a"
  shows "record_path (flush_record l a) = (rewrittenParent l (parentId a), i)"
proof -
  have "ag_id a = i" "map_of (meta a) ''id'' = None" using assms by (auto simp: clean_ids_def)
  then have "map_of (record_of a) ''id'' = Some (JStr i)"
    by (auto simp: record_of_def map_of_obj_assign Let_def split: option.split)
  then show ?thesis by (simp add: record_path_def flush_record_def rec_id_def)
qed

lemma distinct_obj_assign: "distinct (map fst ob) \<Longrightarrow> distinct (map fst (obj_assign ob s))"
  unfolding obj_assign_def by (induction s arbitrary: ob) auto

lemma distinct_flush_record: "distinct (map fst (flush_record l a))"
  by (auto simp: flush_record_def record_of_def Let_def split: option.split intro!: distinct_obj_assign)

text \<open>The bookkeeping with one flush, whose lists are \<open>ps\<close> and \<open>fs\<close>.\<close>

abbreviation flushing :: "loader \<Rightarrow> string list \<Rightarrow> (string \<times> string) list \<Rightarrow> loader" where
  "flushing l ps fs \<equiv> l\<lparr>flushes := [(ps, fs)]\<rparr>"

lemma rewrittenParent_upd [simp]:
  "rewrittenParent (l\<lparr>flushes := x\<rparr>) = rewrittenParent l"
  "rewrittenParent (l\<lparr>dirtyPersist := y, dirtyForget := z\<rparr>) = rewrittenParent l"
  "rewrittenParent (l\<lparr>timer := b\<rparr>) = rewrittenParent l"
  by (auto simp: rewrittenParent_def fun_eq_iff split: option.split)

lemma flush_record_upd [simp]:
  "flush_record (l\<lparr>flushes := x\<rparr>) a = flush_record l a"
  "flush_record (l\<lparr>dirtyPersist := y, dirtyForget := z\<rparr>) a = flush_record l a"
  "flush_record (l\<lparr>timer := b\<rparr>) a = flush_record l a"
  by (simp_all add: flush_record_def)

lemma want_upd [simp]:
  "want k (l\<lparr>flushes := x\<rparr>) q = want k l q"
  "want k (l\<lparr>dirtyPersist := y, dirtyForget := z\<rparr>) q = want k l q"
  "want k (l\<lparr>timer := b\<rparr>) q = want k l q"
  by (simp_all add: want_def split: option.split)

lemma next_send_flushes [simp]: "next_send k (l\<lparr>flushes := x\<rparr>) ps fs = next_send k l ps fs"
  by (induction k l ps fs rule: next_send.induct) (simp_all split: option.split)

lemma skip_ok:
  assumes "get_agent k i = None"
  shows "loader_ok k (flushing l (i # ps) fs) = loader_ok k (flushing l ps fs)"
    and "path_ok k (flushing l (i # ps) fs) m q = path_ok k (flushing l ps fs) m q"
proof -
  show "loader_ok k (flushing l (i # ps) fs) = loader_ok k (flushing l ps fs)"
    by (simp add: loader_ok_def)
  have "want k l q \<noteq> None \<Longrightarrow> snd q \<noteq> i" using assms by (auto simp: want_def)
  then show "path_ok k (flushing l (i # ps) fs) m q = path_ok k (flushing l ps fs) m q"
    by (auto simp: path_ok_def all_persists_def all_forgets_def)
qed

lemma sent_ok:
  "loader_ok k (flushing l (i # ps) fs) \<Longrightarrow> loader_ok k (flushing l ps fs)"
  "loader_ok k (flushing l [] ((i, p) # fs)) \<Longrightarrow> loader_ok k (flushing l [] fs)"
  by (auto simp: loader_ok_def)

lemma flush_done:
  "path_ok k (flushing l [] []) m q = path_ok k (l\<lparr>flushes := []\<rparr>) m q"
  "loader_ok k (flushing l [] []) = loader_ok k (l\<lparr>flushes := []\<rparr>)"
proof -
  have "all_persists (flushing l [] []) = all_persists (l\<lparr>flushes := []\<rparr>)"
    "all_forgets (flushing l [] []) = all_forgets (l\<lparr>flushes := []\<rparr>)"
    by (simp_all add: all_persists_def all_forgets_def)
  then show "path_ok k (flushing l [] []) m q = path_ok k (l\<lparr>flushes := []\<rparr>) m q" by (simp add: path_ok_def)
  show "loader_ok k (flushing l [] []) = loader_ok k (l\<lparr>flushes := []\<rparr>)" by (simp add: loader_ok_def)
qed

lemma flush_begin_ok:
  assumes "loader_ok k l" "flushes l = []"
  shows "loader_ok k (flushing (l\<lparr>dirtyPersist := [], dirtyForget := []\<rparr>) (dirtyPersist l) (dirtyForget l))"
    and "path_ok k (flushing (l\<lparr>dirtyPersist := [], dirtyForget := []\<rparr>) (dirtyPersist l) (dirtyForget l)) m q =
      path_ok k l m q"
proof -
  let ?l = "flushing (l\<lparr>dirtyPersist := [], dirtyForget := []\<rparr>) (dirtyPersist l) (dirtyForget l)"
  have d: "distinct (map fst (dirtyForget l))" using loader_okD(5) [OF assms(1)] .
  have r: "rewrittenParent ?l = rewrittenParent l" by (simp add: rewrittenParent_def fun_eq_iff)
  have "get_agent k i = None" if "(i, p) \<in> set (dirtyForget l)" for i p
    using loader_okD(1) [OF assms(1), of i] map_of_Some_iff [OF d, of i p] that by simp
  then show "loader_ok k ?l"
    using loader_okD(2) [OF assms(1)] unfolding loader_ok_def r by auto
  have "all_persists ?l = all_persists l" "all_forgets ?l = all_forgets l"
    using assms(2) map_of_Some_iff [OF d] by (auto simp: all_persists_def all_forgets_def)
  moreover have "want k ?l q = want k l q" by simp
  ultimately show "path_ok k ?l m q = path_ok k l m q" by (simp add: path_ok_def)
qed

text \<open>
  The runs the mirror theorem is about: clients add fresh agents below registered parents, do not
  overwrite an \<^verbatim>\<open>id\<close>, and bring an id back only below its old parent while its removal is unsent;
  every message arrives and is answered; and no flush starts while another one is running.
\<close>

definition calm :: "'h loader_event \<Rightarrow> ('h, 's) world \<Rightarrow> bool" where
  "calm e w =
     (case e of
        LRegister ag \<Rightarrow> register_ok ag (kern w) \<and> parentId ag \<noteq> None \<and> map_of (meta ag) ''id'' = None \<and>
          ag_id ag \<noteq> hostLoaderId (ldr w) \<and>
          (map_of (dirtyForget (ldr w)) (ag_id ag) = None \<or>
           map_of (dirtyForget (ldr w)) (ag_id ag) = parentId ag)
      | LUpdate i patch \<Rightarrow> map_of patch ''id'' = None
      | LRemove i \<Rightarrow> get_agent (kern w) i \<noteq> None
      | LTimer arrives \<Rightarrow> arrives \<and> flushes (ldr w) = []
      | LFlush arrives \<Rightarrow> arrives \<and> flushes (ldr w) = []
      | LReply n arrives \<Rightarrow> arrives
      | LFail n \<Rightarrow> False
      | LStop arrives \<Rightarrow> False)"

definition calm_step ::
    "(loader_msg \<Rightarrow> 's \<Rightarrow> 's) \<Rightarrow> nat \<Rightarrow> 'h loader_event \<Rightarrow> ('h, 's) world \<Rightarrow> ('h, 's) world option" where
  "calm_step dm cb e w = (if calm e w then loader_step dm cb e w else None)"

text \<open>The kernel side of the invariant.\<close>

definition attached :: "nat \<Rightarrow> 'h kernel \<Rightarrow> loader \<Rightarrow> bool" where
  "attached cb k l = (kernel_wf k \<and> clean_ids k \<and> listening cb k \<and> subscribed l \<and> bridge k \<and>
     hostLoaderId l \<noteq> ''kernel'' \<and> get_agent k (hostLoaderId l) = None)"

lemma attached_reaches: "attached cb k l \<Longrightarrow> reaches_host k l"
  by (simp add: attached_def reaches_host_def resolve_def get_agent_def split: option.split)

lemma get_agent_id: "kernel_wf k \<Longrightarrow> get_agent k i = Some a \<Longrightarrow> ag_id a = i"
  by (auto simp: kernel_wf_def addresses_ok_def get_agent_def)

context host_loader
begin

lemma send_persist_ok:
  assumes "clean_ids k" "get_agent k i = Some a" "path_ok k (flushing l (i # ps) fs) (stored s) q"
  shows "path_ok k (flushing l ps fs) (stored (deliver_msg (PersistRecord (flush_record l a)) s)) q"
proof -
  let ?r = "flush_record l a"
  have rp: "record_path ?r = (rewrittenParent l (parentId a), i)" using flush_record_path [OF assms(1,2)] .
  show "path_ok k (flushing l ps fs) (stored (deliver_msg (PersistRecord ?r) s)) q"
  proof (cases "q = record_path ?r")
    case True
    then have "want k l q = Some ?r" using assms(2) rp by (simp add: want_def)
    with True persist_here [OF distinct_flush_record, of l a s] show ?thesis by (auto simp: path_ok_def covers_def)
  next
    case False
    then have "snd q = i \<Longrightarrow> want k l q = None" using assms(2) rp by (cases q) (auto simp: want_def)
    with persist_there [OF False, of s] assms(3) show ?thesis
      by (auto simp: path_ok_def all_persists_def all_forgets_def split: if_splits)
  qed
qed

lemma send_forget_ok:
  assumes "loader_ok k (flushing l [] ((i, p) # fs))" "path_ok k (flushing l [] ((i, p) # fs)) (stored s) q"
  shows "path_ok k (flushing l [] fs) (stored (deliver_msg (ForgetRecord i p) s)) q"
proof (cases "q = (p, i)")
  case True
  have "i \<in> set (dirtyPersist l)" if "want k l (p, i) \<noteq> None"
    using loader_okD(4) [OF assms(1), of "[]" "(i, p) # fs" i p] that
    by (auto simp: want_def split: option.splits)
  with True forget_here [of i p s] show ?thesis
    by (auto simp: path_ok_def covers_def all_persists_def)
next
  case False
  with forget_there [OF False, of s] assms(2) show ?thesis
    by (cases q) (auto simp: path_ok_def all_persists_def all_forgets_def split: if_splits)
qed

lemma send_next_ok:
  assumes "clean_ids k" "loader_ok k (flushing l ps fs)" "\<And>q. q \<notin> U \<Longrightarrow> path_ok k (flushing l ps fs) (stored s) q"
  shows "case next_send k l ps fs of
      None \<Rightarrow> loader_ok k (l\<lparr>flushes := []\<rparr>) \<and> (\<forall>q. q \<notin> U \<longrightarrow> path_ok k (l\<lparr>flushes := []\<rparr>) (stored s) q)
    | Some (m, ps', fs') \<Rightarrow> loader_ok k (flushing l ps' fs') \<and>
        (\<forall>q. q \<notin> U \<longrightarrow> path_ok k (flushing l ps' fs') (stored (deliver_msg m s)) q)"
  using assms
proof (induction k l ps fs rule: next_send.induct)
  case (1 k l i "is" fs)
  show ?case
  proof (cases "get_agent k i")
    case None
    with 1 show ?thesis by (simp add: skip_ok [OF None])
  next
    case (Some a)
    with send_persist_ok [OF "1.prems"(1) Some] "1.prems"(3) sent_ok(1) [OF "1.prems"(2)] show ?thesis by simp
  qed
next
  case (2 k l i p fs)
  from send_forget_ok [OF "2.prems"(2)] "2.prems"(3) sent_ok(2) [OF "2.prems"(2)] show ?case by simp
next
  case (3 k l)
  then show ?case by (simp add: flush_done)
qed

definition mirror :: "path set \<Rightarrow> nat \<Rightarrow> ('h, 's) world \<Rightarrow> bool" where
  "mirror U cb w = (attached cb (kern w) (ldr w) \<and> loader_ok (kern w) (ldr w) \<and>
     (\<forall>q. q \<notin> U \<longrightarrow> path_ok (kern w) (ldr w) (stored (host w)) q))"

lemma mirror_flush_on:
  assumes a: "attached cb (kern w) (ldr w)" and "flushes (ldr w) = []" and pl: "\<And>t. place [t] = [t]"
    and ok: "loader_ok (kern w) (flushing (ldr w) ps fs)"
    and q: "\<And>q. q \<notin> U \<Longrightarrow> path_ok (kern w) (flushing (ldr w) ps fs) (stored (host w)) q"
  shows "mirror U cb (flush_on deliver_msg True ps fs place w)"
proof -
  have l: "(ldr w)\<lparr>flushes := []\<rparr> = ldr w" using assms(2) by simp
  have c: "clean_ids (kern w)" using a by (simp add: attached_def)
  note r = attached_reaches [OF a]
  show ?thesis
  proof (cases "next_send (kern w) (ldr w) ps fs")
    case None
    with send_next_ok [OF c ok q, of U] l a show ?thesis by (simp add: mirror_def flush_on_def)
  next
    case (Some x)
    obtain m ps' fs' where x: "x = (m, ps', fs')" by (cases x)
    with send_next_ok [OF c ok q, of U] Some a r pl show ?thesis
      by (simp add: mirror_def flush_on_def attached_def)
  qed
qed

lemma mirror_flush:
  assumes "mirror U cb w" "flushes (ldr w) = []"
  shows "mirror U cb (flush deliver_msg True w)"
proof -
  let ?l = "(ldr w)\<lparr>dirtyPersist := [], dirtyForget := []\<rparr>"
  have "mirror U cb (flush_on deliver_msg True (dirtyPersist (ldr w)) (dirtyForget (ldr w))
      (\<lambda>t. flushes ?l @ t) (w\<lparr>ldr := ?l\<rparr>))"
    using assms flush_begin_ok [of "kern w" "ldr w"]
    by (intro mirror_flush_on) (auto simp: mirror_def attached_def)
  then show ?thesis by (simp add: flush_def flush_begin_def)
qed

lemma mirror_told:
  assumes m: "mirror U cb w" and t: "told (kern w) k' es" and a: "attached cb k' (ldr w)"
    and p: "same_place k' (ldr w)"
    and l: "fold (onState k') (published cb (kern w) k') (ldr w) = fold (tell k') es (ldr w)"
  shows "mirror U cb (kernel_did cb k' w)"
proof -
  have s: "subscribed (ldr w)" using m by (simp add: mirror_def attached_def)
  have ok: "loader_ok (kern w) (ldr w)" using m by (simp add: mirror_def)
  have "path_ok k' (fold (tell k') es (ldr w)) (stored (host w)) q" if "q \<notin> U" for q
    using tells_path_ok [OF ok t p] m that by (cases q) (simp add: mirror_def)
  moreover have "attached cb k' (fold (tell k') es (ldr w))" using a by (simp add: attached_def)
  ultimately show ?thesis
    using tells_loader_ok [OF ok t] by (simp add: mirror_def kernel_did_def s l)
qed

lemma mirror_register:
  assumes m: "mirror U cb w" and c: "calm (LRegister ag) w"
  shows "mirror U cb (kernel_did cb (register ag (kern w)) w)"
proof -
  let ?k = "kern w" and ?l = "ldr w"
  have wf: "kernel_wf ?k" and li: "listening cb ?k" and cl: "clean_ids ?k" and ok: "loader_ok ?k ?l"
    using m by (simp_all add: mirror_def attached_def)
  have ro: "register_ok ag ?k" and pn: "parentId ag \<noteq> None" using c by (simp_all add: calm_def)
  have ad: "addresses_ok ?k" using wf by (simp add: kernel_wf_def)
  note t = register_tells [OF wf ro pn li]
  have new: "get_agent (register ag ?k) j = (if j = ag_id ag then Some (attach_handler ?k ag)
      else get_agent (register ag ?k) j)" for j using register_get_agent(1) [OF ad ro] by simp
  have old: "\<exists>a0. get_agent ?k j = Some a0 \<and> parentId a = parentId a0 \<and> meta a = meta a0"
    if "get_agent (register ag ?k) j = Some a" "j \<noteq> ag_id ag" for j a
  proof -
    from that obtain x where x: "map_of (agents ?k) j = Some x" "a = store (register ag ?k) ! x"
      by (auto simp: get_agent_def fun_upd_def)
    then have "x < length (store ?k)" using ad by (auto simp: addresses_ok_def)
    with x register_core [OF ad ro] show ?thesis by (simp add: get_agent_def)
  qed
  have clean: "clean_ids (register ag ?k)"
    unfolding clean_ids_def
  proof (intro allI impI)
    fix i a assume a: "get_agent (register ag ?k) i = Some a"
    have "map_of (meta a) ''id'' = None"
    proof (cases "i = ag_id ag")
      case True
      then show ?thesis using a new [of i] c by (simp add: calm_def)
    next
      case False
      with old [OF a] cl show ?thesis by (auto simp: clean_ids_def)
    qed
    with get_agent_id [OF register_wf [OF wf ro] a] show "ag_id a = i \<and> map_of (meta a) ''id'' = None" by simp
  qed
  have "same_place (register ag ?k) ?l"
    unfolding same_place_def
  proof (intro allI impI)
    fix i a p assume a: "get_agent (register ag ?k) i = Some a" and p: "map_of (dirtyForget ?l) i = Some p"
    have i: "i = ag_id ag" using old [OF a] loader_okD(1) [OF ok, of i] p by auto
    with a new [of i] have "parentId a = parentId ag" by simp
    with c p i show "rewrittenParent ?l (parentId a) = p" by (auto simp: calm_def rewrittenParent_def)
  qed
  moreover have "attached cb (register ag ?k) ?l"
    using m c clean register_wf [OF wf ro] by (auto simp: mirror_def attached_def listening_def calm_def get_agent_def)
  ultimately show ?thesis using mirror_told [OF m t(2)] t(1) by blast
qed

lemma mirror_update:
  assumes m: "mirror U cb w" and c: "calm (LUpdate i patch) w"
  shows "mirror U cb (kernel_did cb (fst (updateMeta i patch (kern w))) w)"
proof -
  let ?k = "kern w" and ?l = "ldr w" let ?k' = "fst (updateMeta i patch ?k)"
  have wf: "kernel_wf ?k" and li: "listening cb ?k" and cl: "clean_ids ?k" and ok: "loader_ok ?k ?l"
    using m by (simp_all add: mirror_def attached_def)
  obtain es where es: "\<And>k'. fold (onState ?k') (published cb ?k ?k') ?l = fold (tell ?k') es ?l" "told ?k ?k' es"
    using update_tells [OF wf li, of ?k' i patch ?l] by blast
  have wf': "kernel_wf ?k'" using wf same_tree_updateMeta by (rule same_tree_wf)
  have ga: "get_agent ?k' j \<noteq> None \<longleftrightarrow> get_agent ?k j \<noteq> None" for j
    by (auto simp: updateMeta_def get_agent_def Let_def split: option.split)
  have meta: "\<exists>a0. get_agent ?k j = Some a0 \<and> (meta a = meta a0 \<or> meta a = obj_assign (meta a0) patch)"
    if "get_agent ?k' j = Some a" for j a
    using that wf by (auto simp: updateMeta_def get_agent_def Let_def kernel_wf_def addresses_ok_def
        nth_list_update split: option.splits if_splits)
  have "clean_ids ?k'"
    unfolding clean_ids_def
  proof (intro allI impI)
    fix j a assume a: "get_agent ?k' j = Some a"
    from meta [OF a] cl c have "map_of (meta a) ''id'' = None"
      by (auto simp: clean_ids_def calm_def map_of_obj_assign)
    with get_agent_id [OF wf' a] show "ag_id a = j \<and> map_of (meta a) ''id'' = None" by simp
  qed
  then have "attached cb ?k' ?l"
    using m wf' ga [of "hostLoaderId ?l"] by (simp add: mirror_def attached_def listening_def)
      (simp add: updateMeta_def Let_def split: option.split)
  moreover have "same_place ?k' ?l"
    using loader_okD(1) [OF ok] ga unfolding same_place_def by (metis option.distinct(1))
  ultimately show ?thesis using mirror_told [OF m es(2)] es(1) by simp
qed

lemma mirror_remove:
  assumes m: "mirror U cb w" and c: "calm (LRemove i) w"
    and r: "remove (length (agents (kern w))) i (kern w) = Some (k', b)"
  shows "mirror U cb (kernel_did cb k' w)"
proof -
  let ?k = "kern w" and ?l = "ldr w"
  have wf: "kernel_wf ?k" and li: "listening cb ?k" and cl: "clean_ids ?k" and ok: "loader_ok ?k ?l"
    using m by (simp_all add: mirror_def attached_def)
  have i: "map_of (agents ?k) i \<noteq> None" using c by (auto simp: calm_def get_agent_def)
  have "card (subtree (tree ?k) i) \<le> length (agents ?k)" using card_subtree_agents [OF wf i] .
  with removes_correct [OF wf, of "[i]" "length (agents ?k)"] r i obtain js where
    js: "removed ?k k' (subtree (tree ?k) i) js" by (auto simp: remove_def)
  have sub: "subtree (tree ?k) i \<subseteq> dom (tree ?k)"
    using subtree_subset_dom [of "tree ?k" i] i by (auto simp: tree_def get_agent_def)
  note t = remove_tells [OF wf li js sub]
  have ad: "addresses_ok ?k" using wf by (simp add: kernel_wf_def)
  have old: "\<exists>a0. get_agent ?k j = Some a0 \<and> a\<lparr>children := []\<rparr> = a0\<lparr>children := []\<rparr>" if a: "get_agent k' j = Some a" for j a
  proof -
    have "j \<notin> subtree (tree ?k) i" using a removedD(2) [OF js] by (auto simp: get_agent_def map_of_filter_fst split: if_splits)
    from removed_get_agent [OF js ad this] a show ?thesis by (cases "get_agent ?k j") auto
  qed
  have "clean_ids k'"
    unfolding clean_ids_def
  proof (intro allI impI)
    fix j a assume a: "get_agent k' j = Some a"
    from old [OF a] cl have "map_of (meta a) ''id'' = None" by (auto simp: clean_ids_def dest: same_core(3))
    with get_agent_id [OF removedD(1) [OF js] a] show "ag_id a = j \<and> map_of (meta a) ''id'' = None" by simp
  qed
  moreover have "get_agent k' (hostLoaderId ?l) = None" using old m by (fastforce simp: mirror_def attached_def)
  ultimately have "attached cb k' ?l" using m js by (simp add: mirror_def attached_def removed_def listening_def)
  moreover have "same_place k' ?l"
    using loader_okD(1) [OF ok] old unfolding same_place_def by (metis option.distinct(1))
  ultimately show ?thesis using mirror_told [OF m t(2)] t(1) by blast
qed

lemma mirror_reply:
  assumes m: "mirror U cb w" and r: "loader_step deliver_msg cb (LReply n True) w = Some w'"
  shows "mirror U cb w'"
proof -
  have ok: "loader_ok (kern w) (ldr w)" using m by (simp add: mirror_def)
  from r loader_okD(3) [OF ok] obtain ps fs where f: "flushes (ldr w) = [(ps, fs)]" and n: "n = 0"
    by (cases "flushes (ldr w)") (auto split: if_splits)
  have l: "flushing (ldr w) ps fs = ldr w" using f by simp
  let ?w = "w\<lparr>ldr := (ldr w)\<lparr>flushes := []\<rparr>\<rparr>"
  have "mirror U cb (flush_on deliver_msg True ps fs (\<lambda>t. [] @ t @ []) ?w)"
    using m l by (intro mirror_flush_on) (auto simp: mirror_def attached_def)
  moreover have "w' = flush_on deliver_msg True ps fs (\<lambda>t. [] @ t @ []) ?w"
    using r f n by (simp add: append_Nil [abs_def])
  ultimately show ?thesis by simp
qed

lemma mirror_step:
  assumes "mirror U cb w" "calm_step deliver_msg cb e w = Some w'" shows "mirror U cb w'"
proof -
  have c: "calm e w" and s: "loader_step deliver_msg cb e w = Some w'"
    using assms(2) by (auto simp: calm_step_def split: if_splits)
  show ?thesis
  proof (cases e)
    case (LTimer arrives)
    let ?w = "w\<lparr>ldr := (ldr w)\<lparr>timer := False\<rparr>\<rparr>"
    have "all_persists (ldr ?w) = all_persists (ldr w)" "all_forgets (ldr ?w) = all_forgets (ldr w)"
      by (simp_all add: all_persists_def all_forgets_def)
    then have "path_ok (kern ?w) (ldr ?w) m q = path_ok (kern w) (ldr w) m q" for m q by (simp add: path_ok_def)
    moreover have "loader_ok (kern ?w) (ldr ?w) = loader_ok (kern w) (ldr w)" by (simp add: loader_ok_def)
    ultimately have "mirror U cb ?w" using assms(1) by (simp add: mirror_def attached_def)
    with mirror_flush [of U cb ?w] LTimer c s show ?thesis by (auto simp: calm_def split: if_splits)
  next
    case (LReply n arrives)
    with mirror_reply [OF assms(1)] c s show ?thesis by (simp add: calm_def)
  next
    case (LRemove i)
    with mirror_remove [OF assms(1)] c s show ?thesis by auto
  next
    case (LRegister ag)
    with mirror_register [OF assms(1), of ag] c s show ?thesis by auto
  qed (use assms(1) c s mirror_update mirror_flush in \<open>auto simp: calm_def\<close>)
qed

lemma mirror_quiescent:
  assumes "mirror U cb w" "dirtyPersist (ldr w) = []" "dirtyForget (ldr w) = []" "flushes (ldr w) = []" "q \<notin> U"
  shows "covers (stored (host w) q) (want (kern w) (ldr w) q)"
proof -
  have "path_ok (kern w) (ldr w) (stored (host w)) q" using assms(1,5) unfolding mirror_def by blast
  with assms show ?thesis by (simp add: path_ok_def all_persists_def all_forgets_def split: if_splits)
qed

end

section \<open>A host that stores records by path\<close>

type_synonym path_host = "(path \<times> agent_record) list"

definition path_persist :: "agent_record \<Rightarrow> path_host \<Rightarrow> path_host" where
  "path_persist r h = AList.update (record_path r)
     (obj_assign (case map_of h (record_path r) of Some r0 \<Rightarrow> r0 | None \<Rightarrow> []) r) h"

definition path_forget :: "string \<Rightarrow> string \<Rightarrow> path_host \<Rightarrow> path_host" where
  "path_forget i p h = AList.delete (p, i) h"

fun deliver_path :: "loader_msg \<Rightarrow> path_host \<Rightarrow> path_host" where
  "deliver_path (PersistRecord r) h = path_persist r h"
| "deliver_path (ForgetRecord i p) h = path_forget i p h"

lemma obj_assign_covers: "distinct (map fst s) \<Longrightarrow> map_of s \<subseteq>\<^sub>m map_of (obj_assign ob s)"
proof (induction s arbitrary: ob)
  case (Cons x s)
  obtain j v where x: "x = (j, v)" by (cases x)
  with Cons.prems have "map_of s j = None" by (auto simp: map_of_eq_None_iff)
  then have "map_of (obj_assign (AList.update j v ob) s) j = Some v" by (simp add: map_of_obj_assign)
  moreover have "map_of s \<subseteq>\<^sub>m map_of (obj_assign (AList.update j v ob) s)" using Cons by simp
  moreover have "obj_assign ob (x # s) = obj_assign (AList.update j v ob) s" by (simp add: obj_assign_def x)
  ultimately show ?case by (auto simp: x map_le_def)
qed (simp add: map_le_def)

interpretation path_host: host_loader "\<lambda>h :: path_host. map_of h" deliver_path
proof
  fix r :: agent_record and s :: path_host assume "distinct (map fst r)"
  then show "\<exists>r'. map_of (deliver_path (PersistRecord r) s) (record_path r) = Some r' \<and> map_of r \<subseteq>\<^sub>m map_of r'"
    by (simp add: path_persist_def obj_assign_covers)
qed (auto simp: path_persist_def path_forget_def)

section \<open>The mirror\<close>

lemma start_fold:
  assumes "addresses_ok k" "set xs \<subseteq> set (agents k)"
  shows "hostRootId (fold (enqueue k) xs l) = hostRootId l \<and> hostLoaderId (fold (enqueue k) xs l) = hostLoaderId l \<and>
    subscribed (fold (enqueue k) xs l) = subscribed l \<and> flushes (fold (enqueue k) xs l) = flushes l \<and>
    dirtyForget (fold (enqueue k) xs l) = dirtyForget l \<and>
    set (dirtyPersist (fold (enqueue k) xs l)) = set (dirtyPersist l) \<union> fst ` set xs \<and>
    (\<forall>i. map_of (parents (fold (enqueue k) xs l)) i = (if i \<in> fst ` set xs
       then Some (rewrittenParent l (parentId (the (get_agent k i)))) else map_of (parents l) i))"
  using assms(2)
proof (induction xs arbitrary: l)
  case (Cons x xs)
  obtain i a where x: "x = (i, a)" by (cases x)
  have "map_of (agents k) i = Some a"
    using Cons.prems x assms(1) map_of_Some_iff [of "agents k" i a] by (auto simp: addresses_ok_def)
  then have i: "ag_id (store k ! a) = i" "the (get_agent k i) = store k ! a"
    using assms(1) by (auto simp: addresses_ok_def get_agent_def)
  have rp: "rewrittenParent (enqueue k x l) = rewrittenParent l"
    by (auto simp: rewrittenParent_def enqueue_def Let_def fun_eq_iff split: option.split)
  have e: "hostRootId (enqueue k x l) = hostRootId l" "hostLoaderId (enqueue k x l) = hostLoaderId l"
    "subscribed (enqueue k x l) = subscribed l" "flushes (enqueue k x l) = flushes l"
    "dirtyForget (enqueue k x l) = dirtyForget l"
    "set (dirtyPersist (enqueue k x l)) = insert i (set (dirtyPersist l))"
    "map_of (parents (enqueue k x l)) = (map_of (parents l))(i \<mapsto> rewrittenParent l (parentId (the (get_agent k i))))"
    using i by (simp_all add: enqueue_def Let_def x)
  from Cons.IH [of "enqueue k x l"] Cons.prems rp e show ?case by (auto simp: x)
qed simp

lemma start_mirror:
  assumes wf: "kernel_wf k" and cl: "clean_ids k" and "bridge k" "distinct (stateSubscribers k)"
    and "hostLoaderId l \<noteq> ''kernel''" "get_agent k (hostLoaderId l) = None"
    and l: "\<not> subscribed l" "dirtyPersist l = []" "dirtyForget l = []" "flushes l = []"
    and h: "\<And>q. q \<notin> U \<Longrightarrow> map_of h q \<noteq> None \<Longrightarrow> want k l q \<noteq> None"
  shows "path_host.mirror U cb \<lparr>kern = addStateSubscriber cb k, ldr = start k l, host = h\<rparr>"
proof -
  let ?k = "addStateSubscriber cb k" and ?l = "start k l"
  have ad: "addresses_ok k" using wf by (simp add: kernel_wf_def)
  have ga: "get_agent ?k = get_agent k" by (auto simp: addStateSubscriber_def get_agent_def)
  note f = start_fold [OF ad subset_refl, of l]
  have s: "hostRootId ?l = hostRootId l" "hostLoaderId ?l = hostLoaderId l" "subscribed ?l" "flushes ?l = []"
    "dirtyForget ?l = []" "set (dirtyPersist ?l) = fst ` set (agents k)"
    "\<And>i. i \<in> fst ` set (agents k) \<Longrightarrow>
      map_of (parents ?l) i = Some (rewrittenParent l (parentId (the (get_agent k i))))"
    using f l by (auto simp: start_def Let_def schedule_def)
  have rp: "rewrittenParent ?l = rewrittenParent l" using s(1) by (auto simp: rewrittenParent_def fun_eq_iff split: option.split)
  have wt: "want ?k ?l q = want k l q" for q by (simp add: want_def ga flush_record_def rp split: option.split)
  have "attached cb ?k ?l"
    using assms(3-6) cl addStateSubscriber_wf [OF wf] s(2,3) ga
    by (auto simp: attached_def clean_ids_def listening_def addStateSubscriber_def)
  moreover have "loader_ok ?k ?l"
  proof -
    have "map_of (parents ?l) i = Some (rewrittenParent l (parentId a))" if "get_agent k i = Some a" for i a
    proof -
      have "i \<in> fst ` set (agents k)"
        using that by (auto simp: get_agent_def dest!: map_of_SomeD intro: rev_image_eqI)
      with s(7) that show ?thesis by simp
    qed
    with s(4,5) show ?thesis by (simp add: loader_ok_def ga rp)
  qed
  moreover have "path_ok ?k ?l (map_of h) q" if "q \<notin> U" for q
  proof (cases "want k l q")
    case None
    then have "map_of h q = None" using h [OF that] by (cases "map_of h q") auto
    with None show ?thesis by (simp add: path_ok_def wt covers_def)
  next
    case (Some r)
    then have "snd q \<in> fst ` set (agents k)"
      by (auto simp: want_def get_agent_def split: option.splits dest: map_of_SomeD intro: rev_image_eqI)
    with Some s(6) show ?thesis by (simp add: path_ok_def wt all_persists_def)
  qed
  ultimately show ?thesis by (simp add: path_host.mirror_def)
qed

interpretation path_mirror: step_invariant "calm_step deliver_path cb" "\<lambda>_. True" "path_host.mirror U cb" for U cb
  by unfold_locales (rule path_host.mirror_step)

end
