(* ===== verification/Loader_Props.thy ===== *)
theory Loader_Props
  imports Proxy_Loader
begin

text \<open>
  More about \<^verbatim>\<open>proxy_loader.ts\<close>: what the loader has flushed hydrates back into the same records,
  concrete runs of the mirror theorem of \<open>Proxy_Loader\<close>, and the three situations outside its
  hypotheses in which the host ends up different from the kernel.
\<close>

section \<open>Hydrating what was flushed\<close>

lemma validate_ids_cong:
  "map (\<lambda>r. (map_of r ''id'', parent_of r)) rs = map (\<lambda>r. (map_of r ''id'', parent_of r)) rs' \<Longrightarrow>
   validate_ids rs ids root = validate_ids rs' ids root"
proof (induction rs arbitrary: rs' ids root)
  case (Cons r rs)
  then obtain r' rs1 where rs': "rs' = r' # rs1" by (cases rs') auto
  with Cons show ?case
    by (auto simp: Let_def split: option.split)
qed simp

lemma validate_parents_cong:
  "map (\<lambda>r. (map_of r ''id'', parent_of r)) rs = map (\<lambda>r. (map_of r ''id'', parent_of r)) rs' \<Longrightarrow>
   validate_parents rs ids = validate_parents rs' ids"
proof (induction rs arbitrary: rs')
  case (Cons r rs)
  then obtain r' rs1 where rs': "rs' = r' # rs1" by (cases rs') auto
  with Cons show ?case by (auto split: option.split)
qed simp

lemma validateRecords_cong:
  assumes "map (\<lambda>r. (map_of r ''id'', parent_of r)) rs = map (\<lambda>r. (map_of r ''id'', parent_of r)) rs'"
  shows "validateRecords rs v = validateRecords rs' v"
proof -
  have "rs = [] \<longleftrightarrow> rs' = []" using arg_cong [OF assms, of length] by auto
  moreover have "validate_parents rs = validate_parents rs'"
    by (rule ext) (rule validate_parents_cong [OF assms])
  ultimately show ?thesis unfolding validateRecords_def
    by (auto simp: validate_ids_cong [OF assms] split: sum.split option.split)
qed

lemma valid_snapshot_mset:
  assumes "valid_snapshot rs root" "mset rs' = mset rs" shows "valid_snapshot rs' root"
proof -
  have s: "set rs' = set rs" using assms(2) by (metis set_mset_mset)
  have "mset (map rec_id rs') = mset (map rec_id rs)" using assms(2) by simp
  then have d: "distinct (map rec_id rs')" using assms(1)
    by (metis mset_eq_imp_distinct_iff valid_snapshot_def)
  have "mset (map rec_id (roots rs')) = mset (map rec_id (roots rs))"
    using assms(2) by (simp add: roots_def)
  moreover have "map rec_id (roots rs) = [root]" using assms(1) by (simp add: valid_snapshot_def)
  ultimately have "mset (map rec_id (roots rs')) = {#root#}" by simp
  then have "map rec_id (roots rs') = [root]" by (metis mset_single_iff)
  with assms(1) d show ?thesis by (simp add: valid_snapshot_def s)
qed

lemma saved_records_valid:
  assumes "saveable k root" shows "validateRecords (saved_records k) CURRENT_VERSION = Inr root"
proof -
  have "valid_snapshot (saved_records k) root"
    using saved_snapshot_valid(1) [OF assms] by (rule valid_snapshot_mset) simp
  then show ?thesis by (simp add: validate_steps validate_steps_valid)
qed

text \<open>The record the host got for an agent, after \<^verbatim>\<open>loadTree\<close> has re-rooted it.\<close>

lemma reroot_flush_record:
  assumes "meta_ok a" "hostRootId l = A" "parentId a \<noteq> Some A" "parentId a \<noteq> Some alias"
  shows "parent_of (reroot alias (Some (JStr A)) (flush_record l a)) = parent_of (record_of a)"
    and "x \<noteq> ''parent_id'' \<Longrightarrow>
      map_of (reroot alias (Some (JStr A)) (flush_record l a)) x = map_of (record_of a) x"
proof -
  show "x \<noteq> ''parent_id'' \<Longrightarrow>
      map_of (reroot alias (Some (JStr A)) (flush_record l a)) x = map_of (record_of a) x"
    by (simp add: reroot_def flush_record_def)
  show "parent_of (reroot alias (Some (JStr A)) (flush_record l a)) = parent_of (record_of a)"
    using assms record_of_lookup(3) [OF assms(1)]
    by (cases "parentId a") (auto simp: reroot_def flush_record_def rewrittenParent_def parent_of_def)
qed

text \<open>What \<^verbatim>\<open>loadTree\<close> makes of the records a flush wrote.\<close>

lemma loadTree_of_flush:
  assumes "saveable k root" "get_agent k A = None" "get_agent k alias = None" "hostRootId l = A"
    and "map_of anchor ''id'' = Some (JStr A)" "is_anchor alias anchor"
    and "loadTree (anchor # map (\<lambda>(_, a). flush_record l (store k ! a)) (agents k)) (new_loader alias) = (l', rs)"
  shows "hostRootId l' = A \<and> validateRecords rs CURRENT_VERSION = Inr root \<and>
    list_all2 (\<lambda>r (_, a). parent_of r = parent_of (record_of (store k ! a)) \<and>
      (\<forall>x. x \<noteq> ''parent_id'' \<longrightarrow> map_of r x = map_of (record_of (store k ! a)) x)) rs (agents k)"
proof -
  have wf: "kernel_wf k" and ok: "\<And>i a. get_agent k i = Some a \<Longrightarrow> meta_ok a"
    using assms(1) by (auto simp: saveable_def)
  let ?f = "\<lambda>(_ :: string, a). reroot alias (Some (JStr A)) (flush_record l (store k ! a))"
  have ag: "get_agent k i = Some (store k ! a) \<and> ag_id (store k ! a) = i \<and> meta_ok (store k ! a) \<and>
      parentId (store k ! a) \<noteq> Some A \<and> parentId (store k ! a) \<noteq> Some alias"
    if "(i, a) \<in> set (agents k)" for i a
  proof -
    have g: "get_agent k i = Some (store k ! a)"
      using that wf by (simp add: get_agent_def kernel_wf_def addresses_ok_def map_of_Some_iff)
    then have "\<exists>b. get_agent k p = Some b" if "parentId (store k ! a) = Some p" for p
      using that wf by (fastforce simp: kernel_wf_def forest_ok_def tree_def)
    with g ok assms(2,3) get_agent_id [OF wf g] show ?thesis by force
  qed
  have an: "find_anchor alias (anchor # xs) = Some (JStr A)" for xs
    using assms(5,6) by (simp add: find_anchor_def)
  have stay: "filter (\<lambda>r. map_of r ''id'' \<noteq> Some (JStr A))
      (map (\<lambda>(_, a). flush_record l (store k ! a)) xs) = map (\<lambda>(_, a). flush_record l (store k ! a)) xs"
    if "set xs \<subseteq> set (agents k)" for xs
    using that
  proof (induction xs)
    case (Cons x xs)
    obtain i a where x: "x = (i, a)" by (cases x)
    with Cons.prems ag have "rec_id (record_of (store k ! a)) = i" "i \<noteq> A"
      using record_of_lookup(1) assms(2) by fastforce+
    then have "map_of (record_of (store k ! a)) ''id'' \<noteq> Some (JStr A)" by (auto simp: rec_id_def)
    with Cons x show ?case by (simp add: flush_record_def)
  qed simp
  have rs: "hostRootId l' = A" "rs = map ?f (agents k)"
    using assms(7) stay [OF subset_refl] assms(5)
    by (auto simp: loadTree_def Let_def an new_loader_def case_prod_unfold comp_def)
  have f: "parent_of (?f x) = parent_of (record_of (store k ! snd x)) \<and>
      (\<forall>y. y \<noteq> ''parent_id'' \<longrightarrow> map_of (?f x) y = map_of (record_of (store k ! snd x)) y)"
    if "x \<in> set (agents k)" for x
  proof -
    obtain i a where x: "x = (i, a)" by (cases x)
    with that ag [of i a] reroot_flush_record [of "store k ! a" l A "alias"] assms(4) show ?thesis by simp
  qed
  have "validateRecords rs CURRENT_VERSION = validateRecords (saved_records k) CURRENT_VERSION"
    unfolding rs(2) saved_records_def using f by (intro validateRecords_cong) (force simp: case_prod_unfold)
  moreover have "list_all2 (\<lambda>r (_, a). parent_of r = parent_of (record_of (store k ! a)) \<and>
      (\<forall>x. x \<noteq> ''parent_id'' \<longrightarrow> map_of r x = map_of (record_of (store k ! a)) x)) rs (agents k)"
    unfolding rs(2) list_all2_map1 using f by (intro list_all2_same [THEN iffD2]) (force simp: case_prod_unfold)
  ultimately show ?thesis using saved_records_valid [OF assms(1)] rs(1) by simp
qed

text \<open>
  Hydration undoes the flush. Let the host hold the loader's own record (the anchor, found by id
  or by alias) and, for every agent of a saveable tree, the record a flush writes. If no agent is
  named like the anchor or its alias, \<^verbatim>\<open>loadTree\<close> learns the anchor's real id and returns one
  record per agent, with the agent's parent (none for the root) and every other field unchanged;
  \<^verbatim>\<open>kernel.load\<close> accepts these records and finds the old root.
\<close>

theorem loadTree_undoes_flush:
  assumes "saveable k root" "get_agent k A = None" "get_agent k alias = None" "hostRootId l = A"
    and "map_of anchor ''id'' = Some (JStr A)" "is_anchor alias anchor"
    and "loadTree (anchor # map (\<lambda>(_, a). flush_record l (store k ! a)) (agents k)) (new_loader alias) = (l', rs)"
  shows "hostRootId l' = A \<and> validateRecords rs CURRENT_VERSION = Inr root \<and>
    list_all2 (\<lambda>r (_, a). parent_of r = parent_of (record_of (store k ! a)) \<and>
      (\<forall>x. x \<noteq> ''parent_id'' \<longrightarrow> map_of r x = map_of (record_of (store k ! a)) x)) rs (agents k)"
  using assms by (rule loadTree_of_flush)

definition sample_anchor :: agent_record where
  "sample_anchor = [(''id'', JStr ''ts_1''), (''alias'', JStr ''ts_root'')]"

theorem loadTree_undoes_flush_witness:
  "hostRootId (fst (loadTree (sample_anchor # map (\<lambda>(_, a). flush_record ((new_loader ''ts_root'')\<lparr>hostRootId := ''ts_1''\<rparr>)
      (store sample_kernel ! a)) (agents sample_kernel)) (new_loader ''ts_root''))) = ''ts_1''"
  using loadTree_undoes_flush [OF sample_saveable, of "''ts_1''" "''ts_root''"
      "(new_loader ''ts_root'')\<lparr>hostRootId := ''ts_1''\<rparr>" sample_anchor]
  by (simp add: get_agent_def sample_agents sample_anchor_def is_anchor_def prod_eq_iff)


section \<open>The mirror\<close>


section \<open>Runs of the loader\<close>

text \<open>A loader started on the sample tree, hydrated from an empty host.\<close>

definition world0 :: "(nat, path_host) world" where
  "world0 = (let k = sample_kernel\<lparr>bridge := True\<rparr>; l = fst (loadTree [] (new_loader ''ts_root''))
     in \<lparr>kern = addStateSubscriber 7 k, ldr = start k l, host = []\<rparr>)"

definition calm_run :: "nat loader_event list" where
  "calm_run = [LRemove ''b'', LTimer True, LReply 0 True, LReply 0 True, LReply 0 True]"

lemma calm_run_ends:
  "case run_events (calm_step deliver_path 7) calm_run world0 of None \<Rightarrow> False
   | Some w \<Rightarrow> dirtyPersist (ldr w) = [] \<and> dirtyForget (ldr w) = [] \<and> flushes (ldr w) = [] \<and>
     want (kern w) (ldr w) (''canvas'', ''a'') \<noteq> None \<and> want (kern w) (ldr w) (''a'', ''b'') = None"
  by code_simp

lemma world0_start:
  "world0 = \<lparr>kern = addStateSubscriber 7 (sample_kernel\<lparr>bridge := True\<rparr>),
     ldr = start (sample_kernel\<lparr>bridge := True\<rparr>) (fst (loadTree [] (new_loader ''ts_root''))), host = []\<rparr>"
  by (simp add: world0_def Let_def)


text \<open>
  Flushes are not serialised. If a reply takes longer than the debounce window, a second flush
  starts while the first is waiting; an agent whose removal the first flush has still to send and
  which is registered again in the meantime is first persisted by the second flush and then
  forgotten by the first. In the end nothing is pending, the kernel has the agent and the host
  has lost it.
\<close>

theorem overlapping_flushes_lose_record:
  "case run_events (loader_step deliver_path 7)
      [LTimer True, LReply 0 True, LReply 0 True, LReply 0 True,
       LUpdate ''canvas'' [(''x'', JNum 1)], LRemove ''b'', LTimer True,
       LRegister (leaf_agent ''b'' (Some ''a'')), LTimer True, LReply 0 True, LReply 0 True, LReply 0 True]
      world0 of
     None \<Rightarrow> False
   | Some w \<Rightarrow> dirtyPersist (ldr w) = [] \<and> dirtyForget (ldr w) = [] \<and> flushes (ldr w) = [] \<and>
       get_agent (kern w) ''b'' \<noteq> None \<and> map_of (host w) (''a'', ''b'') = None"
  by code_simp

text \<open>
  Moving an agent is not mirrored. An agent removed and registered again below another parent
  within one debounce window cancels its pending \<^verbatim>\<open>forget_record\<close>, so its old record stays on the
  host beside the new one; the next hydration is rejected because the id occurs twice.
\<close>

theorem moved_agent_leaves_stale_record:
  "case run_events (loader_step deliver_path 7)
      [LTimer True, LReply 0 True, LReply 0 True, LReply 0 True,
       LRemove ''b'', LRegister (leaf_agent ''b'' (Some ''canvas'')), LTimer True, LReply 0 True] world0 of
     None \<Rightarrow> False
   | Some w \<Rightarrow> dirtyPersist (ldr w) = [] \<and> dirtyForget (ldr w) = [] \<and> flushes (ldr w) = [] \<and>
       map_of (host w) (''a'', ''b'') \<noteq> None \<and> map_of (host w) (''canvas'', ''b'') \<noteq> None \<and>
       validateRecords (snd (loadTree (map snd (host w)) (new_loader ''ts_root''))) CURRENT_VERSION =
         Inl (DuplicateId ''b'')"
  by code_simp

text \<open>
  A failed send drops the rest of a flush. The dirty sets are cleared before the first message
  is sent, so when one \<^verbatim>\<open>persist_record\<close> is rejected the remaining records of that flush are sent
  neither then nor by any later flush.
\<close>

theorem failed_send_drops_flush:
  "case run_events (loader_step deliver_path 7) [LTimer True, LFail 0, LFlush True, LStop True] world0 of
     None \<Rightarrow> False
   | Some w \<Rightarrow> dirtyPersist (ldr w) = [] \<and> dirtyForget (ldr w) = [] \<and> flushes (ldr w) = [] \<and>
       get_agent (kern w) ''a'' \<noteq> None \<and> map_of (host w) (''canvas'', ''a'') = None"
  by code_simp

end
