(* ===== verification/Page_Frame.thy ===== *)
theory Page_Frame
  imports Frame
begin

text \<open>
  The codec of the script that is injected into every served page,
  \<^verbatim>\<open>rust/crates/bundles/fantastic-web/src/transport.js\<close> (the Swift host ships the same script). It is
  a second implementation of the wire format of \<open>Frame\<close>: its path helpers return early where
  those of \<^verbatim>\<open>frame.ts\<close> throw, and read array indices with \<^verbatim>\<open>parseInt\<close>. The main result is that the
  two codecs agree on everything that can be sent, so either end may be either program.
\<close>

section \<open>The page's agent id\<close>

text \<open>\<^verbatim>\<open>location.pathname.split('/').filter(Boolean)\<close>\<close>

fun split_slash :: "string \<Rightarrow> string list" where
  "split_slash [] = [[]]"
| "split_slash (c # s) =
     (if c = CHR ''/'' then [] # split_slash s
      else case split_slash s of p # ps \<Rightarrow> (c # p) # ps | [] \<Rightarrow> [[c]])"

definition is_letter :: "char \<Rightarrow> bool" where
  "is_letter c = (let n = (of_char c :: nat) in 65 \<le> n \<and> n \<le> 90 \<or> 97 \<le> n \<and> n \<le> 122)"

text \<open>The test \<^verbatim>\<open>/\.[a-z]+$/i\<close>: a dot followed by letters up to the end.\<close>

definition has_extension :: "string \<Rightarrow> bool" where
  "has_extension s =
     (let ext = takeWhile is_letter (rev s); rest = dropWhile is_letter (rev s)
      in ext \<noteq> [] \<and> rest \<noteq> [] \<and> hd rest = CHR ''.'')"

definition parseAgentId :: "string \<Rightarrow> string" where
  "parseAgentId pathname =
     (let segs = filter (\<lambda>s. s \<noteq> []) (split_slash pathname)
      in case find (\<lambda>s. \<not> has_extension s) (rev segs) of Some s \<Rightarrow> s | None \<Rightarrow> [])"

section \<open>Paths\<close>

fun page_findBinaryPath :: "json \<Rightarrow> string \<Rightarrow> string option"
and page_find_in_object :: "payload \<Rightarrow> string \<Rightarrow> string option"
and page_find_in_array :: "nat \<Rightarrow> json list \<Rightarrow> string \<Rightarrow> string option"
where
  "page_findBinaryPath (JBuf _) prefix = Some prefix"
| "page_findBinaryPath (JView _) prefix = Some prefix"
| "page_findBinaryPath (JObj ms) prefix = page_find_in_object ms prefix"
| "page_findBinaryPath (JArr vs) prefix = page_find_in_array 0 vs prefix"
| "page_findBinaryPath _ prefix = None"
| "page_find_in_object [] prefix = None"
| "page_find_in_object ((k, v) # ms) prefix =
     (case page_findBinaryPath v (if prefix \<noteq> [] then prefix @ ''.'' @ k else k) of
        Some r \<Rightarrow> Some r | None \<Rightarrow> page_find_in_object ms prefix)"
| "page_find_in_array i [] prefix = None"
| "page_find_in_array i (v # vs) prefix =
     (case page_findBinaryPath v (if prefix \<noteq> [] then prefix @ ''.'' @ show_nat i else show_nat i) of
        Some r \<Rightarrow> Some r | None \<Rightarrow> page_find_in_array (Suc i) vs prefix)"

definition isUnsafePathPart :: "string \<Rightarrow> bool" where
  "isUnsafePathPart part = (part = ''__proto__'' \<or> part = ''prototype'' \<or> part = ''constructor'')"

text \<open>
  \<^verbatim>\<open>parseInt(part, 10)\<close> as an array index: leading white space, a sign, then as many digits as
  there are. \<^const>\<open>None\<close> is \<^verbatim>\<open>NaN\<close> or a negative number, which name no element.
\<close>

definition parse_digits :: "string \<Rightarrow> nat option" where
  "parse_digits s =
     (let ds = takeWhile is_digit s in if ds = [] then None else Some (read_nat ds))"

definition parseInt_index :: "string \<Rightarrow> nat option" where
  "parseInt_index part =
     (case dropWhile is_space part of
        c # s \<Rightarrow>
          if c = CHR ''-'' then (if parse_digits s = Some 0 then Some 0 else None)
          else if c = CHR ''+'' then parse_digits s
          else parse_digits (c # s)
      | [] \<Rightarrow> None)"

text \<open>\<^verbatim>\<open>cur[part]\<close> of an object or array.\<close>

definition page_member :: "json \<Rightarrow> string \<Rightarrow> json option outcome" where
  "page_member cur part =
     (case cur of
        JArr vs \<Rightarrow>
          Ok (case parseInt_index part of
                Some i \<Rightarrow> if i < length vs then Some (vs ! i) else None
              | None \<Rightarrow> None)
      | JObj ms \<Rightarrow>
          (case map_of ms part of
             Some v \<Rightarrow> Ok (Some v)
           | None \<Rightarrow> if part \<in> set prototype_keys then Escapes else Ok None)
      | _ \<Rightarrow> Escapes)"

text \<open>\<^verbatim>\<open>cur === null || typeof cur !== 'object'\<close>\<close>

definition not_object :: "json option \<Rightarrow> bool" where
  "not_object cur =
     (case cur of Some (JArr _) \<Rightarrow> False | Some (JObj _) \<Rightarrow> False | Some (JBuf _) \<Rightarrow> False
      | Some (JView _) \<Rightarrow> False | _ \<Rightarrow> True)"

fun page_get_parts :: "json option \<Rightarrow> string list \<Rightarrow> json option outcome" where
  "page_get_parts cur [] = Ok cur"
| "page_get_parts cur (p # ps) =
     (if isUnsafePathPart p then Ok None
      else if not_object cur then Ok None
      else and_then (page_member (the cur) p) (\<lambda>m. page_get_parts m ps))"

definition page_getPath :: "json \<Rightarrow> string \<Rightarrow> json option outcome" where
  "page_getPath obj path = page_get_parts (Some obj) (split_dot path)"

text \<open>\<^verbatim>\<open>cur[last] = value\<close> on an object or array.\<close>

definition page_set_member :: "json \<Rightarrow> string \<Rightarrow> json \<Rightarrow> json outcome" where
  "page_set_member cur part v =
     (case cur of
        JArr vs \<Rightarrow>
          Ok (JArr (case parseInt_index part of
                Some i \<Rightarrow> if i < length vs then vs[i := v]
                          else vs @ replicate (i - length vs) JNull @ [v]
              | None \<Rightarrow> vs))
      | JObj ms \<Rightarrow> Ok (JObj (AList.update part v ms))
      | _ \<Rightarrow> Escapes)"

text \<open>The loop of \<^verbatim>\<open>setPath\<close>; on a value that is no object it returns without writing.\<close>

fun page_set_parts :: "json \<Rightarrow> string list \<Rightarrow> json \<Rightarrow> json outcome" where
  "page_set_parts cur [] v = Ok cur"
| "page_set_parts cur [p] v =
     (if not_object (Some cur) then Ok cur else page_set_member cur p v)"
| "page_set_parts cur (p # q # ps) v =
     (if not_object (Some cur) then Ok cur
      else and_then (page_member cur p) (\<lambda>m.
        case m of
          None \<Rightarrow> Ok cur
        | Some sub \<Rightarrow> and_then (page_set_parts sub (q # ps) v) (\<lambda>sub'. page_set_member cur p sub')))"

definition page_setPath :: "json \<Rightarrow> string \<Rightarrow> json \<Rightarrow> json outcome" where
  "page_setPath obj path v =
     (let parts = split_dot path
      in if list_ex isUnsafePathPart parts then Ok obj else page_set_parts obj parts v)"

section \<open>Frames\<close>

fun page_deepClone :: "json \<Rightarrow> json" where
  "page_deepClone (JArr vs) = JArr (map page_deepClone vs)"
| "page_deepClone (JObj ms) = JObj (map (\<lambda>(k, v). (k, page_deepClone v)) ms)"
| "page_deepClone (JBuf _) = JObj []"
| "page_deepClone (JView bs) = JObj (index_object bs)"
| "page_deepClone v = v"

text \<open>\<^const>\<open>None\<close> is the \<^verbatim>\<open>null\<close> of a value that carries no bytes.\<close>

definition page_asArrayBuffer :: "json option \<Rightarrow> 8 word list option" where
  "page_asArrayBuffer v = (case v of Some (JBuf bs) \<Rightarrow> Some bs | Some (JView bs) \<Rightarrow> Some bs | _ \<Rightarrow> None)"

definition page_encodeFrame :: "payload \<Rightarrow> wire_frame outcome" where
  "page_encodeFrame envelope =
     (case page_findBinaryPath (JObj envelope) [] of
        None \<Rightarrow> Ok (TextFrame (stringify (JObj envelope)))
      | Some path \<Rightarrow>
          and_then (page_getPath (JObj envelope) path) (\<lambda>m.
          and_then (page_setPath (page_deepClone (JObj envelope)) path JNull) (\<lambda>nulled.
            case (nulled, page_asArrayBuffer m) of
              (JObj ms, Some body) \<Rightarrow>
                (let headBytes = text_bytes (stringify (JObj (AList.update ''_binary_path'' (JStr path) ms)))
                 in Ok (BinFrame (setUint32 (length headBytes) @ headBytes @ body)))
            | _ \<Rightarrow> Throws)))"

text \<open>\<^verbatim>\<open>if (path) setPath(head, path, body)\<close>: a truthy path that is no string has no \<^verbatim>\<open>split\<close>.\<close>

definition page_decode_head :: "json \<Rightarrow> 8 word list \<Rightarrow> json outcome" where
  "page_decode_head head body =
     (case head of
        JObj ms \<Rightarrow>
          (let ms' = AList.delete ''_binary_path'' ms in
           case map_of ms ''_binary_path'' of
             None \<Rightarrow> Ok (JObj ms')
           | Some (JStr path) \<Rightarrow>
               if path = [] then Ok (JObj ms') else page_setPath (JObj ms') path (JView body)
           | Some JNull \<Rightarrow> Ok (JObj ms')
           | Some (JBool b) \<Rightarrow> if b then Throws else Ok (JObj ms')
           | Some (JNum n) \<Rightarrow> if n = 0 then Ok (JObj ms') else Throws
           | Some _ \<Rightarrow> Throws)
      | JNull \<Rightarrow> Throws
      | v \<Rightarrow> Ok v)"

definition page_decodeFrame :: "wire_frame \<Rightarrow> json outcome" where
  "page_decodeFrame data =
     (case data of
        TextFrame s \<Rightarrow> (case json_parse s of Some v \<Rightarrow> Ok v | None \<Rightarrow> Throws)
      | BinFrame bs \<Rightarrow>
          if length bs < 4 then Throws
          else (let headLen = getUint32 bs in
            if length bs < 4 + headLen then Throws
            else case json_parse (bytes_text (take headLen (drop 4 bs))) of
                None \<Rightarrow> Throws
              | Some head \<Rightarrow> page_decode_head head (drop (4 + headLen) bs)))"

section \<open>The two codecs agree\<close>

lemma page_find_eq:
  "page_findBinaryPath v pre = findBinaryPath v pre"
  "page_find_in_object ms pre = find_in_object ms pre"
  "page_find_in_array i vs pre = find_in_array i vs pre"
  by (induction v pre and ms pre and i vs pre
      rule: page_findBinaryPath_page_find_in_object_page_find_in_array.induct)
    (auto simp: join_path_def split: option.split)

lemma page_clone_eq: "page_deepClone v = deepClone v"
  by (induction v) (auto simp: snds.simps)

lemma unsafe_eq: "isUnsafePathPart = isUnsafeKey"
  by (auto simp: isUnsafePathPart_def isUnsafeKey_def fun_eq_iff)

lemma digit_not_sign: "is_digit c \<Longrightarrow> c \<noteq> CHR ''-'' \<and> c \<noteq> CHR ''+'' \<and> \<not> is_space c"
  by (auto simp: is_digit_def is_space_def)

lemma parse_index:
  assumes "js_index p = Some i" "p \<noteq> []" shows "parseInt_index p = Some i"
proof -
  have d: "list_all is_digit p" "i = read_nat p" using assms(1) by (simp_all add: js_index_def split: if_splits)
  obtain c s where p: "p = c # s" using assms(2) by (cases p) auto
  have tw: "takeWhile is_digit s = s" using d(1) by (simp add: list_all_iff p)
  have "dropWhile is_space p = p" using d(1) digit_not_sign [of c] by (simp add: p)
  then show ?thesis
    using d digit_not_sign [of c] by (simp add: p tw parseInt_index_def parse_digits_def)
qed

lemma page_member_eq:
  assumes "get_member v p = Ok (Some u)" "plain_key p"
  shows "page_member v p = Ok (Some u)" "\<not> not_object (Some v)"
  using assms parse_index [of p]
  by (auto simp: get_member_def page_member_def not_object_def plain_key_def
      split: json.splits option.splits if_splits)

lemma page_get_eq:
  "get_parts (Some v) ps = Ok (Some b) \<Longrightarrow> list_all plain_key ps \<Longrightarrow>
   page_get_parts (Some v) ps = Ok (Some b)"
proof (induction ps arbitrary: v)
  case (Cons p ps)
  then obtain m where m: "get_member v p = Ok m" "get_parts m ps = Ok (Some b)"
    by (auto simp: and_then_Ok_iff)
  then obtain u where u: "m = Some u" by (cases m; cases ps) auto
  with Cons m page_member_eq [of v p u] show ?case by (simp add: unsafe_eq plain_key_def)
qed simp

lemma page_set_member_eq:
  assumes "get_member v p = Ok (Some u)" "plain_key p" "set_member v p x = Ok v'"
  shows "page_set_member v p x = Ok v'"
  using assms parse_index [of p]
  by (auto simp: get_member_def set_member_def page_set_member_def plain_key_def
      split: json.splits option.splits if_splits)

lemma page_set_eq:
  "set_parts v ps x = Ok v' \<Longrightarrow> get_parts (Some v) ps = Ok (Some b) \<Longrightarrow> list_all plain_key ps \<Longrightarrow>
   page_set_parts v ps x = Ok v'"
proof (induction v ps x arbitrary: v' rule: set_parts.induct)
  case (2 cur p v)
  then have "get_member cur p = Ok (Some b)" by (auto simp: and_then_Ok_iff)
  with 2 page_set_member_eq [of cur p b v v'] page_member_eq [of cur p b] show ?case by simp
next
  case (3 cur p q ps v)
  then obtain u where u: "get_member cur p = Ok (Some u)"
    by (auto simp: and_then_Ok_iff split: option.splits)
  with 3(2) obtain s where s: "set_parts u (q # ps) v = Ok s" "set_member cur p s = Ok v'"
    by (auto simp: and_then_Ok_iff)
  have pk: "plain_key p" using 3 by simp
  have "page_set_parts u (q # ps) v = Ok s" using 3 u s(1) by simp
  with u s(2) page_member_eq [OF u pk] page_set_member_eq [OF u pk s(2)] show ?case
    by simp
qed simp

lemma get_bin_place:
  "keys_distinct v \<Longrightarrow> bin_at v = Some ps \<Longrightarrow> w \<in> {deepClone v, fill y v} \<Longrightarrow>
   \<exists>b. get_parts (Some w) ps = Ok (Some b)"
proof (induction v arbitrary: ps w)
  case (JArr vs)
  then obtain j qs where j: "j < length vs" "ps = show_nat j # qs" "bin_at (vs ! j) = Some qs"
    and f: "\<And>z. fill_array z vs = (map deepClone vs)[j := fill z (vs ! j)]"
    using bin_at_array_D [of 0 vs ps] by auto
  obtain us where "w = JArr us" "length us = length vs" "us ! j \<in> {deepClone (vs ! j), fill y (vs ! j)}"
    using JArr.prems(3) j(1) f by auto
  with j JArr.IH [of "vs ! j" qs "us ! j"] JArr.prems(1) show ?case
    by (auto simp: get_member_def list_all_iff)
next
  case (JObj ms)
  let ?cl = "map (\<lambda>(k, v). (k, deepClone v)) ms"
  obtain k v qs where k: "ps = k # qs" "map_of ms k = Some v" "bin_at v = Some qs"
    and f: "\<And>z. fill_object z ms = AList.update k (fill z v) ?cl"
    using JObj.prems bin_at_object_D [of ms ps] by auto
  have m: "map_of ?cl k = Some (deepClone v)" using k(2) by (simp add: map_of_map)
  obtain us u where w: "w = JObj us" "map_of us k = Some u" "u \<in> {deepClone v, fill y v}"
    using JObj.prems(3) m f by auto
  have "(k, v) \<in> set ms" using k(2) by (simp add: map_of_SomeD)
  then have "\<exists>b. get_parts (Some u) qs = Ok (Some b)"
    using JObj.IH [of "(k, v)" v qs u] JObj.prems(1) k(3) w(3) by (auto simp: list_all_iff snds.simps)
  with k(1) w show ?case by (auto simp: get_member_def)
qed (auto split: if_splits)

lemma page_set_bin_at:
  assumes "keys_distinct v" "bin_at v = Some ps" "ps \<noteq> []" "list_all plain_key ps" "w \<in> {deepClone v, fill JNull v}"
  shows "page_set_parts w ps x = Ok (fill x v)"
proof -
  obtain b where "get_parts (Some w) ps = Ok (Some b)" using get_bin_place [OF assms(1,2,5)] by auto
  with set_bin_at [OF assms(1-3,5), of x] assms(4) show ?thesis by (intro page_set_eq)
qed

lemma page_encode_binary:
  assumes "sendable env" "bin_at (JObj env) = Some ps"
  shows "page_encodeFrame env = Ok (BinFrame (setUint32 (length (head_text env ps)) @
    text_bytes (head_text env ps) @ first_bytes (JObj env)))"
proof -
  let ?path = "foldl join_path [] ps"
  have kd: "keys_distinct (JObj env)" and pk: "list_all plain_key ps"
    and fresh: "map_of env ''_binary_path'' = None"
    using assms by (auto simp: sendable_def)
  have ne: "ps \<noteq> []" using assms(2) bin_at_Nil [of "JObj env"] by auto
  have sp: "split_dot ?path = ps" using ne pk by (simp add: split_joined list_all_iff)
  have safe: "\<not> list_ex isUnsafePathPart ps" using pk by (auto simp: list_ex_iff list_all_iff plain_key_def unsafe_eq)
  obtain b where b: "get_parts (Some (JObj env)) ps = Ok (Some b)"
    "asArrayBuffer (Some b) = Ok (first_bytes (JObj env))"
    using get_bin_at [OF kd assms(2)] by blast
  have st: "page_set_parts (deepClone (JObj env)) ps JNull = Ok (fill JNull (JObj env))"
    using kd assms(2) ne pk by (rule page_set_bin_at) simp
  have up: "AList.update ''_binary_path'' v (fill_object JNull env) =
      fill_object JNull env @ [(''_binary_path'', v)]" for v
    using no_key_map [OF fresh] by (intro update_fresh) (metis fill_object_keys set_map)
  have len: "length (text_bytes s) = length s" for s by (simp add: text_bytes_def)
  have "page_asArrayBuffer (Some b) = Some (first_bytes (JObj env))"
    using b(2) by (simp add: asArrayBuffer_def page_asArrayBuffer_def split: json.splits)
  with page_get_eq [OF b(1) pk] st show ?thesis
    by (simp add: page_encodeFrame_def page_find_eq findBinaryPath_bin_at assms(2) page_getPath_def
        page_setPath_def sp safe page_clone_eq up head_text_def Let_def len
        del: bin_at.simps deepClone.simps findBinaryPath.simps page_findBinaryPath.simps page_deepClone.simps)
qed

lemma page_decode_binary:
  assumes "sendable env" "bin_at (JObj env) = Some ps"
  shows "page_decodeFrame (BinFrame (setUint32 (length (head_text env ps)) @
    text_bytes (head_text env ps) @ bs)) = Ok (fill (JView bs) (JObj env))"
proof -
  let ?path = "foldl join_path [] ps"
  let ?head = "JObj (fill_object JNull env @ [(''_binary_path'', JStr ?path)])"
  have kd: "keys_distinct (JObj env)" and pk: "list_all plain_key ps"
    and fresh: "map_of env ''_binary_path'' = None" and len: "length (head_text env ps) < 2 ^ 32"
    using assms by (auto simp: sendable_def)
  have ne: "ps \<noteq> []" using assms(2) bin_at_Nil [of "JObj env"] by auto
  have sp: "split_dot ?path = ps" using ne pk by (simp add: split_joined list_all_iff)
  have pne: "?path \<noteq> []" using ne pk sp by (cases ps) (auto simp: plain_key_def)
  have safe: "\<not> list_ex isUnsafePathPart ps" using pk by (auto simp: list_ex_iff list_all_iff plain_key_def unsafe_eq)
  have ff: "map_of (fill_object JNull env) ''_binary_path'' = None"
    using no_key_map [OF fresh] by (metis fill_object_keys map_of_eq_None_iff set_map)
  have parse: "json_parse (head_text env ps) = Some ?head"
    using kd ff by (rule parse_head)
  have st: "page_set_parts (fill JNull (JObj env)) ps (JView bs) = Ok (fill (JView bs) (JObj env))"
    using kd assms(2) ne pk by (rule page_set_bin_at) simp
  have l4: "length (setUint32 n) = 4" for n by (simp add: setUint32_def)
  have lt: "length (text_bytes s) = length s" for s by (simp add: text_bytes_def)
  have "page_decode_head ?head bs = Ok (fill (JView bs) (JObj env))"
    using st ff pne by (simp add: page_decode_head_def Let_def delete_last page_setPath_def sp safe map_add_def)
  then show ?thesis
    by (simp add: page_decodeFrame_def Let_def getUint32_setUint32 [OF len] l4 lt parse)
qed

text \<open>
  C25: the script on a page and the frontend kernel speak the same wire format. For every envelope the
  frontend can send, both encoders produce the same frame, and both decoders read from it the
  envelope that was sent (bytes as a \<^verbatim>\<open>Uint8Array\<close>).
\<close>

theorem page_codec_agrees:
  assumes "sendable env"
  shows "\<exists>f. page_encodeFrame env = Ok f \<and> encodeFrame env = Ok f \<and>
    page_decodeFrame f = Ok (received (JObj env)) \<and> decodeFrame f = Ok (received (JObj env))"
proof (cases "bin_at (JObj env)")
  case None
  have "keys_distinct (JObj env)" using assms by (simp add: sendable_def)
  then have "json_parse (stringify (JObj env)) = Some (JObj env)"
    using parse_stringify no_binary_clone [OF None] by metis
  with None show ?thesis
    by (simp add: encodeFrame_def page_encodeFrame_def page_find_eq findBinaryPath_bin_at decodeFrame_def
        page_decodeFrame_def received_def del: bin_at.simps findBinaryPath.simps stringify.simps
        page_findBinaryPath.simps)
next
  case (Some ps)
  then show ?thesis
    using encode_binary [OF assms Some] decode_binary [OF assms Some] page_encode_binary [OF assms Some]
      page_decode_binary [OF assms Some]
    by (simp add: received_def del: bin_at.simps)
qed

theorem page_codec_agrees_witness:
  "\<exists>f. page_encodeFrame [(''type'', JStr ''emit''), (''payload'', JBuf [1, 2])] = Ok f \<and>
     decodeFrame f = Ok (JObj [(''type'', JStr ''emit''), (''payload'', JView [1, 2])])"
proof -
  have "sendable [(''type'', JStr ''emit''), (''payload'', JBuf [1, 2])]"
    by (simp add: sendable_def head_text_def plain_key_def isUnsafeKey_def join_path_def quote_string_def
        escape_char_def Let_def)
  from page_codec_agrees [OF this] show ?thesis by (auto simp: received_def)
qed

text \<open>
  Where the codecs differ. Bytes under a rejected key make the page's encoder throw (and
  \<^verbatim>\<open>sendFrame\<close> drop the frame), while the frontend's encoder sends a frame from which the bytes are
  missing.
\<close>

theorem page_rejects_unsafe_key:
  "page_encodeFrame [(''constructor'', JBuf bs)] = Throws \<and>
   (\<exists>f. encodeFrame [(''constructor'', JBuf bs)] = Ok f)"
  by (simp add: page_encodeFrame_def encodeFrame_def join_path_def getPath_def page_getPath_def setPath_def
      page_setPath_def split_dot_plain isUnsafePathPart_def isUnsafeKey_def page_asArrayBuffer_def
      get_member_def asArrayBuffer_def set_member_def Let_def)

end
