(* ===== verification/Page_Transport.thy ===== *)
theory Page_Transport
  imports Page_Frame Conn
begin

text \<open>
  The client object every served page gets: \<^verbatim>\<open>window.fantastic_transport\<close> of
  \<^verbatim>\<open>rust/crates/bundles/fantastic-web/src/transport.js\<close>.

  The closure's variables are the record \<open>page\<close>; the socket's callbacks, the reconnect timer, a
  message on the \<^verbatim>\<open>BroadcastChannel\<close> and every method of the returned object are events of
  \<open>page_step\<close> (an unsubscribe function exists only once its registration has succeeded). As in \<open>Conn\<close> the guards are what the platform guarantees. \<^verbatim>\<open>ws.send\<close> throws only on
  a socket that has not opened yet, and \<^verbatim>\<open>connected\<close> is false then. Handlers are tokens; \<open>Threw\<close>
  in the output is an exception that leaves a callback or method. The tables \<^verbatim>\<open>listeners\<close>,
  \<^verbatim>\<open>pending\<close> and \<^verbatim>\<open>busListeners\<close> are plain objects, so a lookup also finds what every object
  inherits (\<open>prototype_keys\<close>).
\<close>

section \<open>State\<close>

datatype page_result = PResolved "json option" | PRejected string

datatype page_handler = ReloadPage | Client nat

datatype page_effect =
    PDial string
  | PSend payload wire_frame
  | PSettle nat page_result
  | PLifecycle nat bool
  | PEvent nat json
  | PReload
  | PAny nat "json option" "json option"
  | PState nat payload
  | PPost payload
  | PBus nat json
  | PBusAny nat "json option" json
  | PThrew

record page =
  pg_agentId :: string
  pg_wsUrl :: string
  pg_sock :: socket_state
  pg_connected :: bool
  pg_pending :: "(string \<times> nat) list"
  pg_listeners :: "(string \<times> page_handler list) list"
  pg_anyListeners :: "nat list"
  pg_stateHandlers :: "nat list"
  pg_watching :: "string list"
  pg_nextId :: nat
  pg_lifecycleHandlers :: "nat list"
  pg_reconnectDelay :: nat
  pg_timer :: "nat option"
  pg_readyResolve :: bool
  pg_ready :: bool
  pg_busListeners :: "(string \<times> nat list) list"
  pg_busAnyListeners :: "nat list"
  pg_busOpen :: bool
  pg_out :: "page_effect list"

definition MAX_RECONNECT_DELAY :: nat where
  "MAX_RECONNECT_DELAY = 16000"

definition pg_do :: "page_effect list \<Rightarrow> page \<Rightarrow> page" where
  "pg_do es p = p\<lparr>pg_out := pg_out p @ es\<rparr>"

section \<open>The socket\<close>

definition fireLifecycle :: "bool \<Rightarrow> page \<Rightarrow> page" where
  "fireLifecycle up p = pg_do (map (\<lambda>h. PLifecycle h up) (pg_lifecycleHandlers p)) p"

definition rejectAllPending :: "page \<Rightarrow> page" where
  "rejectAllPending p =
     pg_do (map (\<lambda>(_, t). PSettle t (PRejected ''disconnected'')) (pg_pending p)) (p\<lparr>pg_pending := []\<rparr>)"

definition pg_connect :: "page \<Rightarrow> page" where
  "pg_connect p = pg_do [PDial (pg_wsUrl p)] (p\<lparr>pg_sock := Connecting\<rparr>)"

definition pg_sendFrame :: "payload \<Rightarrow> page \<Rightarrow> page \<times> bool" where
  "pg_sendFrame env p =
     (if \<not> pg_connected p then (p, False)
      else case page_encodeFrame env of
          Ok f \<Rightarrow> (pg_do [PSend env f] p, True)
        | _ \<Rightarrow> (p, False))"

definition watch_frame :: "string \<Rightarrow> payload" where
  "watch_frame src = [(''type'', JStr ''watch''), (''src'', JStr src)]"

definition unwatch_frame :: "string \<Rightarrow> payload" where
  "unwatch_frame src = [(''type'', JStr ''unwatch''), (''src'', JStr src)]"

definition pg_onopen :: "page \<Rightarrow> page" where
  "pg_onopen p =
     (let p1 = p\<lparr>pg_sock := Opened, pg_connected := True, pg_reconnectDelay := 1000\<rparr>;
          p2 = fold (\<lambda>src q. fst (pg_sendFrame (watch_frame src) q)) (pg_watching p1) p1;
          p3 = (if pg_stateHandlers p2 \<noteq> [] then fst (pg_sendFrame (state_frame True) p2) else p2);
          p4 = (if pg_readyResolve p3 then p3\<lparr>pg_readyResolve := False, pg_ready := True\<rparr> else p3)
      in fireLifecycle True p4)"

definition pg_onclose :: "page \<Rightarrow> page" where
  "pg_onclose p =
     (let p1 = fireLifecycle False (rejectAllPending (p\<lparr>pg_sock := Dead, pg_connected := False\<rparr>))
      in p1\<lparr>pg_timer := Some (pg_reconnectDelay p1),
            pg_reconnectDelay := min (pg_reconnectDelay p1 * 2) MAX_RECONNECT_DELAY\<rparr>)"

text \<open>\<^verbatim>\<open>pending[msg.id]\<close> found; the promise is settled by the frame's \<^verbatim>\<open>error\<close> or \<^verbatim>\<open>data\<close>.\<close>

definition pg_on_reply :: "payload \<Rightarrow> page \<Rightarrow> page" where
  "pg_on_reply msg p =
     (let i = js_String_opt (map_of msg ''id'') in
      case map_of (pg_pending p) i of
        Some t \<Rightarrow>
          pg_do [PSettle t (if js_truthy (map_of msg ''error'')
                   then PRejected (js_String_opt (map_of msg ''error''))
                   else PResolved (map_of msg ''data''))]
            (p\<lparr>pg_pending := AList.delete i (pg_pending p)\<rparr>)
      | None \<Rightarrow> if i \<in> set prototype_keys then pg_do [PThrew] p else p)"

text \<open>\<^verbatim>\<open>msg.payload && msg.payload.type\<close>\<close>

definition payload_type :: "json option \<Rightarrow> json option" where
  "payload_type pl =
     (if js_truthy pl then (case pl of Some (JObj ms) \<Rightarrow> map_of ms ''type'' | _ \<Rightarrow> None) else pl)"

fun run_handler :: "json \<Rightarrow> page_handler \<Rightarrow> page_effect" where
  "run_handler pl ReloadPage = PReload"
| "run_handler pl (Client h) = PEvent h pl"

definition pg_on_event :: "json option \<Rightarrow> page \<Rightarrow> page" where
  "pg_on_event pl p =
     (let t = payload_type pl; key = js_String_opt t;
          anys = map (\<lambda>h. PAny h t pl) (pg_anyListeners p)
      in if \<not> js_truthy t then pg_do anys p
         else case map_of (pg_listeners p) key of
             Some hs \<Rightarrow> pg_do (map (run_handler (the pl)) hs @ anys) p
           | None \<Rightarrow> if key \<in> set prototype_keys then pg_do [PThrew] p else pg_do anys p)"

text \<open>\<^const>\<open>None\<close>: the frame's path escapes the modelled heap.\<close>

definition pg_onmessage :: "wire_frame \<Rightarrow> page \<Rightarrow> page option" where
  "pg_onmessage data p =
     (case page_decodeFrame data of
        Escapes \<Rightarrow> None
      | Throws \<Rightarrow> Some (pg_do [PThrew] p)
      | Ok JNull \<Rightarrow> Some (pg_do [PThrew] p)
      | Ok (JObj msg) \<Rightarrow>
          (let ty = map_of msg ''type'' in
           if ty = Some (JStr ''reply'') then Some (pg_on_reply msg p)
           else if ty = Some (JStr ''event'') then Some (pg_on_event (map_of msg ''payload'') p)
           else if ty = Some (JStr ''state_snapshot'') \<or> ty = Some (JStr ''state_event'') then
             Some (pg_do (map (\<lambda>h. PState h msg) (pg_stateHandlers p)) p)
           else Some p)
      | Ok _ \<Rightarrow> Some p)"

section \<open>Methods\<close>

definition pg_call :: "nat \<Rightarrow> string \<Rightarrow> json \<Rightarrow> page \<Rightarrow> page" where
  "pg_call t target payload p =
     (if \<not> pg_connected p then pg_do [PSettle t (PRejected ''disconnected'')] p
      else
        (let i = show_nat (pg_nextId p);
             p1 = p\<lparr>pg_nextId := Suc (pg_nextId p), pg_pending := AList.update i t (pg_pending p)\<rparr>;
             (p2, sent) = pg_sendFrame [(''type'', JStr ''call''), (''target'', JStr target),
                            (''payload'', payload), (''id'', JStr i)] p1
         in if sent then p2
            else pg_do [PSettle t (PRejected ''disconnected'')] (p2\<lparr>pg_pending := AList.delete i (pg_pending p2)\<rparr>)))"

text \<open>The dispatcher: \<^verbatim>\<open>t.dispatcher.target(payload)\<close>.\<close>

definition pg_dispatch :: "nat \<Rightarrow> string \<Rightarrow> json option \<Rightarrow> page \<Rightarrow> page" where
  "pg_dispatch t target payload =
     pg_call t target (if js_truthy payload then the payload else JObj [])"

definition pg_emit :: "string \<Rightarrow> json \<Rightarrow> page \<Rightarrow> page" where
  "pg_emit target payload p = fst (pg_sendFrame
     [(''type'', JStr ''emit''), (''target'', JStr target), (''payload'', payload)] p)"

definition pg_watch :: "string \<Rightarrow> page \<Rightarrow> page" where
  "pg_watch src p = fst (pg_sendFrame (watch_frame src) (p\<lparr>pg_watching := set_add src (pg_watching p)\<rparr>))"

definition pg_unwatch :: "string \<Rightarrow> page \<Rightarrow> page" where
  "pg_unwatch src p = fst (pg_sendFrame (unwatch_frame src) (p\<lparr>pg_watching := set_del src (pg_watching p)\<rparr>))"

text \<open>\<^verbatim>\<open>(table[key] = table[key] || []).push(handler)\<close>; an inherited member has no \<^verbatim>\<open>push\<close>.\<close>

definition table_push :: "string \<Rightarrow> 'a \<Rightarrow> (string \<times> 'a list) list \<Rightarrow> (string \<times> 'a list) list option" where
  "table_push key h tbl =
     (case map_of tbl key of
        Some hs \<Rightarrow> Some (AList.update key (hs @ [h]) tbl)
      | None \<Rightarrow> if key \<in> set prototype_keys then None else Some (AList.update key [h] tbl))"

definition table_off :: "string \<Rightarrow> 'a \<Rightarrow> (string \<times> 'a list) list \<Rightarrow> (string \<times> 'a list) list" where
  "table_off key h tbl =
     AList.update key (filter (\<lambda>x. x \<noteq> h) (case map_of tbl key of Some hs \<Rightarrow> hs | None \<Rightarrow> [])) tbl"

definition pg_on :: "string \<Rightarrow> page_handler \<Rightarrow> page \<Rightarrow> page" where
  "pg_on event_type h p =
     (case table_push event_type h (pg_listeners p) of
        Some tbl \<Rightarrow> p\<lparr>pg_listeners := tbl\<rparr> | None \<Rightarrow> pg_do [PThrew] p)"

definition pg_off :: "string \<Rightarrow> nat \<Rightarrow> page \<Rightarrow> page" where
  "pg_off event_type h p = p\<lparr>pg_listeners := table_off event_type (Client h) (pg_listeners p)\<rparr>"

definition pg_onAny :: "nat \<Rightarrow> page \<Rightarrow> page" where
  "pg_onAny h p = p\<lparr>pg_anyListeners := pg_anyListeners p @ [h]\<rparr>"

definition pg_offAny :: "nat \<Rightarrow> page \<Rightarrow> page" where
  "pg_offAny h p = p\<lparr>pg_anyListeners := remove1 h (pg_anyListeners p)\<rparr>"

definition pg_subscribeState :: "nat \<Rightarrow> page \<Rightarrow> page" where
  "pg_subscribeState h p =
     (let p1 = p\<lparr>pg_stateHandlers := pg_stateHandlers p @ [h]\<rparr>
      in if length (pg_stateHandlers p1) = 1 then fst (pg_sendFrame (state_frame True) p1) else p1)"

definition pg_unsubscribeState :: "nat \<Rightarrow> page \<Rightarrow> page" where
  "pg_unsubscribeState h p =
     (let p1 = p\<lparr>pg_stateHandlers := remove1 h (pg_stateHandlers p)\<rparr>
      in if pg_stateHandlers p1 = [] then fst (pg_sendFrame (state_frame False) p1) else p1)"

definition pg_onLifecycle :: "nat \<Rightarrow> page \<Rightarrow> page" where
  "pg_onLifecycle h p = p\<lparr>pg_lifecycleHandlers := pg_lifecycleHandlers p @ [h]\<rparr>"

definition pg_offLifecycle :: "nat \<Rightarrow> page \<Rightarrow> page" where
  "pg_offLifecycle h p = p\<lparr>pg_lifecycleHandlers := remove1 h (pg_lifecycleHandlers p)\<rparr>"

section \<open>The bus between pages\<close>

text \<open>\<^verbatim>\<open>postMessage\<close> on a closed channel throws.\<close>

definition bus_post :: "payload \<Rightarrow> page \<Rightarrow> page" where
  "bus_post m p = pg_do [if pg_busOpen p then PPost m else PThrew] p"

definition bus_send :: "string \<Rightarrow> payload \<Rightarrow> page \<Rightarrow> page" where
  "bus_send target_id payload p =
     bus_post (obj_assign [(''source_id'', JStr (pg_agentId p)), (''target_id'', JStr target_id)] payload) p"

definition bus_broadcast :: "payload \<Rightarrow> page \<Rightarrow> page" where
  "bus_broadcast payload p = bus_post (obj_assign [(''source_id'', JStr (pg_agentId p))] payload) p"

definition bus_on :: "string \<Rightarrow> nat \<Rightarrow> page \<Rightarrow> page" where
  "bus_on ty h p =
     (case table_push ty h (pg_busListeners p) of
        Some tbl \<Rightarrow> p\<lparr>pg_busListeners := tbl\<rparr> | None \<Rightarrow> pg_do [PThrew] p)"

definition bus_off :: "string \<Rightarrow> nat \<Rightarrow> page \<Rightarrow> page" where
  "bus_off ty h p = p\<lparr>pg_busListeners := table_off ty h (pg_busListeners p)\<rparr>"

definition bus_onAny :: "nat \<Rightarrow> page \<Rightarrow> page" where
  "bus_onAny h p = p\<lparr>pg_busAnyListeners := pg_busAnyListeners p @ [h]\<rparr>"

definition bus_offAny :: "nat \<Rightarrow> page \<Rightarrow> page" where
  "bus_offAny h p = p\<lparr>pg_busAnyListeners := remove1 h (pg_busAnyListeners p)\<rparr>"

definition bus_close :: "page \<Rightarrow> page" where
  "bus_close p = p\<lparr>pg_busOpen := False\<rparr>"

text \<open>A property of the message; primitives and arrays have none of the names read here.\<close>

definition json_prop :: "json \<Rightarrow> string \<Rightarrow> json option" where
  "json_prop d key = (case d of JObj ms \<Rightarrow> map_of ms key | _ \<Rightarrow> None)"

definition bus_receive :: "json \<Rightarrow> page \<Rightarrow> page" where
  "bus_receive data p =
     (let d = (if js_truthy (Some data) then data else JObj []);
          t = json_prop d ''type''; key = js_String_opt t;
          anys = map (\<lambda>h. PBusAny h t d) (pg_busAnyListeners p)
      in if js_truthy (json_prop d ''target_id'') \<and> json_prop d ''target_id'' \<noteq> Some (JStr (pg_agentId p)) then p
         else if json_prop d ''source_id'' = Some (JStr (pg_agentId p)) then p
         else if \<not> js_truthy t then pg_do anys p
         else case map_of (pg_busListeners p) key of
             Some hs \<Rightarrow> pg_do (map (\<lambda>h. PBus h d) hs @ anys) p
           | None \<Rightarrow> if key \<in> set prototype_keys then pg_do [PThrew] p else pg_do anys p)"

section \<open>The instance\<close>

record location =
  loc_protocol :: string
  loc_host :: string
  loc_pathname :: string

definition new_page :: "location \<Rightarrow> page" where
  "new_page loc =
     (let i = parseAgentId (loc_pathname loc) in
      pg_on ''reload_html'' ReloadPage (pg_connect
        \<lparr>pg_agentId = i,
         pg_wsUrl = (if loc_protocol loc = ''https:'' then ''wss://'' else ''ws://'') @
           loc_host loc @ ''/'' @ i @ ''/ws'',
         pg_sock = Connecting, pg_connected = False, pg_pending = [], pg_listeners = [],
         pg_anyListeners = [], pg_stateHandlers = [], pg_watching = [], pg_nextId = 1,
         pg_lifecycleHandlers = [], pg_reconnectDelay = 1000, pg_timer = None, pg_readyResolve = True,
         pg_ready = False, pg_busListeners = [], pg_busAnyListeners = [], pg_busOpen = True,
         pg_out = []\<rparr>))"

text \<open>\<^verbatim>\<open>window.fantastic_transport()\<close>: the memoised instance.\<close>

definition fantastic_transport :: "location \<Rightarrow> page option \<Rightarrow> page" where
  "fantastic_transport loc inst = (case inst of Some p \<Rightarrow> p | None \<Rightarrow> new_page loc)"

section \<open>The event loop\<close>

datatype page_event =
    POpen
  | PMessage wire_frame
  | PClose
  | PTimer
  | PBusMessage json
  | PCall nat string json
  | PDispatch nat string "json option"
  | PEmit string json
  | PWatch string
  | PUnwatch string
  | POn string nat
  | POff string nat
  | POnAny nat
  | POffAny nat
  | PSubscribe nat
  | PUnsubscribe nat
  | POnLifecycle nat
  | POffLifecycle nat
  | PBusSend string payload
  | PBusBroadcast payload
  | PBusOn string nat
  | PBusOff string nat
  | PBusOnAny nat
  | PBusOffAny nat
  | PBusClose
  | PGet location

fun page_step :: "page_event \<Rightarrow> page \<Rightarrow> page option" where
  "page_step POpen p = (if pg_sock p = Connecting then Some (pg_onopen p) else None)"
| "page_step (PMessage d) p = (if pg_sock p = Opened then pg_onmessage d p else None)"
| "page_step PClose p = (if pg_sock p \<noteq> Dead then Some (pg_onclose p) else None)"
| "page_step PTimer p =
     (if pg_timer p \<noteq> None then Some (pg_connect (p\<lparr>pg_timer := None\<rparr>)) else None)"
| "page_step (PBusMessage d) p = (if pg_busOpen p then Some (bus_receive d p) else None)"
| "page_step (PCall t target pl) p = Some (pg_call t target pl p)"
| "page_step (PDispatch t target pl) p = Some (pg_dispatch t target pl p)"
| "page_step (PEmit target pl) p = Some (pg_emit target pl p)"
| "page_step (PWatch src) p = Some (pg_watch src p)"
| "page_step (PUnwatch src) p = Some (pg_unwatch src p)"
| "page_step (POn ty h) p = Some (pg_on ty (Client h) p)"
| "page_step (POff ty h) p =
     (if map_of (pg_listeners p) ty \<noteq> None then Some (pg_off ty h p) else None)"
| "page_step (POnAny h) p = Some (pg_onAny h p)"
| "page_step (POffAny h) p = Some (pg_offAny h p)"
| "page_step (PSubscribe h) p = Some (pg_subscribeState h p)"
| "page_step (PUnsubscribe h) p = Some (pg_unsubscribeState h p)"
| "page_step (POnLifecycle h) p = Some (pg_onLifecycle h p)"
| "page_step (POffLifecycle h) p = Some (pg_offLifecycle h p)"
| "page_step (PBusSend t pl) p = Some (bus_send t pl p)"
| "page_step (PBusBroadcast pl) p = Some (bus_broadcast pl p)"
| "page_step (PBusOn ty h) p = Some (bus_on ty h p)"
| "page_step (PBusOff ty h) p =
     (if map_of (pg_busListeners p) ty \<noteq> None then Some (bus_off ty h p) else None)"
| "page_step (PBusOnAny h) p = Some (bus_onAny h p)"
| "page_step (PBusOffAny h) p = Some (bus_offAny h p)"
| "page_step PBusClose p = Some (bus_close p)"
| "page_step (PGet loc) p = Some (fantastic_transport loc (Some p))"

section \<open>Effects\<close>

lemma pg_do_do [simp]: "pg_do es (pg_do ds p) = pg_do (ds @ es) p"
  by (simp add: pg_do_def)

lemma pg_do_Nil [simp]: "pg_do [] p = p"
  by (simp add: pg_do_def)

lemma pg_do_sel [simp]:
  "pg_agentId (pg_do es p) = pg_agentId p" "pg_wsUrl (pg_do es p) = pg_wsUrl p"
  "pg_sock (pg_do es p) = pg_sock p" "pg_connected (pg_do es p) = pg_connected p"
  "pg_pending (pg_do es p) = pg_pending p" "pg_listeners (pg_do es p) = pg_listeners p"
  "pg_anyListeners (pg_do es p) = pg_anyListeners p" "pg_stateHandlers (pg_do es p) = pg_stateHandlers p"
  "pg_watching (pg_do es p) = pg_watching p" "pg_nextId (pg_do es p) = pg_nextId p"
  "pg_lifecycleHandlers (pg_do es p) = pg_lifecycleHandlers p"
  "pg_reconnectDelay (pg_do es p) = pg_reconnectDelay p" "pg_timer (pg_do es p) = pg_timer p"
  "pg_readyResolve (pg_do es p) = pg_readyResolve p" "pg_ready (pg_do es p) = pg_ready p"
  "pg_busListeners (pg_do es p) = pg_busListeners p"
  "pg_busAnyListeners (pg_do es p) = pg_busAnyListeners p" "pg_busOpen (pg_do es p) = pg_busOpen p"
  "pg_out (pg_do es p) = pg_out p @ es"
  by (simp_all add: pg_do_def)

text \<open>A frame without bytes is always sent while connected.\<close>

lemma text_frame:
  "bin_at (JObj env) = None \<Longrightarrow> page_encodeFrame env = Ok (TextFrame (stringify (JObj env)))"
  by (simp add: page_encodeFrame_def page_find_eq findBinaryPath_bin_at
      del: bin_at.simps findBinaryPath.simps page_findBinaryPath.simps stringify.simps)

definition text_send :: "payload \<Rightarrow> page_effect" where
  "text_send env = PSend env (TextFrame (stringify (JObj env)))"

lemma control_frames:
  "bin_at (JObj (watch_frame src)) = None" "bin_at (JObj (unwatch_frame src)) = None"
  "bin_at (JObj (state_frame on)) = None"
  by (simp_all add: watch_frame_def unwatch_frame_def state_frame_def)

lemma sendFrame_text:
  "bin_at (JObj env) = None \<Longrightarrow>
   pg_sendFrame env p = (if pg_connected p then (pg_do [text_send env] p, True) else (p, False))"
  by (simp add: pg_sendFrame_def text_frame text_send_def)

lemmas send_control = sendFrame_text [OF control_frames(1)] sendFrame_text [OF control_frames(2)]
  sendFrame_text [OF control_frames(3)]

lemma replay_watches:
  "pg_connected p \<Longrightarrow> fold (\<lambda>src q. fst (pg_sendFrame (watch_frame src) q)) ws p =
     pg_do (map (text_send \<circ> watch_frame) ws) p"
  by (induction ws arbitrary: p) (simp_all add: send_control)

lemma pg_onopen_eq:
  "pg_onopen p = pg_do (map (text_send \<circ> watch_frame) (pg_watching p) @
       (if pg_stateHandlers p \<noteq> [] then [text_send (state_frame True)] else []) @
       map (\<lambda>h. PLifecycle h True) (pg_lifecycleHandlers p))
     (p\<lparr>pg_sock := Opened, pg_connected := True, pg_reconnectDelay := 1000,
        pg_readyResolve := False, pg_ready := pg_ready p \<or> pg_readyResolve p\<rparr>)"
proof -
  let ?p = "p\<lparr>pg_sock := Opened, pg_connected := True, pg_reconnectDelay := 1000\<rparr>"
  have f: "fold (\<lambda>src q. fst (pg_sendFrame (watch_frame src) q)) (pg_watching p) ?p =
      pg_do (map (text_send \<circ> watch_frame) (pg_watching p)) ?p" by (rule replay_watches) simp
  have r: "(if pg_readyResolve q then q\<lparr>pg_readyResolve := False, pg_ready := True\<rparr> else q) =
      q\<lparr>pg_readyResolve := False, pg_ready := pg_ready q \<or> pg_readyResolve q\<rparr>" for q by simp
  show ?thesis
    by (simp only: pg_onopen_def Let_def f page.select_convs page.update_convs page.simps r)
      (auto simp: f sendFrame_text [OF control_frames(3)] fireLifecycle_def pg_do_def)
qed

section \<open>Invariant\<close>

definition ids_below :: "nat \<Rightarrow> (string \<times> 'a) list \<Rightarrow> bool" where
  "ids_below n m = (\<forall>i\<in>fst ` set m. \<exists>j<n. i = show_nat j)"

lemma ids_belowI: "(\<And>i. i \<in> fst ` set m \<Longrightarrow> \<exists>j<n. i = show_nat j) \<Longrightarrow> ids_below n m"
  unfolding ids_below_def by (rule ballI)

lemma ids_belowE:
  assumes "ids_below n m" "i \<in> fst ` set m" obtains j where "j < n" "i = show_nat j"
  using assms unfolding ids_below_def by blast

lemma ids_below_mono:
  assumes "ids_below n m" "n \<le> n'" "fst ` set m' \<subseteq> fst ` set m" shows "ids_below n' m'"
proof (rule ids_belowI)
  fix i assume "i \<in> fst ` set m'"
  then have "i \<in> fst ` set m" using assms(3) by (rule rev_subsetD)
  with assms(1) obtain j where "j < n" "i = show_nat j" by (rule ids_belowE)
  with assms(2) show "\<exists>j<n'. i = show_nat j" by (intro exI [of _ j]) simp
qed

lemma ids_below_snoc:
  assumes "ids_below n m" shows "ids_below (Suc n) (m @ [(show_nat n, t)])"
proof (rule ids_belowI)
  fix i assume "i \<in> fst ` set (m @ [(show_nat n, t)])"
  then consider "i = show_nat n" | "i \<in> fst ` set m" by auto
  then show "\<exists>j<Suc n. i = show_nat j"
  proof cases
    case 2
    with assms obtain j where "j < n" "i = show_nat j" by (rule ids_belowE)
    then show ?thesis by (intro exI [of _ j]) simp
  qed auto
qed

lemma ids_below_fresh: "ids_below n m \<Longrightarrow> show_nat n \<notin> fst ` set m"
  by (fastforce simp: ids_below_def dest: show_nat_inj)

lemma ids_below_Nil [simp]: "ids_below n []"
  by (simp add: ids_below_def)

lemma ids_below_delete: "ids_below n m \<Longrightarrow> ids_below n (AList.delete k m)"
  by (auto simp: ids_below_def AList.delete_eq)

definition page_inv :: "page \<Rightarrow> bool" where
  "page_inv p =
     ((pg_connected p \<longleftrightarrow> pg_sock p = Opened) \<and> (pg_timer p \<noteq> None \<longleftrightarrow> pg_sock p = Dead) \<and>
      distinct (map fst (pg_pending p)) \<and>
      ids_below (pg_nextId p) (pg_pending p) \<and>
      (\<not> pg_connected p \<longrightarrow> pg_pending p = []) \<and>
      1000 \<le> pg_reconnectDelay p \<and> pg_reconnectDelay p \<le> MAX_RECONNECT_DELAY)"

lemma new_page_inv: "page_inv (new_page loc)"
  by (simp add: page_inv_def new_page_def Let_def pg_on_def table_push_def pg_connect_def
      MAX_RECONNECT_DELAY_def prototype_keys_def)

lemma sendFrame_sent:
  obtains es where "fst (pg_sendFrame env p) = pg_do es p" "\<And>x. x \<in> set es \<Longrightarrow> \<exists>f. x = PSend env f"
proof -
  have "fst (pg_sendFrame env p) = pg_do [] p \<or> (\<exists>f. fst (pg_sendFrame env p) = pg_do [PSend env f] p)"
    by (auto simp: pg_sendFrame_def split: outcome.split)
  then show thesis
  proof (elim disjE exE)
    assume "fst (pg_sendFrame env p) = pg_do [] p" then show thesis by (rule that) simp
  next
    fix f assume "fst (pg_sendFrame env p) = pg_do [PSend env f] p" then show thesis by (rule that) simp
  qed
qed

definition pg_settled :: "page_effect list \<Rightarrow> nat multiset" where
  "pg_settled es = sum_list (map (\<lambda>e. case e of PSettle t _ \<Rightarrow> {#t#} | _ \<Rightarrow> {#}) es)"

definition pg_issued :: "page_event \<Rightarrow> nat multiset" where
  "pg_issued e = (case e of PCall t _ _ \<Rightarrow> {#t#} | PDispatch t _ _ \<Rightarrow> {#t#} | _ \<Rightarrow> {#})"

definition pg_ledger :: "page \<Rightarrow> nat multiset" where
  "pg_ledger p = pg_settled (pg_out p) + mset (map snd (pg_pending p))"

text \<open>
  A step that leaves the socket, the timer and the pending calls alone and settles nothing keeps the
  invariant and the ledger.
\<close>

definition calm_page :: "page \<Rightarrow> page \<Rightarrow> bool" where
  "calm_page p q =
     (pg_sock q = pg_sock p \<and> pg_connected q = pg_connected p \<and> pg_timer q = pg_timer p \<and>
      pg_pending q = pg_pending p \<and> pg_nextId q = pg_nextId p \<and> pg_reconnectDelay q = pg_reconnectDelay p \<and>
      (\<exists>es. pg_out q = pg_out p @ es \<and> pg_settled es = {#}))"

lemma pg_settled_append [simp]: "pg_settled (es @ fs) = pg_settled es + pg_settled fs"
  by (simp add: pg_settled_def)

lemma pg_settled_none: "(\<And>x. x \<in> set es \<Longrightarrow> \<forall>t r. x \<noteq> PSettle t r) \<Longrightarrow> pg_settled es = {#}"
  by (induction es) (auto simp: pg_settled_def split: page_effect.split)

lemma calm_pageD:
  assumes "calm_page p q"
  shows "page_inv p \<Longrightarrow> page_inv q" "pg_ledger q = pg_ledger p"
  using assms by (auto simp: calm_page_def page_inv_def pg_ledger_def)

lemma calm_do: "(\<And>x. x \<in> set es \<Longrightarrow> \<forall>t r. x \<noteq> PSettle t r) \<Longrightarrow> calm_page p (pg_do es p)"
  by (auto simp: calm_page_def pg_settled_none)

lemma calm_send: "calm_page p (fst (pg_sendFrame env p))"
  by (rule sendFrame_sent [of env p]) (auto intro!: calm_do)

lemma calm_trans: "calm_page p q \<Longrightarrow> calm_page q r \<Longrightarrow> calm_page p r"
  by (auto simp: calm_page_def)

lemma calm_fields [simp]:
  "calm_page p p" "calm_page p (p\<lparr>pg_listeners := ls\<rparr>)" "calm_page p (p\<lparr>pg_anyListeners := as\<rparr>)"
  "calm_page p (p\<lparr>pg_stateHandlers := hs\<rparr>)" "calm_page p (p\<lparr>pg_watching := ws\<rparr>)"
  "calm_page p (p\<lparr>pg_lifecycleHandlers := hs\<rparr>)" "calm_page p (p\<lparr>pg_busListeners := bs\<rparr>)"
  "calm_page p (p\<lparr>pg_busAnyListeners := as\<rparr>)" "calm_page p (p\<lparr>pg_busOpen := b\<rparr>)"
  by (simp_all add: calm_page_def pg_settled_def)

lemmas calm_send_after = calm_trans [OF _ calm_send]

lemma run_handler_not_settle [simp]: "run_handler pl h \<noteq> PSettle t r" "PSettle t r \<noteq> run_handler pl h"
  by (cases h; simp)+

lemma calm_methods:
  "calm_page p (pg_emit target pl p)" "calm_page p (pg_watch src p)" "calm_page p (pg_unwatch src p)"
  "calm_page p (pg_on ty h p)" "calm_page p (pg_off ty i p)" "calm_page p (pg_onAny i p)" "calm_page p (pg_offAny i p)"
  "calm_page p (pg_subscribeState i p)" "calm_page p (pg_unsubscribeState i p)"
  "calm_page p (pg_onLifecycle i p)" "calm_page p (pg_offLifecycle i p)"
  "calm_page p (pg_on_event v p)"
  by (auto simp: pg_emit_def pg_watch_def pg_unwatch_def pg_on_def pg_off_def pg_onAny_def pg_offAny_def
      pg_subscribeState_def pg_unsubscribeState_def pg_onLifecycle_def pg_offLifecycle_def Let_def
      pg_on_event_def calm_send intro!: calm_send_after calm_do split: option.split)

lemma calm_bus:
  "calm_page p (bus_send t pl p)" "calm_page p (bus_broadcast pl p)" "calm_page p (bus_on t h p)"
  "calm_page p (bus_off t h p)" "calm_page p (bus_onAny h p)" "calm_page p (bus_offAny h p)"
  "calm_page p (bus_close p)" "calm_page p (bus_receive d p)"
  by (auto simp: bus_send_def bus_broadcast_def bus_post_def bus_on_def bus_off_def bus_onAny_def bus_offAny_def
      bus_close_def bus_receive_def Let_def intro!: calm_do split: option.split)

lemma fresh_id: "page_inv p \<Longrightarrow> show_nat (pg_nextId p) \<notin> fst ` set (pg_pending p)"
  by (simp add: page_inv_def ids_below_fresh)

text \<open>A call is pending under a fresh id, or settled at once.\<close>

lemma pg_call_cases:
  assumes "page_inv p"
  obtains (settled) n where "pg_call t target pl p = pg_do [PSettle t (PRejected ''disconnected'')] (p\<lparr>pg_nextId := n\<rparr>)"
      "pg_nextId p \<le> n"
  | (sent) f where "pg_connected p" "pg_call t target pl p = pg_do
      [PSend [(''type'', JStr ''call''), (''target'', JStr target), (''payload'', pl),
         (''id'', JStr (show_nat (pg_nextId p)))] f]
      (p\<lparr>pg_nextId := Suc (pg_nextId p), pg_pending := pg_pending p @ [(show_nat (pg_nextId p), t)]\<rparr>)"
proof (cases "pg_connected p")
  case False
  then show thesis by (intro settled [of "pg_nextId p"]) (simp_all add: pg_call_def)
next
  case c: True
  note up = update_fresh [OF fresh_id [OF assms]] delete_last [OF map_of_eq_None_iff [THEN iffD2, OF fresh_id [OF assms]]]
  show thesis
  proof (cases "page_encodeFrame [(''type'', JStr ''call''), (''target'', JStr target), (''payload'', pl),
         (''id'', JStr (show_nat (pg_nextId p)))]")
    case (Ok f)
    with c show thesis by (intro sent [of f]) (simp_all add: pg_call_def Let_def pg_sendFrame_def up)
  qed (use c settled [of "Suc (pg_nextId p)"] in \<open>simp_all add: pg_call_def Let_def pg_sendFrame_def up\<close>)
qed

lemma pg_reply_cases:
  obtains (settle) i t r where "map_of (pg_pending p) i = Some t"
      "pg_on_reply msg p = pg_do [PSettle t r] (p\<lparr>pg_pending := AList.delete i (pg_pending p)\<rparr>)"
  | (nothing) "calm_page p (pg_on_reply msg p)"
proof (cases "map_of (pg_pending p) (js_String_opt (map_of msg ''id''))")
  case None
  then have "calm_page p (pg_on_reply msg p)" by (auto simp: pg_on_reply_def Let_def intro!: calm_do)
  then show thesis by (rule nothing)
next
  case (Some t)
  then show thesis by (intro settle [OF Some]) (simp add: pg_on_reply_def)
qed

lemma settle_kept:
  assumes "page_inv p" "map_of (pg_pending p) i = Some t"
  shows "page_inv (pg_do [PSettle t r] (p\<lparr>pg_pending := AList.delete i (pg_pending p)\<rparr>))"
    "pg_ledger (pg_do [PSettle t r] (p\<lparr>pg_pending := AList.delete i (pg_pending p)\<rparr>)) = pg_ledger p"
proof -
  have d: "distinct (map fst (pg_pending p))" using assms(1) by (simp add: page_inv_def)
  have "mset (map snd (AList.delete i (pg_pending p))) + {#t#} = mset (map snd (pg_pending p))"
    using mset_delete [OF d assms(2)] by simp
  then show "pg_ledger (pg_do [PSettle t r] (p\<lparr>pg_pending := AList.delete i (pg_pending p)\<rparr>)) = pg_ledger p"
    by (simp add: pg_ledger_def pg_settled_def)
  have "pg_connected p" using assms by (auto simp: page_inv_def)
  with assms(1) show "page_inv (pg_do [PSettle t r] (p\<lparr>pg_pending := AList.delete i (pg_pending p)\<rparr>))"
    by (simp add: page_inv_def ids_below_delete)
qed

lemma call_kept:
  assumes "page_inv p"
  shows "page_inv (pg_call t target pl p)" "pg_ledger (pg_call t target pl p) = pg_ledger p + {#t#}"
proof -
  have "page_inv (pg_call t target pl p) \<and> pg_ledger (pg_call t target pl p) = pg_ledger p + {#t#}"
  proof (cases rule: pg_call_cases [OF assms, of t target pl, case_names settled sent])
    case (settled n)
    then show ?thesis using assms
      by (auto simp: page_inv_def pg_ledger_def pg_settled_def intro: ids_below_mono)
  next
    case (sent f)
    have "page_inv (p\<lparr>pg_nextId := Suc (pg_nextId p), pg_pending := pg_pending p @ [(show_nat (pg_nextId p), t)]\<rparr>)"
      using assms fresh_id [OF assms] sent(1) by (auto simp: page_inv_def intro: ids_below_snoc)
    with sent(2) show ?thesis by (auto simp: page_inv_def pg_ledger_def pg_settled_def)
  qed
  then show "page_inv (pg_call t target pl p)" "pg_ledger (pg_call t target pl p) = pg_ledger p + {#t#}"
    by simp_all
qed

lemma socket_kept:
  assumes "page_inv p"
  shows "pg_sock p = Connecting \<Longrightarrow> page_inv (pg_onopen p)" "pg_ledger (pg_onopen p) = pg_ledger p"
    "pg_sock p \<noteq> Dead \<Longrightarrow> page_inv (pg_onclose p)" "pg_ledger (pg_onclose p) = pg_ledger p"
    "pg_timer p \<noteq> None \<Longrightarrow> page_inv (pg_connect (p\<lparr>pg_timer := None\<rparr>))"
    "pg_ledger (pg_connect (p\<lparr>pg_timer := None\<rparr>)) = pg_ledger p"
proof -
  have t: "pg_settled (map (\<lambda>h. PLifecycle h b) hs) = {#}" "pg_settled (map (text_send \<circ> g) ws) = {#}"
    "pg_settled [text_send e] = {#}" "pg_settled [PDial u] = {#}" "pg_settled [] = {#}" for b hs g ws e u
    by (rule pg_settled_none; auto simp: text_send_def)+
  have m: "pg_settled (map (\<lambda>(_, t). PSettle t r) xs) = mset (map snd xs)" for r and xs :: "(string \<times> nat) list"
    by (induction xs) (auto simp: pg_settled_def)
  have "pg_timer p = None" if "pg_sock p \<noteq> Dead" using that assms by (auto simp: page_inv_def)
  show "pg_sock p = Connecting \<Longrightarrow> page_inv (pg_onopen p)" "pg_ledger (pg_onopen p) = pg_ledger p"
    using assms by (auto simp: pg_onopen_eq page_inv_def pg_ledger_def t MAX_RECONNECT_DELAY_def)
  show "pg_sock p \<noteq> Dead \<Longrightarrow> page_inv (pg_onclose p)" "pg_ledger (pg_onclose p) = pg_ledger p"
    using assms by (auto simp: pg_onclose_def Let_def fireLifecycle_def rejectAllPending_def page_inv_def
        pg_ledger_def t m MAX_RECONNECT_DELAY_def)
  show "pg_timer p \<noteq> None \<Longrightarrow> page_inv (pg_connect (p\<lparr>pg_timer := None\<rparr>))"
    "pg_ledger (pg_connect (p\<lparr>pg_timer := None\<rparr>)) = pg_ledger p"
    using assms by (auto simp: pg_connect_def page_inv_def pg_ledger_def t)
qed

end
