(* ===== verification/Page_Props.thy ===== *)
theory Page_Props
  imports Page_Transport
begin

text \<open>
  What the page transport guarantees: the account of its calls, the subscriptions the server holds for
  it across reconnects, which pages a bus message reaches, and the frames it does not understand.
\<close>

section \<open>Calls\<close>

lemma page_step_calm:
  assumes "page_step e p = Some p'"
  shows "e \<in> {POpen, PClose, PTimer} \<or> (\<exists>d. e = PMessage d) \<or> (\<exists>t g pl. e = PCall t g pl) \<or>
    (\<exists>t g pl. e = PDispatch t g pl) \<or> calm_page p p' \<and> pg_issued e = {#}"
  using assms
  by (cases e) (auto simp: pg_issued_def fantastic_transport_def calm_methods calm_bus split: if_splits)

lemma message_cases:
  assumes "pg_onmessage d p = Some p'"
  obtains (calm) "calm_page p p'" | (reply) msg where "p' = pg_on_reply msg p"
proof -
  have c: "calm_page p (pg_do (map (\<lambda>h. PState h msg) hs) p)" "calm_page p (pg_do [PThrew] p)" for msg hs
    by (auto intro!: calm_do)
  show thesis using assms that c calm_methods(12) [of p]
    by (auto simp: pg_onmessage_def Let_def split: outcome.splits json.splits if_splits)
qed

lemma message_kept:
  assumes "page_inv p" "pg_onmessage d p = Some p'"
  shows "page_inv p' \<and> pg_ledger p' = pg_ledger p"
proof (cases rule: message_cases [OF assms(2), case_names calm reply])
  case calm
  then show ?thesis using calm_pageD assms(1) by simp
next
  case (reply msg)
  show ?thesis
  proof (cases rule: pg_reply_cases [of p msg, case_names settle nothing])
    case (settle i t r)
    with reply settle_kept [OF assms(1) settle(1), of r] show ?thesis by simp
  next
    case nothing
    then show ?thesis using calm_pageD assms(1) reply by simp
  qed
qed

lemma page_step_kept:
  assumes "page_inv p" "page_step e p = Some p'"
  shows "page_inv p' \<and> pg_ledger p' = pg_ledger p + pg_issued e"
  using page_step_calm [OF assms(2)]
proof (elim disjE exE conjE)
  assume "e \<in> {POpen, PClose, PTimer}"
  then show ?thesis using assms socket_kept [OF assms(1)] by (auto simp: pg_issued_def split: if_splits)
next
  fix d assume "e = PMessage d"
  then show ?thesis using assms(2) message_kept [OF assms(1)] by (auto simp: pg_issued_def split: if_splits)
next
  assume "calm_page p p'" "pg_issued e = {#}"
  then show ?thesis using calm_pageD assms(1) by simp
qed (use assms call_kept [OF assms(1)] in \<open>auto simp: pg_issued_def pg_dispatch_def\<close>)

interpretation page_calls: step_ledger page_step "\<lambda>_. True" page_inv pg_issued pg_ledger
  using page_step_kept by unfold_locales auto

text \<open>
  C26: no call of a page is lost. In every run of the page transport, every call made through
  \<^verbatim>\<open>call\<close> or the dispatcher is exactly once either settled or pending; nothing is pending while the
  page is disconnected, so a call never outlives the socket it was sent on; the reconnect delay stays
  between one and sixteen seconds.
\<close>

theorem page_calls_accounted:
  assumes "run_events page_step es (new_page loc) = Some p"
  shows "pg_settled (pg_out p) + mset (map snd (pg_pending p)) = sum_list (map pg_issued es) \<and>
    (\<not> pg_connected p \<longrightarrow> pg_pending p = []) \<and>
    1000 \<le> pg_reconnectDelay p \<and> pg_reconnectDelay p \<le> MAX_RECONNECT_DELAY"
proof -
  have "pg_ledger (new_page loc) = {#}"
    by (simp add: pg_ledger_def new_page_def Let_def pg_on_def table_push_def pg_connect_def prototype_keys_def
        pg_settled_def)
  with page_calls.run_ledger [OF assms new_page_inv] page_calls.run_inv [OF assms new_page_inv]
  show ?thesis by (simp add: pg_ledger_def page_inv_def list_all_iff)
qed

definition sample_location :: location where
  "sample_location = \<lparr>loc_protocol = ''http:'', loc_host = ''h'', loc_pathname = ''/pane/index.html''\<rparr>"

definition page_session :: "page_event list" where
  "page_session = [PCall 1 ''pty'' (JObj []), POpen, PCall 2 ''pty'' (JObj [(''type'', JStr ''boot'')]), PClose]"

lemma page_session_runs:
  "\<exists>p. run_events page_step page_session (new_page sample_location) = Some p \<and> \<not> pg_connected p"
proof -
  obtain p1 where p1: "run_events page_step [PCall 1 ''pty'' (JObj []), POpen,
      PCall 2 ''pty'' (JObj [(''type'', JStr ''boot'')])] (new_page sample_location) = Some p1" "pg_sock p1 = Opened"
    by (simp add: new_page_def Let_def pg_on_def table_push_def prototype_keys_def pg_connect_def pg_call_def
        pg_onopen_eq pg_sendFrame_def split: prod.split outcome.split)
  then show ?thesis
    using run_events_append [of page_step "take 3 page_session" "[PClose]"]
    by (simp add: page_session_def pg_onclose_def Let_def fireLifecycle_def rejectAllPending_def)
qed

theorem page_calls_accounted_witness:
  "\<exists>p. run_events page_step page_session (new_page sample_location) = Some p \<and>
     pg_settled (pg_out p) = {#1, 2#}"
proof -
  obtain p where p: "run_events page_step page_session (new_page sample_location) = Some p" "\<not> pg_connected p"
    using page_session_runs by blast
  have "pg_settled (pg_out p) = {#1, 2#}" using page_calls_accounted [OF p(1)] p(2)
    by (auto simp: page_session_def pg_issued_def add_mset_commute)
  with p(1) show ?thesis by blast
qed

section \<open>Subscriptions\<close>

text \<open>What the server has been asked for on the current socket: the watched sources and the state
  stream. A new socket starts with nothing.\<close>

fun server_view :: "page_effect \<Rightarrow> string set \<times> bool \<Rightarrow> string set \<times> bool" where
  "server_view (PDial _) _ = ({}, False)"
| "server_view (PSend env _) (ws, sub) =
     (let ty = str env ''type'' []; src = str env ''src'' [] in
      if ty = ''watch'' then (insert src ws, sub)
      else if ty = ''unwatch'' then (ws - {src}, sub)
      else if ty = ''state_subscribe'' then (ws, True)
      else if ty = ''state_unsubscribe'' then (ws, False)
      else (ws, sub))"
| "server_view _ v = v"

definition server_has :: "page \<Rightarrow> string set \<times> bool" where
  "server_has p = fold server_view (pg_out p) ({}, False)"

definition subscribed_inv :: "page \<Rightarrow> bool" where
  "subscribed_inv p =
     (page_inv p \<and>
      (pg_sock p = Connecting \<longrightarrow> server_has p = ({}, False)) \<and>
      (pg_sock p = Opened \<longrightarrow> server_has p = (set (pg_watching p), pg_stateHandlers p \<noteq> [])))"

text \<open>Effects the server does not see.\<close>

definition unseen :: "page_effect \<Rightarrow> bool" where
  "unseen e = (\<forall>v. server_view e v = v)"

lemma fold_unseen: "list_all unseen es \<Longrightarrow> fold server_view es v = v"
  by (induction es arbitrary: v) (auto simp: unseen_def)

lemma unseen_simps [simp]:
  "unseen (PSettle t r)" "unseen (PLifecycle h b)" "unseen (PEvent h j)" "unseen PReload" "unseen (PAny h ty pl)"
  "unseen (PState h m)" "unseen (PPost m)" "unseen (PBus h j)" "unseen (PBusAny h ty j)" "unseen PThrew"
  "unseen (run_handler j ph)"
  by (simp_all add: unseen_def) (cases ph; simp)

lemma unseen_send: "str env ''type'' [] \<in> {''call'', ''emit''} \<Longrightarrow> unseen (PSend env f)"
  by (auto simp: unseen_def Let_def)

lemma server_has_do: "server_has (pg_do es p) = fold server_view es (server_has p)"
  by (simp add: server_has_def)

text \<open>A step that leaves the socket, the watches and the state handlers alone and whose effects the
  server does not see.\<close>

definition discreet :: "page \<Rightarrow> page \<Rightarrow> bool" where
  "discreet p q = (pg_sock q = pg_sock p \<and> pg_watching q = pg_watching p \<and>
     pg_stateHandlers q = pg_stateHandlers p \<and> (\<exists>es. pg_out q = pg_out p @ es \<and> list_all unseen es))"

lemma discreet_subscribed: "discreet p q \<Longrightarrow> page_inv q \<Longrightarrow> subscribed_inv p \<Longrightarrow> subscribed_inv q"
  by (auto simp: discreet_def subscribed_inv_def server_has_def fold_unseen)

lemma discreetI:
  "list_all unseen es \<Longrightarrow> pg_sock q = pg_sock p \<Longrightarrow> pg_watching q = pg_watching p \<Longrightarrow>
   pg_stateHandlers q = pg_stateHandlers p \<Longrightarrow> pg_out q = pg_out p \<Longrightarrow> discreet p (pg_do es q)"
  by (auto simp: discreet_def)

lemma discreet_send:
  assumes "str env ''type'' [] \<in> {''call'', ''emit''}" shows "discreet p (fst (pg_sendFrame env p))"
  using assms unseen_send by (auto simp: pg_sendFrame_def discreet_def split: outcome.split)

lemma discreet_call: "page_inv p \<Longrightarrow> discreet p (pg_call t g pl p)"
proof (cases rule: pg_call_cases [of p t g pl, case_names inv settled sent])
  case (sent f)
  then show ?thesis by (auto intro!: discreetI unseen_send simp: str_def)
qed (auto intro!: discreetI)

lemma discreet_message:
  assumes "pg_onmessage d p = Some p'" shows "discreet p p'"
proof -
  have a: "list_all unseen (map (run_handler j) hs)" "list_all unseen (map (\<lambda>h. PAny h t pl) ys)"
    "list_all unseen (map (\<lambda>h. PState h m) ss)" for j hs t pl ys m ss by (simp_all add: list_all_iff)
  have "discreet p (pg_on_event v p)" for v
    by (auto simp: pg_on_event_def Let_def a intro!: discreetI split: option.split)
  moreover have "discreet p (pg_on_reply msg p)" for msg
    by (auto simp: pg_on_reply_def Let_def discreet_def split: option.split)
  moreover have "discreet p (pg_do [PThrew] p)" "discreet p p" "discreet p (pg_do (map (\<lambda>h. PState h m) ss) p)" for m ss
    by (auto simp: a discreet_def)
  ultimately show ?thesis using assms
    by (auto simp: pg_onmessage_def Let_def split: outcome.splits json.splits if_splits)
qed

lemma fold_watch_frames:
  "fold server_view (map (text_send \<circ> watch_frame) ws) (W, b) = (W \<union> set ws, b)"
  by (induction ws arbitrary: W) (auto simp: text_send_def watch_frame_def str_def)

lemma state_view [simp]: "server_view (text_send (state_frame on)) (W, b) = (W, on)"
  by (simp add: text_send_def state_frame_def str_def)

lemma subscribed_open:
  assumes "subscribed_inv p" "pg_sock p = Connecting" shows "subscribed_inv (pg_onopen p)"
proof -
  have "page_inv p" and h: "server_has p = ({}, False)" using assms by (simp_all add: subscribed_inv_def)
  then have "page_inv (pg_onopen p)" using socket_kept(1) assms(2) by simp
  moreover have "server_has (p\<lparr>pg_sock := Opened, pg_connected := True, pg_reconnectDelay := 1000,
      pg_readyResolve := False, pg_ready := r\<rparr>) = ({}, False)" for r
    using h by (simp add: server_has_def)
  moreover have "fold server_view (map (\<lambda>h. PLifecycle h True) hs) v = v" for hs v
    by (rule fold_unseen) (simp add: list_all_iff)
  ultimately show ?thesis
    by (simp add: subscribed_inv_def pg_onopen_eq server_has_do fold_watch_frames)
qed

lemma subscribed_control:
  assumes "subscribed_inv p"
  shows "subscribed_inv (pg_watch src p)" "subscribed_inv (pg_unwatch src p)"
    "subscribed_inv (pg_subscribeState h p)" "subscribed_inv (pg_unsubscribeState h p)"
proof -
  have inv: "page_inv p" using assms by (simp add: subscribed_inv_def)
  have k: "page_inv (pg_watch src p)" "page_inv (pg_unwatch src p)" "page_inv (pg_subscribeState h p)"
    "page_inv (pg_unsubscribeState h p)"
    using calm_pageD(1) [OF calm_methods(2) inv] calm_pageD(1) [OF calm_methods(3) inv]
      calm_pageD(1) [OF calm_methods(8) inv] calm_pageD(1) [OF calm_methods(9) inv] by simp_all
  have c: "pg_connected p \<longleftrightarrow> pg_sock p = Opened" using inv by (simp add: page_inv_def)
  have w: "server_view (text_send (watch_frame x)) (W, b) = (insert x W, b)"
    "server_view (text_send (unwatch_frame x)) (W, b) = (W - {x}, b)" for x W b
    by (simp_all add: text_send_def watch_frame_def unwatch_frame_def str_def)
  have s: "server_has (p\<lparr>pg_watching := y\<rparr>) = server_has p" "server_has (p\<lparr>pg_stateHandlers := z\<rparr>) = server_has p" for y z
    by (simp_all add: server_has_def)
  show "subscribed_inv (pg_watch src p)" "subscribed_inv (pg_unwatch src p)"
    "subscribed_inv (pg_subscribeState h p)" "subscribed_inv (pg_unsubscribeState h p)"
    using assms k c
    by (auto simp: subscribed_inv_def pg_watch_def pg_unwatch_def pg_subscribeState_def pg_unsubscribeState_def
        Let_def send_control server_has_do w s split: if_splits)
qed

lemma discreet_methods:
  "discreet p (pg_emit g pl p)" "discreet p (pg_on ty ph p)" "discreet p (pg_off ty h p)" "discreet p (pg_onAny h p)"
  "discreet p (pg_offAny h p)" "discreet p (pg_onLifecycle h p)" "discreet p (pg_offLifecycle h p)"
  "discreet p (bus_send t ms p)" "discreet p (bus_broadcast ms p)" "discreet p (bus_on t h p)"
  "discreet p (bus_off t h p)" "discreet p (bus_onAny h p)" "discreet p (bus_offAny h p)"
  "discreet p (bus_close p)" "discreet p (bus_receive d p)"
proof -
  show "discreet p (pg_emit g pl p)" unfolding pg_emit_def by (rule discreet_send) (simp add: str_def)
  have a: "list_all unseen (map (\<lambda>h. PBus h j) hs)" "list_all unseen (map (\<lambda>h. PBusAny h t j) ys)" for j hs t ys
    by (simp_all add: list_all_iff)
  show "discreet p (bus_receive d p)"
    by (auto simp: bus_receive_def Let_def a discreet_def split: option.split)
qed (auto simp: pg_on_def pg_off_def pg_onAny_def pg_offAny_def pg_onLifecycle_def pg_offLifecycle_def
    bus_send_def bus_broadcast_def bus_post_def bus_on_def bus_off_def bus_onAny_def bus_offAny_def bus_close_def
    discreet_def split: option.split)

lemma subscribed_step:
  assumes "subscribed_inv p" "page_step e p = Some p'" shows "subscribed_inv p'"
proof -
  have inv: "page_inv p" using assms(1) by (simp add: subscribed_inv_def)
  have inv': "page_inv p'" using page_step_kept [OF inv assms(2)] by simp
  have d: ?thesis if "discreet p p'" using discreet_subscribed [OF that inv' assms(1)] .
  show ?thesis
  proof (cases e)
    case POpen
    then show ?thesis using assms subscribed_open by (auto split: if_splits)
  next
    case (PMessage m)
    then show ?thesis using assms(2) d discreet_message by (auto split: if_splits)
  next
    case PClose
    then have "pg_sock p' = Dead" using assms(2)
      by (auto simp: pg_onclose_def Let_def fireLifecycle_def rejectAllPending_def split: if_splits)
    then show ?thesis using inv' by (simp add: subscribed_inv_def)
  next
    case PTimer
    then have "p' = pg_connect (p\<lparr>pg_timer := None\<rparr>)" using assms(2) by (simp split: if_splits)
    then show ?thesis using inv' by (simp add: subscribed_inv_def pg_connect_def server_has_do)
  qed (use assms d discreet_methods discreet_call [OF inv] subscribed_control [OF assms(1)] in
      \<open>auto simp: pg_dispatch_def fantastic_transport_def split: if_splits\<close>)
qed

interpretation page_subscriptions: step_invariant page_step "\<lambda>_. True" subscribed_inv
  using subscribed_step by unfold_locales

text \<open>
  C27: subscriptions survive reconnects. After every run in which the page is connected, the frames
  sent on the current socket have asked the server to watch exactly the sources the page currently
  watches and for the state stream exactly if the page has a state handler, however often the
  connection was lost in between and whatever was watched or unwatched meanwhile.
\<close>

theorem page_subscriptions_replayed:
  assumes "run_events page_step es (new_page loc) = Some p" "pg_connected p"
  shows "server_has p = (set (pg_watching p), pg_stateHandlers p \<noteq> [])"
proof -
  have "subscribed_inv (new_page loc)"
    using new_page_inv [of loc]
    by (simp add: subscribed_inv_def server_has_def new_page_def Let_def pg_on_def table_push_def pg_connect_def
        prototype_keys_def)
  from page_subscriptions.run_inv [OF assms(1) this] have "subscribed_inv p" by (simp add: list_all_iff)
  with assms(2) show ?thesis by (simp add: subscribed_inv_def page_inv_def)
qed

theorem page_subscriptions_replayed_witness:
  "\<exists>p. run_events page_step [PWatch ''a'', POpen, PWatch ''b'', PClose, PUnwatch ''a'', PSubscribe 1, PTimer, POpen]
     (new_page sample_location) = Some p \<and> server_has p = ({''b''}, True)"
proof -
  have "\<exists>p. run_events page_step [PWatch ''a'', POpen, PWatch ''b'', PClose, PUnwatch ''a'', PSubscribe 1, PTimer, POpen]
      (new_page sample_location) = Some p \<and> pg_connected p \<and> pg_watching p = [''b''] \<and> pg_stateHandlers p = [1]"
    by (simp add: new_page_def Let_def pg_on_def table_push_def prototype_keys_def pg_connect_def pg_watch_def
        pg_unwatch_def pg_subscribeState_def send_control pg_onopen_eq pg_onclose_def fireLifecycle_def
        rejectAllPending_def set_add_def set_del_def)
  then obtain p where "run_events page_step [PWatch ''a'', POpen, PWatch ''b'', PClose, PUnwatch ''a'',
      PSubscribe 1, PTimer, POpen] (new_page sample_location) = Some p"
    "pg_connected p" "pg_watching p = [''b'']" "pg_stateHandlers p = [1]" by blast
  with page_subscriptions_replayed [OF this(1,2)] show ?thesis by (intro exI [of _ p] conjI) simp_all
qed

section \<open>Frames the page does not understand\<close>

definition error_frame :: "string \<Rightarrow> string \<Rightarrow> payload" where
  "error_frame i msg = [(''type'', JStr ''error''), (''id'', JStr i), (''error'', JStr msg)]"

text \<open>
  An error frame is ignored. The hosts answer a malformed call with
  \<^verbatim>\<open>{"type": "error", "id": ..., "error": ...}\<close>; the page transport handles only \<^verbatim>\<open>reply\<close>, so such an
  answer changes nothing, and the call it answers stays pending. The frontend's own connection
  rejects the call on the same frame.
\<close>

theorem page_ignores_error_frames:
  "page_step (PMessage (TextFrame (stringify (JObj (error_frame i msg))))) p =
     (if pg_sock p = Opened then Some p else None) \<and>
   (map_of (pending c) i = Some t \<longrightarrow>
    onMessage (TextFrame (stringify (JObj (error_frame i msg)))) c =
      Some (effect (Settle t (Rejected msg)) (c\<lparr>pending := AList.delete i (pending c)\<rparr>)))"
proof -
  have "json_parse (stringify (JObj (error_frame i msg))) = Some (JObj (error_frame i msg))"
    using parse_stringify [of "JObj (error_frame i msg)"] by (simp add: error_frame_def del: stringify.simps)
  then show ?thesis
    by (simp add: pg_onmessage_def page_decodeFrame_def onMessage_def decodeFrame_def Let_def
        error_frame_def on_reply_def js_String_opt_def del: stringify.simps)
qed

theorem page_ignores_error_frames_witness:
  "onMessage (TextFrame (stringify (JObj (error_frame ''1'' ''no'')))) ((new_conn ''e'' ''u'' 16000)\<lparr>pending := [(''1'', 5)]\<rparr>) =
     Some (effect (Settle 5 (Rejected ''no'')) ((new_conn ''e'' ''u'' 16000)\<lparr>pending := []\<rparr>))"
  using page_ignores_error_frames [of "''1''" "''no''" undefined "(new_conn ''e'' ''u'' 16000)\<lparr>pending := [(''1'', 5)]\<rparr>" 5]
  by (simp del: stringify.simps)

section \<open>The bus\<close>

text \<open>What a page does with a message meant for it: the handlers of the type, then the others.\<close>

definition bus_dispatch :: "string \<Rightarrow> json \<Rightarrow> page \<Rightarrow> page" where
  "bus_dispatch ty d q =
     pg_do (map (\<lambda>h. PBus h d) (case map_of (pg_busListeners q) ty of Some hs \<Rightarrow> hs | None \<Rightarrow> []) @
            map (\<lambda>h. PBusAny h (Some (JStr ty)) d) (pg_busAnyListeners q)) q"

lemma map_of_obj_assign_fresh:
  "map_of (obj_assign ob ms) k = (case map_of (rev ms) k of Some v \<Rightarrow> Some v | None \<Rightarrow> map_of ob k)"
proof (induction ms arbitrary: ob)
  case (Cons x ms)
  obtain j v where x: "x = (j, v)" by (cases x)
  have "obj_assign ob (x # ms) = obj_assign (AList.update j v ob) ms" by (simp add: obj_assign_def x)
  with Cons show ?case by (auto simp: x map_add_def split: option.split)
qed (simp add: obj_assign_def)

lemma map_of_rev_distinct: "distinct (map fst m) \<Longrightarrow> map_of (rev m) = map_of m"
  by (simp add: map_of_inject_set rev_map [symmetric])

lemma bus_receive_object:
  assumes "map_of m ''type'' = Some (JStr ty)" "map_of m ''source_id'' = Some (JStr a)" "ty \<noteq> []" "ty \<notin> set prototype_keys"
  shows "bus_receive (JObj m) q =
    (if js_truthy (map_of m ''target_id'') \<and> map_of m ''target_id'' \<noteq> Some (JStr (pg_agentId q)) \<or> a = pg_agentId q
     then q else bus_dispatch ty (JObj m) q)"
proof -
  have "js_truthy (Some (JObj m))" "js_truthy (Some (JStr ty))" "js_String_opt (Some (JStr ty)) = ty"
    using assms(3) by (simp_all add: js_truthy_def js_String_opt_def)
  then show ?thesis using assms
    by (simp add: bus_receive_def bus_dispatch_def json_prop_def Let_def split: option.split)
qed



end
