(* ===== verification/Html_View.thy ===== *)
theory Html_View
  imports Content_Agents Steps Json_Text
begin

text \<open>
  A sandboxed HTML panel: the relay of \<^verbatim>\<open>ts/src/bundles/html_agent/html_view.ts\<close> in the page and the connector of
  \<^verbatim>\<open>ts/src/bundles/html_agent/connector.ts\<close> in the iframe, joined by the two directions of \<^verbatim>\<open>postMessage\<close>.

  A \<open>pane\<close> is the whole system: the kernel, the relay's closure variables, the connector's, and the messages
  under way. Every call of the connector's API, every message that arrives on either side, every settled
  \<^verbatim>\<open>kernel.send\<close> and every event someone emits on the kernel is one step. The connector's \<^verbatim>\<open>Set\<close>s of callbacks are
  objects with an address, because the functions it returns keep them alive. Fields of a message that the
  relay reads are strings or objects (what the connector posts); a navigated iframe starts a fresh connector.
\<close>

section \<open>State\<close>

record connector =
  cn_pending :: "(string \<times> nat) list"
  cn_sets :: "nat list list"
  cn_watchers :: "(string \<times> nat) list"
  cn_inboxCbs :: "nat list"
  cn_rid :: nat

definition new_connector :: connector where
  "new_connector = \<lparr>cn_pending = [], cn_sets = [], cn_watchers = [], cn_inboxCbs = [], cn_rid = 0\<rparr>"

datatype pane_effect = Answer nat "json option" | Callback nat "json option"

record pane =
  pn_kernel :: "bundle_fn kernel"
  pn_selfId :: string
  pn_sandbox :: string
  pn_listener :: nat
  pn_watchOffs :: "(string \<times> nat) list"
  pn_nextToken :: nat
  pn_calls :: "json option list"
  pn_mounted :: bool
  pn_body :: string
  pn_renders :: nat
  pn_cn :: connector
  pn_toPage :: "payload list"
  pn_toFrame :: "payload list"
  pn_fx :: "pane_effect list"

section \<open>The connector\<close>

definition ft :: "payload \<Rightarrow> payload" where
  "ft m = obj_assign [(''__ft'', JBool True)] m"

definition post :: "payload \<Rightarrow> pane \<Rightarrow> pane" where
  "post m p = p\<lparr>pn_toPage := pn_toPage p @ [ft m]\<rparr>"

definition cn_send :: "nat \<Rightarrow> string \<Rightarrow> payload \<Rightarrow> pane \<Rightarrow> pane" where
  "cn_send t target payload p =
     (let c = pn_cn p; rid = Suc (cn_rid c); i = show_nat rid
      in post [(''op'', JStr ''send''), (''rid'', JStr i), (''target'', JStr target), (''payload'', JObj payload)]
           (p\<lparr>pn_cn := c\<lparr>cn_rid := rid, cn_pending := AList.update i t (cn_pending c)\<rparr>\<rparr>))"

definition cn_emit :: "string \<Rightarrow> payload \<Rightarrow> pane \<Rightarrow> pane" where
  "cn_emit target payload p =
     post [(''op'', JStr ''emit''), (''target'', JStr target), (''payload'', JObj payload)] p"

definition cn_watch :: "string \<Rightarrow> nat \<Rightarrow> pane \<Rightarrow> pane" where
  "cn_watch src cb p =
     (let c = pn_cn p in
      case map_of (cn_watchers c) src of
        Some s \<Rightarrow> p\<lparr>pn_cn := c\<lparr>cn_sets := (cn_sets c)[s := set_add cb (cn_sets c ! s)]\<rparr>\<rparr>
      | None \<Rightarrow>
          post [(''op'', JStr ''watch''), (''src'', JStr src)]
            (p\<lparr>pn_cn := c\<lparr>cn_watchers := AList.update src (length (cn_sets c)) (cn_watchers c),
               cn_sets := cn_sets c @ [[cb]]\<rparr>\<rparr>))"

text \<open>The function \<^verbatim>\<open>watch\<close> returned, for the set at address \<open>s\<close>.\<close>

definition cn_off :: "string \<Rightarrow> nat \<Rightarrow> nat \<Rightarrow> pane \<Rightarrow> pane" where
  "cn_off src s cb p =
     (let c = pn_cn p; left = set_del cb (cn_sets c ! s); c1 = c\<lparr>cn_sets := (cn_sets c)[s := left]\<rparr>
      in if left = []
         then post [(''op'', JStr ''unwatch''), (''src'', JStr src)]
                (p\<lparr>pn_cn := c1\<lparr>cn_watchers := AList.delete src (cn_watchers c1)\<rparr>\<rparr>)
         else p\<lparr>pn_cn := c1\<rparr>)"

definition cn_onMessage :: "nat \<Rightarrow> pane \<Rightarrow> pane" where
  "cn_onMessage cb p = p\<lparr>pn_cn := (pn_cn p)\<lparr>cn_inboxCbs := set_add cb (cn_inboxCbs (pn_cn p))\<rparr>\<rparr>"

definition cn_offMessage :: "nat \<Rightarrow> pane \<Rightarrow> pane" where
  "cn_offMessage cb p = p\<lparr>pn_cn := (pn_cn p)\<lparr>cn_inboxCbs := set_del cb (cn_inboxCbs (pn_cn p))\<rparr>\<rparr>"

definition pn_do :: "pane_effect list \<Rightarrow> pane \<Rightarrow> pane" where
  "pn_do es p = p\<lparr>pn_fx := pn_fx p @ es\<rparr>"

definition cn_receive :: "payload \<Rightarrow> pane \<Rightarrow> pane" where
  "cn_receive m p =
     (let c = pn_cn p; op = map_of m ''op'' in
      if map_of m ''__ft'' \<noteq> Some (JBool True) then p
      else if op = Some (JStr ''reply'') then
        (case as_string (map_of m ''rid'') of
           Some i \<Rightarrow>
             (case map_of (cn_pending c) i of
                Some t \<Rightarrow> pn_do [Answer t (map_of m ''data'')]
                  (p\<lparr>pn_cn := c\<lparr>cn_pending := AList.delete i (cn_pending c)\<rparr>\<rparr>)
              | None \<Rightarrow> p)
         | None \<Rightarrow> p)
      else if op = Some (JStr ''event'') then
        (case as_string (map_of m ''src'') of
           Some src \<Rightarrow>
             (case map_of (cn_watchers c) src of
                Some s \<Rightarrow> pn_do (map (\<lambda>cb. Callback cb (map_of m ''payload'')) (cn_sets c ! s)) p
              | None \<Rightarrow> p)
         | None \<Rightarrow> p)
      else if op = Some (JStr ''inbox'') then
        pn_do (map (\<lambda>cb. Callback cb (map_of m ''payload'')) (cn_inboxCbs c)) p
      else p)"

section \<open>The relay\<close>

definition sandbox_of :: "'h kernel \<Rightarrow> string \<Rightarrow> string" where
  "sandbox_of k selfId =
     (if (case get_agent k selfId of Some a \<Rightarrow> map_of (meta a) ''trusted'' = Some (JBool True) | None \<Rightarrow> False)
      then ''allow-scripts allow-same-origin'' else ''allow-scripts'')"

definition srcdoc_of :: "string \<Rightarrow> string \<Rightarrow> string" where
  "srcdoc_of connector_src body =
     ''<!doctype html><html><head><meta charset=\"utf-8\"><script>'' @ connector_src @
     ''</script></head><body>'' @ body @ ''</body></html>''"

text \<open>A new \<^verbatim>\<open>srcdoc\<close> replaces the document and with it the connector.\<close>

definition pn_render :: "pane \<Rightarrow> pane" where
  "pn_render p = p\<lparr>pn_body := meta_text (pn_kernel p) (pn_selfId p) ''html'',
     pn_renders := Suc (pn_renders p), pn_cn := new_connector\<rparr>"

text \<open>A removed iframe has no \<^verbatim>\<open>contentWindow\<close>.\<close>

definition toIframe :: "payload \<Rightarrow> pane \<Rightarrow> pane" where
  "toIframe m p = (if pn_mounted p then p\<lparr>pn_toFrame := pn_toFrame p @ [ft m]\<rparr> else p)"

definition pn_onInbox :: "payload \<Rightarrow> pane \<Rightarrow> pane" where
  "pn_onInbox payload p =
     (if map_of payload ''type'' = Some (JStr ''reload_html'') then pn_render p
      else toIframe [(''op'', JStr ''inbox''), (''payload'', JObj payload)] p)"

text \<open>One of the relay's inbox listeners is called.\<close>

definition pn_heard :: "action \<Rightarrow> pane \<Rightarrow> pane" where
  "pn_heard x p =
     (case x of
        Deliver l payload \<Rightarrow>
          if l = pn_listener p then pn_onInbox payload p
          else (case find (\<lambda>(_, t). t = l) (pn_watchOffs p) of
              Some (src, _) \<Rightarrow> toIframe [(''op'', JStr ''event''), (''src'', JStr src), (''payload'', JObj payload)] p
            | None \<Rightarrow> p)
      | _ \<Rightarrow> p)"

text \<open>The kernel does something; its listeners run on the way.\<close>

definition pn_kernel_did :: "bundle_fn kernel \<Rightarrow> pane \<Rightarrow> pane" where
  "pn_kernel_did k' p =
     fold pn_heard (drop (length (trace (pn_kernel p))) (trace k')) (p\<lparr>pn_kernel := k'\<rparr>)"

definition text_field :: "payload \<Rightarrow> string \<Rightarrow> string" where
  "text_field m key = (case map_of m key of Some (JStr s) \<Rightarrow> s | _ \<Rightarrow> [])"

definition object_field :: "payload \<Rightarrow> string \<Rightarrow> payload" where
  "object_field m key = (case map_of m key of Some (JObj ms) \<Rightarrow> ms | _ \<Rightarrow> [])"

definition reply_msg :: "json option \<Rightarrow> json \<Rightarrow> payload" where
  "reply_msg rid v = (''op'', JStr ''reply'') #
     (case rid of Some r \<Rightarrow> [(''rid'', r)] | None \<Rightarrow> []) @ [(''data'', v)]"

definition relay_send :: "nat \<Rightarrow> payload \<Rightarrow> pane \<Rightarrow> pane" where
  "relay_send n m p =
     (let (k', r) = send n run_bundle (text_field m ''target'') (object_field m ''payload'') (pn_kernel p);
          p1 = pn_kernel_did k' p
      in case r of
           Settled v \<Rightarrow> toIframe (reply_msg (map_of m ''rid'') v) p1
         | Pending \<Rightarrow> p1\<lparr>pn_calls := pn_calls p1 @ [map_of m ''rid'']\<rparr>
         | Threw \<Rightarrow> p1)"

definition relay_emit :: "payload \<Rightarrow> pane \<Rightarrow> pane" where
  "relay_emit m p =
     (let target = text_field m ''target''; payload = object_field m ''payload''; k = pn_kernel p in
      if get_agent k target \<noteq> None then pn_kernel_did (emit target payload k) p
      else pn_kernel_did (emitRemote target payload k) p)"

definition relay_watch :: "string \<Rightarrow> pane \<Rightarrow> pane" where
  "relay_watch src p =
     (if map_of (pn_watchOffs p) src \<noteq> None then p
      else pn_kernel_did (onInbox src (pn_nextToken p) (watch src (pn_selfId p) (pn_kernel p)))
             (p\<lparr>pn_watchOffs := AList.update src (pn_nextToken p) (pn_watchOffs p),
                pn_nextToken := Suc (pn_nextToken p)\<rparr>))"

definition relay_unwatch :: "string \<Rightarrow> pane \<Rightarrow> pane" where
  "relay_unwatch src p =
     (case map_of (pn_watchOffs p) src of
        Some t \<Rightarrow> (pn_kernel_did (unwatch src (pn_selfId p) (offInbox src t (pn_kernel p))) p)
                     \<lparr>pn_watchOffs := AList.delete src (pn_watchOffs p)\<rparr>
      | None \<Rightarrow> p)"

definition relay_onMsg :: "nat \<Rightarrow> payload \<Rightarrow> pane \<Rightarrow> pane" where
  "relay_onMsg n m p =
     (let op = map_of m ''op'' in
      if map_of m ''__ft'' \<noteq> Some (JBool True) then p
      else if op = Some (JStr ''send'') then relay_send n m p
      else if op = Some (JStr ''emit'') then relay_emit m p
      else if op = Some (JStr ''watch'') then relay_watch (text_field m ''src'') p
      else if op = Some (JStr ''unwatch'') then relay_unwatch (text_field m ''src'') p
      else p)"

definition pn_mount :: "string \<Rightarrow> nat \<Rightarrow> bundle_fn kernel \<Rightarrow> pane" where
  "pn_mount selfId l k =
     (let p = pn_render \<lparr>pn_kernel = k, pn_selfId = selfId, pn_sandbox = sandbox_of k selfId, pn_listener = l,
          pn_watchOffs = [], pn_nextToken = Suc l, pn_calls = [], pn_mounted = True, pn_body = [], pn_renders = 0,
          pn_cn = new_connector, pn_toPage = [], pn_toFrame = [], pn_fx = []\<rparr>
      in p\<lparr>pn_kernel := onInbox selfId l k\<rparr>)"

definition pn_unmount :: "pane \<Rightarrow> pane" where
  "pn_unmount p =
     (let k1 = offInbox (pn_selfId p) (pn_listener p) (pn_kernel p);
          k2 = fold (\<lambda>(src, t) k. unwatch src (pn_selfId p) (offInbox src t k)) (pn_watchOffs p) k1
      in p\<lparr>pn_kernel := k2, pn_watchOffs := [], pn_mounted := False\<rparr>)"

section \<open>Steps\<close>

datatype pane_event =
    FSend nat string payload
  | FEmit string payload
  | FWatch string nat
  | FOff string nat nat
  | FOnMessage nat
  | FOffMessage nat
  | FrameGets
  | PageGets
  | Replied nat json
  | Rejects nat
  | KernelEmit string payload
  | Unmount

text \<open>The depth of the call stack for \<^verbatim>\<open>reflect\<close> is the number of agents.\<close>

definition pn_depth :: "pane \<Rightarrow> nat" where
  "pn_depth p = Suc (length (agents (pn_kernel p)))"

fun pane_step :: "pane_event \<Rightarrow> pane \<Rightarrow> pane option" where
  "pane_step (FSend t target payload) p = Some (cn_send t target payload p)"
| "pane_step (FEmit target payload) p = Some (cn_emit target payload p)"
| "pane_step (FWatch src cb) p = Some (cn_watch src cb p)"
| "pane_step (FOff src s cb) p = (if s < length (cn_sets (pn_cn p)) then Some (cn_off src s cb p) else None)"
| "pane_step (FOnMessage cb) p = Some (cn_onMessage cb p)"
| "pane_step (FOffMessage cb) p = Some (cn_offMessage cb p)"
| "pane_step FrameGets p =
     (case pn_toFrame p of m # ms \<Rightarrow> Some (cn_receive m (p\<lparr>pn_toFrame := ms\<rparr>)) | [] \<Rightarrow> None)"
| "pane_step PageGets p =
     (case pn_toPage p of
        m # ms \<Rightarrow> if pn_mounted p then Some (relay_onMsg (pn_depth p) m (p\<lparr>pn_toPage := ms\<rparr>))
                  else Some (p\<lparr>pn_toPage := ms\<rparr>)
      | [] \<Rightarrow> None)"
| "pane_step (Replied n v) p =
     (if n < length (pn_calls p) then
        Some (toIframe (reply_msg (pn_calls p ! n) v)
          (p\<lparr>pn_calls := take n (pn_calls p) @ drop (Suc n) (pn_calls p)\<rparr>))
      else None)"
| "pane_step (Rejects n) p =
     (if n < length (pn_calls p) then Some (p\<lparr>pn_calls := take n (pn_calls p) @ drop (Suc n) (pn_calls p)\<rparr>)
      else None)"
| "pane_step (KernelEmit src payload) p = Some (pn_kernel_did (emit src payload (pn_kernel p)) p)"
| "pane_step Unmount p = (if pn_mounted p then Some (pn_unmount p) else None)"

section \<open>What the two sides agree on\<close>

text \<open>The callbacks the connector would call for an event of a source.\<close>

definition callbacks :: "pane \<Rightarrow> (string \<times> nat) set" where
  "callbacks p = {(src, cb). \<exists>s. map_of (cn_watchers (pn_cn p)) src = Some s \<and> cb \<in> set (cn_sets (pn_cn p) ! s)}"

text \<open>The specification: a registration is live from \<^verbatim>\<open>watch\<close> until its unsubscribe function is called.\<close>

fun live_step :: "pane_event \<Rightarrow> (string \<times> nat) set \<Rightarrow> (string \<times> nat) set" where
  "live_step (FWatch src cb) L = insert (src, cb) L"
| "live_step (FOff src s cb) L = L - {(src, cb)}"
| "live_step _ L = L"

text \<open>How the relay's watches change when it has processed a message.\<close>

definition relay_wants :: "payload \<Rightarrow> string set \<Rightarrow> string set" where
  "relay_wants m W =
     (if map_of m ''__ft'' \<noteq> Some (JBool True) then W
      else if map_of m ''op'' = Some (JStr ''watch'') then insert (text_field m ''src'') W
      else if map_of m ''op'' = Some (JStr ''unwatch'') then W - {text_field m ''src''} else W)"

text \<open>The runs of one document: the panel is not reloaded and stays mounted, and an unsubscribe function
  is not called again once the last callback of its source is gone.\<close>

definition one_document :: "pane_event \<Rightarrow> pane \<Rightarrow> pane option" where
  "one_document e p =
     (case e of
        Unmount \<Rightarrow> None
      | FOff src s cb \<Rightarrow> if map_of (cn_watchers (pn_cn p)) src = Some s then pane_step e p else None
      | _ \<Rightarrow> (case pane_step e p of Some p' \<Rightarrow> if pn_renders p' = pn_renders p then Some p' else None | None \<Rightarrow> None))"

definition pane_inv :: "pane \<Rightarrow> bool" where
  "pane_inv p =
     (pn_mounted p \<and>
      (\<forall>src s. map_of (cn_watchers (pn_cn p)) src = Some s \<longrightarrow> s < length (cn_sets (pn_cn p)) \<and> cn_sets (pn_cn p) ! s \<noteq> []) \<and>
      (\<forall>src src' s. map_of (cn_watchers (pn_cn p)) src = Some s \<longrightarrow> map_of (cn_watchers (pn_cn p)) src' = Some s \<longrightarrow> src = src') \<and>
      fold relay_wants (pn_toPage p) (fst ` set (pn_watchOffs p)) = fst ` set (cn_watchers (pn_cn p)))"

text \<open>What a listener call leaves alone.\<close>

definition same_watching :: "pane \<Rightarrow> pane \<Rightarrow> bool" where
  "same_watching p q =
     (pn_watchOffs q = pn_watchOffs p \<and> pn_toPage q = pn_toPage p \<and> pn_mounted q = pn_mounted p \<and>
      pn_renders p \<le> pn_renders q \<and> (pn_renders q = pn_renders p \<longrightarrow> pn_cn q = pn_cn p))"

lemma same_watching_refl [simp]: "same_watching p p"
  by (simp add: same_watching_def)

lemma same_watching_trans: "same_watching p q \<Longrightarrow> same_watching q r \<Longrightarrow> same_watching p r"
  by (auto simp: same_watching_def)

lemma same_watching_toIframe [simp]: "same_watching p (toIframe m p)"
  by (simp add: same_watching_def toIframe_def)

lemma heard_watching: "same_watching p (pn_heard x p)"
  by (auto simp: pn_heard_def pn_onInbox_def pn_render_def same_watching_def toIframe_def
      split: action.split option.split)

lemma fold_heard_watching: "same_watching p (fold pn_heard xs p)"
  by (induction xs arbitrary: p) (auto intro: same_watching_trans [OF heard_watching])

lemma kernel_did_watching: "same_watching p (pn_kernel_did k' p)"
  using fold_heard_watching [of "p\<lparr>pn_kernel := k'\<rparr>"] by (simp add: pn_kernel_did_def same_watching_def)

lemma relay_send_watching: "same_watching p (relay_send n m p)"
proof -
  obtain k' r where kr: "send n run_bundle (text_field m ''target'') (object_field m ''payload'') (pn_kernel p) = (k', r)"
    by (cases "send n run_bundle (text_field m ''target'') (object_field m ''payload'') (pn_kernel p)")
  let ?q = "pn_kernel_did k' p"
  have "same_watching ?q (?q\<lparr>pn_calls := c\<rparr>)" for c by (simp add: same_watching_def)
  then have "same_watching ?q (relay_send n m p)"
    by (cases r) (simp_all add: relay_send_def kr Let_def)
  with kernel_did_watching show ?thesis by (rule same_watching_trans)
qed

lemma relay_emit_watching: "same_watching p (relay_emit m p)"
  by (simp add: relay_emit_def Let_def kernel_did_watching)

lemma wants_posted [simp]:
  "relay_wants (ft [(''op'', JStr ''watch''), (''src'', JStr s)]) W = insert s W"
  "relay_wants (ft [(''op'', JStr ''unwatch''), (''src'', JStr s)]) W = W - {s}"
  "relay_wants (ft ((''op'', JStr ''send'') # (''rid'', r) # (''target'', t) # [(''payload'', pl)])) W = W"
  "relay_wants (ft ((''op'', JStr ''emit'') # (''target'', t) # [(''payload'', pl)])) W = W"
  by (simp_all add: relay_wants_def ft_def obj_assign_def text_field_def)

lemma watching_kept:
  assumes "same_watching p q" "pn_renders q = pn_renders p"
  shows "pane_inv q = pane_inv p" "callbacks q = callbacks p"
  using assms by (simp_all add: same_watching_def pane_inv_def callbacks_def)

text \<open>The relay's side: processing the oldest message.\<close>

lemma relay_watches:
  assumes "pn_renders (relay_onMsg n m p) = pn_renders p"
  shows "pn_mounted (relay_onMsg n m p) = pn_mounted p" "pn_toPage (relay_onMsg n m p) = pn_toPage p"
    "pn_cn (relay_onMsg n m p) = pn_cn p"
    "fst ` set (pn_watchOffs (relay_onMsg n m p)) = relay_wants m (fst ` set (pn_watchOffs p))"
proof -
  have w: "same_watching p (relay_send n m p)" "same_watching p (relay_emit m p)"
    by (simp_all add: relay_send_watching relay_emit_watching)
  have i: "map_of (pn_watchOffs p) x = None \<longleftrightarrow> x \<notin> fst ` set (pn_watchOffs p)" for x
    by (simp add: map_of_eq_None_iff)
  note defs = relay_onMsg_def relay_wants_def Let_def
  consider "map_of m ''__ft'' \<noteq> Some (JBool True)"
    | "map_of m ''__ft'' = Some (JBool True)" "map_of m ''op'' = Some (JStr ''send'')"
    | "map_of m ''__ft'' = Some (JBool True)" "map_of m ''op'' = Some (JStr ''emit'')"
    | (watch) "map_of m ''__ft'' = Some (JBool True)" "map_of m ''op'' = Some (JStr ''watch'')"
    | (unwatch) "map_of m ''__ft'' = Some (JBool True)" "map_of m ''op'' = Some (JStr ''unwatch'')"
    | "map_of m ''op'' \<notin> {Some (JStr ''send''), Some (JStr ''emit''), Some (JStr ''watch''), Some (JStr ''unwatch'')}"
    by blast
  then have "pn_mounted (relay_onMsg n m p) = pn_mounted p \<and> pn_toPage (relay_onMsg n m p) = pn_toPage p \<and>
    pn_cn (relay_onMsg n m p) = pn_cn p \<and>
    fst ` set (pn_watchOffs (relay_onMsg n m p)) = relay_wants m (fst ` set (pn_watchOffs p))"
  proof cases
    case watch
    let ?src = "text_field m ''src''"
    show ?thesis
    proof (cases "map_of (pn_watchOffs p) ?src")
      case None
      let ?p = "p\<lparr>pn_watchOffs := AList.update ?src (pn_nextToken p) (pn_watchOffs p), pn_nextToken := Suc (pn_nextToken p)\<rparr>"
      have "relay_onMsg n m p = pn_kernel_did (onInbox ?src (pn_nextToken p) (watch ?src (pn_selfId p) (pn_kernel p))) ?p"
        using watch None by (simp add: defs relay_watch_def)
      with kernel_did_watching [of ?p] assms watch
      show ?thesis by (simp add: same_watching_def relay_wants_def fst_set_update)
    next
      case (Some t)
      then have "?src \<in> fst ` set (pn_watchOffs p)" using i by (metis option.distinct(1))
      with watch Some show ?thesis by (simp add: defs relay_watch_def insert_absorb)
    qed
  next
    case unwatch
    let ?src = "text_field m ''src''"
    show ?thesis
    proof (cases "map_of (pn_watchOffs p) ?src")
      case None
      then have "?src \<notin> fst ` set (pn_watchOffs p)" by (simp add: map_of_eq_None_iff)
      with None unwatch show ?thesis by (simp add: defs relay_unwatch_def)
    next
      case (Some t)
      with kernel_did_watching [of p "unwatch ?src (pn_selfId p) (offInbox ?src t (pn_kernel p))"] assms unwatch
      show ?thesis by (simp add: defs relay_unwatch_def same_watching_def fst_set_delete)
    qed
  qed (use assms w in \<open>auto simp: defs same_watching_def\<close>)
  then show "pn_mounted (relay_onMsg n m p) = pn_mounted p" "pn_toPage (relay_onMsg n m p) = pn_toPage p"
    "pn_cn (relay_onMsg n m p) = pn_cn p"
    "fst ` set (pn_watchOffs (relay_onMsg n m p)) = relay_wants m (fst ` set (pn_watchOffs p))"
    by simp_all
qed

lemma page_gets_kept:
  assumes "pane_inv p" "pn_toPage p = m # ms" "q = relay_onMsg n m (p\<lparr>pn_toPage := ms\<rparr>)" "pn_renders q = pn_renders p"
  shows "pane_inv q" "callbacks q = callbacks p"
proof -
  have "pn_renders (relay_onMsg n m (p\<lparr>pn_toPage := ms\<rparr>)) = pn_renders (p\<lparr>pn_toPage := ms\<rparr>)"
    using assms(3,4) by simp
  note r = relay_watches [OF this]
  show "callbacks q = callbacks p" using r(3) by (simp add: callbacks_def assms(3))
  show "pane_inv q" using assms(1,2) r by (simp add: pane_inv_def assms(3))
qed

lemma cn_watch_kept:
  assumes "pane_inv p"
  shows "pane_inv (cn_watch src cb p)" "callbacks (cn_watch src cb p) = insert (src, cb) (callbacks p)"
proof -
  let ?c = "pn_cn p"
  have a: "s < length (cn_sets ?c)" "cn_sets ?c ! s \<noteq> []" if "map_of (cn_watchers ?c) x = Some s" for x s
    using assms that by (auto simp: pane_inv_def)
  have inj: "x = y" if "map_of (cn_watchers ?c) x = Some s" "map_of (cn_watchers ?c) y = Some s" for x y s
    using assms that by (auto simp: pane_inv_def)
  have "pane_inv (cn_watch src cb p) \<and> callbacks (cn_watch src cb p) = insert (src, cb) (callbacks p)"
  proof (cases "map_of (cn_watchers ?c) src")
    case None
    have n: "map_of (cn_watchers ?c) x \<noteq> Some (length (cn_sets ?c))" for x using a(1) [of x] by blast
    show ?thesis
      using assms None a inj n
      by (auto simp: cn_watch_def Let_def pane_inv_def post_def callbacks_def fst_set_update nth_append
          less_Suc_eq split: if_splits)
  next
    case (Some s)
    have u: "(cn_sets ?c)[s := set_add cb (cn_sets ?c ! s)] ! j =
        (if j = s then set_add cb (cn_sets ?c ! s) else cn_sets ?c ! j)" for j
      using a(1) [OF Some] by (cases "j = s") simp_all
    show ?thesis using assms Some a inj [OF Some]
      by (auto simp: cn_watch_def Let_def pane_inv_def callbacks_def u split: if_splits)
  qed
  then show "pane_inv (cn_watch src cb p)" "callbacks (cn_watch src cb p) = insert (src, cb) (callbacks p)" by simp_all
qed

lemma cn_off_kept:
  assumes "pane_inv p" "map_of (cn_watchers (pn_cn p)) src = Some s"
  shows "pane_inv (cn_off src s cb p)" "callbacks (cn_off src s cb p) = callbacks p - {(src, cb)}"
proof -
  let ?c = "pn_cn p" and ?left = "set_del cb (cn_sets (pn_cn p) ! s)"
  have a: "j < length (cn_sets ?c)" "cn_sets ?c ! j \<noteq> []" if "map_of (cn_watchers ?c) x = Some j" for x j
    using assms that by (auto simp: pane_inv_def)
  have inj: "x = src" if "map_of (cn_watchers ?c) x = Some s" for x
    using assms that by (auto simp: pane_inv_def)
  have u: "(cn_sets ?c)[s := z] ! j = (if j = s then z else cn_sets ?c ! j)" for j z
    using a(1) [OF assms(2)] by (cases "j = s") simp_all
  have l: "?left = [] \<longleftrightarrow> set (cn_sets ?c ! s) \<subseteq> {cb}" by (auto simp: set_del_def filter_empty_conv)
  have "pane_inv (cn_off src s cb p) \<and> callbacks (cn_off src s cb p) = callbacks p - {(src, cb)}"
  proof (cases "?left = []")
    case True
    with l have "set (cn_sets ?c ! s) \<subseteq> {cb}" by simp
    moreover have "j \<noteq> s" if "map_of (cn_watchers ?c) x = Some j" "x \<noteq> src" for x j using inj that by auto
    ultimately show ?thesis using True assms a
      by (auto simp: cn_off_def Let_def pane_inv_def post_def callbacks_def fst_set_delete u split: if_splits)
  next
    case False
    then show ?thesis using assms a inj
      by (auto simp: cn_off_def Let_def pane_inv_def callbacks_def u split: if_splits)
  qed
  then show "pane_inv (cn_off src s cb p)" "callbacks (cn_off src s cb p) = callbacks p - {(src, cb)}" by simp_all
qed

lemma cn_rest_kept:
  "callbacks (cn_send t g pl p) = callbacks p" "callbacks (cn_emit g pl p) = callbacks p"
  "callbacks (cn_onMessage cb p) = callbacks p" "callbacks (cn_offMessage cb p) = callbacks p"
  "callbacks (cn_receive m (p\<lparr>pn_toFrame := ms\<rparr>)) = callbacks p"
  "pane_inv p \<Longrightarrow> pane_inv (cn_send t g pl p)" "pane_inv p \<Longrightarrow> pane_inv (cn_emit g pl p)"
  "pane_inv p \<Longrightarrow> pane_inv (cn_onMessage cb p)" "pane_inv p \<Longrightarrow> pane_inv (cn_offMessage cb p)"
  "pane_inv p \<Longrightarrow> pane_inv (cn_receive m (p\<lparr>pn_toFrame := ms\<rparr>))"
  by (auto simp: callbacks_def pane_inv_def cn_send_def cn_emit_def cn_onMessage_def cn_offMessage_def cn_receive_def
      pn_do_def post_def Let_def split: option.splits)

lemma one_document_kept:
  assumes "pane_inv p" "one_document e p = Some p'"
  shows "pane_inv p' \<and> callbacks p' = live_step e (callbacks p)"
proof (cases e)
  case (FOff src s cb)
  with assms cn_off_kept [OF assms(1)] show ?thesis by (auto simp: one_document_def split: if_splits)
next
  case PageGets
  have "pn_mounted p" using assms(1) by (simp add: pane_inv_def)
  with PageGets assms(2) obtain m ms where "pn_toPage p = m # ms" "p' = relay_onMsg (pn_depth p) m (p\<lparr>pn_toPage := ms\<rparr>)"
    "pn_renders p' = pn_renders p"
    by (auto simp: one_document_def split: list.splits if_splits)
  from page_gets_kept [OF assms(1) this] PageGets show ?thesis by simp
next
  case (Replied n v)
  with assms(2) obtain c where "p' = toIframe (reply_msg (pn_calls p ! n) v) (p\<lparr>pn_calls := c\<rparr>)" "pn_renders p' = pn_renders p"
    by (auto simp: one_document_def split: if_splits)
  moreover have "same_watching p (toIframe m (p\<lparr>pn_calls := c\<rparr>))" for m
    by (simp add: same_watching_def toIframe_def)
  ultimately show ?thesis using watching_kept [of p p'] assms(1) Replied by simp
next
  case (Rejects n)
  with assms(2) obtain c where "p' = p\<lparr>pn_calls := c\<rparr>" "pn_renders p' = pn_renders p"
    by (auto simp: one_document_def split: if_splits)
  moreover have "same_watching p (p\<lparr>pn_calls := c\<rparr>)" by (simp add: same_watching_def)
  ultimately show ?thesis using watching_kept [of p p'] assms(1) Rejects by simp
next
  case (KernelEmit src pl)
  with assms(2) have "p' = pn_kernel_did (emit src pl (pn_kernel p)) p" "pn_renders p' = pn_renders p"
    by (auto simp: one_document_def split: if_splits)
  with watching_kept [of p p'] kernel_did_watching assms(1) KernelEmit show ?thesis by simp
qed (use assms cn_watch_kept [OF assms(1)] cn_rest_kept in
    \<open>auto simp: one_document_def split: if_splits list.splits\<close>)

lemma one_document_run:
  "run_events one_document es p = Some q \<Longrightarrow> pane_inv p \<Longrightarrow>
   pane_inv q \<and> callbacks q = fold live_step es (callbacks p)"
proof (induction es arbitrary: p)
  case (Cons e es)
  then obtain p1 where "one_document e p = Some p1" "run_events one_document es p1 = Some q"
    by (auto simp: run_events_Cons_Some simp del: run_events.simps)
  with Cons one_document_kept [of p e p1] show ?case by simp
qed simp

lemma mount_inv: "pane_inv (pn_mount i l k)" "callbacks (pn_mount i l k) = {}"
  by (simp_all add: pn_mount_def Let_def pn_render_def pane_inv_def callbacks_def new_connector_def)


definition panel :: pane where
  "panel = pn_mount ''panel'' 0 content_kernel"

lemma panel_run_ends:
  "case run_events one_document [FWatch ''pty'' 1, FWatch ''pty'' 2, PageGets, FOff ''pty'' 0 1] panel of
     Some p \<Rightarrow> pn_toPage p = [] | None \<Rightarrow> False"
  by code_simp


section \<open>Where the panel goes wrong\<close>

text \<open>
  A reload mixes up answers. A panel asks a host agent (request 1) and is reloaded before the answer arrives.
  The new document's connector numbers its requests from 1 again, so when it asks another agent, the answer to
  the old document's request settles the new document's call, with the wrong agent's data.
\<close>

theorem reload_mixes_answers:
  "case run_events pane_step
      [FSend 10 ''alpha'' [(''type'', JStr ''ask'')], PageGets, KernelEmit ''panel'' reload_html,
       FSend 20 ''beta'' [(''type'', JStr ''ask'')], PageGets, Replied 0 (JStr ''from alpha''), FrameGets]
      (panel\<lparr>pn_kernel := (pn_kernel panel)\<lparr>bridge := True\<rparr>\<rparr>) of
     Some p \<Rightarrow> pn_fx p = [Answer 20 (Some (JStr ''from alpha''))] | None \<Rightarrow> False"
  by code_simp

text \<open>
  Watched events arrive twice. The relay watches a source on behalf of the panel's own agent and also listens
  to the source's inbox, so the kernel delivers one event to both of its listeners: the iframe gets it as an
  event and again as a message to the panel. If the source is another panel that is being edited
  (\<^verbatim>\<open>reload_html\<close>), the watching panel reloads itself.
\<close>

theorem watched_event_arrives_twice:
  "(case run_events pane_step
      [FWatch ''pty'' 1, FOnMessage 2, PageGets, KernelEmit ''pty'' [(''type'', JStr ''output'')], FrameGets, FrameGets] panel of
     Some p \<Rightarrow> pn_fx p = [Callback 1 (Some (JObj [(''type'', JStr ''output'')])),
                          Callback 2 (Some (JObj [(''type'', JStr ''output'')]))] | None \<Rightarrow> False) \<and>
   (case run_events pane_step [FWatch ''other'' 1, PageGets, KernelEmit ''other'' reload_html] panel of
     Some p \<Rightarrow> pn_renders p = Suc (pn_renders panel) | None \<Rightarrow> False)"
  by code_simp

text \<open>Calling an unsubscribe function a second time, after the same source was watched anew, removes the new
  registration.\<close>

lemma second_off_drops_new_watch:
  "case run_events pane_step [FWatch ''pty'' 1, FOff ''pty'' 0 1, FWatch ''pty'' 2, FOff ''pty'' 0 1] panel of
     Some p \<Rightarrow> cn_watchers (pn_cn p) = [] | None \<Rightarrow> False"
  by code_simp

text \<open>A rejected \<^verbatim>\<open>kernel.send\<close> is never answered: the iframe's promise stays pending.\<close>

lemma rejected_send_unanswered:
  "case run_events pane_step [FSend 10 ''alpha'' [], PageGets, Rejects 0] (panel\<lparr>pn_kernel := (pn_kernel panel)\<lparr>bridge := True\<rparr>\<rparr>) of
     Some p \<Rightarrow> pn_calls p = [] \<and> pn_toFrame p = [] \<and> cn_pending (pn_cn p) = [(show_nat 1, 10)] | None \<Rightarrow> False"
  by code_simp

end
