(* ===== verification/Terminal_View.thy ===== *)
theory Terminal_View
  imports Prelude Steps
begin

text \<open>
  The terminal view: \<^verbatim>\<open>ts/src/bundles/terminal_view/terminal_view.ts\<close>. Its closure variables are the record \<open>terminal\<close>; the events of the backend, the callbacks of
  xterm, the timers, the resize observer and the continuations of the three calls \<^verbatim>\<open>mount\<close> awaits are steps.
  xterm is a parameter: a write is queued and its callback runs when the chunk has been parsed, in order;
  \<^verbatim>\<open>fit()\<close> either throws or yields the new size. What the view does is recorded in \<open>tv_out\<close>.
\<close>

section \<open>State\<close>

definition ACK_SIZE :: nat where
  "ACK_SIZE = 5000"

datatype tv_effect =
    BackendCall payload
  | BackendBinary payload
  | TermWrite string
  | ScrollToBottom
  | TermRefresh nat nat
  | PreventDefault

text \<open>Where \<^verbatim>\<open>mount\<close> is suspended.\<close>

datatype tv_stage = AwaitBoot | AwaitResize | AwaitReplay | MountThrew | Mounted | Unmounted

record terminal =
  tv_stage :: tv_stage
  tv_autoscroll :: bool
  tv_pendingOutput :: bool
  tv_unsentAck :: nat
  tv_parsing :: "nat option list"
  tv_cols :: nat
  tv_rows :: nat
  tv_roTimer :: "nat option"
  tv_timers :: nat
  tv_frames :: nat
  tv_reading :: "(string \<times> 8 word list) list"
  tv_sending :: nat
  tv_out :: "tv_effect list"

definition tv_do :: "tv_effect list \<Rightarrow> terminal \<Rightarrow> terminal" where
  "tv_do es t = t\<lparr>tv_out := tv_out t @ es\<rparr>"

definition msg :: "string \<Rightarrow> payload \<Rightarrow> payload" where
  "msg ty fs = (''type'', JStr ty) # fs"

section \<open>Flow control\<close>

definition ack_msg :: tv_effect where
  "ack_msg = BackendCall (msg ''ack'' [(''chars'', JNum (int ACK_SIZE))])"

text \<open>The loop of \<^verbatim>\<open>ackChars\<close>: what is left and the acknowledgements sent.\<close>

function ack_loop :: "nat \<Rightarrow> nat \<times> tv_effect list" where
  "ack_loop unsent =
     (if unsent \<ge> ACK_SIZE then (let (left, acks) = ack_loop (unsent - ACK_SIZE) in (left, ack_msg # acks))
      else (unsent, []))"
  by pat_completeness auto

termination by (relation "measure id") (auto simp: ACK_SIZE_def)

declare ack_loop.simps [simp del]

definition ackChars :: "nat \<Rightarrow> terminal \<Rightarrow> terminal" where
  "ackChars n t = (let (left, acks) = ack_loop (tv_unsentAck t + n) in tv_do acks (t\<lparr>tv_unsentAck := left\<rparr>))"

text \<open>A write with a callback that acknowledges \<open>n\<close> characters, or without one.\<close>

definition term_write :: "string \<Rightarrow> nat option \<Rightarrow> terminal \<Rightarrow> terminal" where
  "term_write s cb t = tv_do [TermWrite s] (t\<lparr>tv_parsing := tv_parsing t @ [cb]\<rparr>)"

definition on_output :: "payload \<Rightarrow> terminal \<Rightarrow> terminal" where
  "on_output e t =
     (let d = (case map_of e ''data'' of Some (JStr s) \<Rightarrow> s | _ \<Rightarrow> []);
          t1 = term_write d (Some (js_length d)) t
      in if tv_autoscroll t1 then t1\<lparr>tv_pendingOutput := True\<rparr> else t1)"

definition crlf :: string where
  "crlf = [CHR 0x0D, CHR 0x0A]"

definition on_closed :: "terminal \<Rightarrow> terminal" where
  "on_closed t = term_write (crlf @ ''[process closed]'' @ crlf) None t"

definition on_parsed :: "terminal \<Rightarrow> terminal" where
  "on_parsed t =
     (let t1 = t\<lparr>tv_parsing := tl (tv_parsing t)\<rparr> in
      case hd (tv_parsing t) of Some n \<Rightarrow> ackChars n t1 | None \<Rightarrow> t1)"

section \<open>Input\<close>

definition on_data :: "string \<Rightarrow> terminal \<Rightarrow> terminal" where
  "on_data s t = tv_do [BackendCall (msg ''write'' [(''data'', JStr s)])] t"

definition resize_msg :: "nat \<Rightarrow> nat \<Rightarrow> payload" where
  "resize_msg cols rows = msg ''resize'' [(''cols'', JNum (int cols)), (''rows'', JNum (int rows))]"

definition on_resize :: "nat \<Rightarrow> nat \<Rightarrow> terminal \<Rightarrow> terminal" where
  "on_resize cols rows t = tv_do [BackendCall (resize_msg cols rows)] t"

record clip_item =
  clip_kind :: string
  clip_type :: string
  clip_file :: "8 word list option"

definition is_image :: "clip_item \<Rightarrow> bool" where
  "is_image it = (clip_kind it = ''file'' \<and> take 6 (clip_type it) = ''image/'')"

text \<open>
  The loop of \<^verbatim>\<open>onPaste\<close>: the events whose default is prevented, and the first image that has a file. The file
  is then read (\<open>tv_reading\<close>) and sent as a binary frame (\<open>tv_sending\<close>); either may fail.
\<close>

fun paste_items :: "clip_item list \<Rightarrow> tv_effect list \<times> (string \<times> 8 word list) option" where
  "paste_items [] = ([], None)"
| "paste_items (it # its) =
     (if is_image it then
        (case clip_file it of
           None \<Rightarrow> (let (es, f) = paste_items its in (PreventDefault # es, f))
         | Some bs \<Rightarrow> ([PreventDefault], Some (clip_type it, bs)))
      else paste_items its)"

definition on_paste :: "clip_item list \<Rightarrow> terminal \<Rightarrow> terminal" where
  "on_paste its t =
     (let (es, f) = paste_items its; t1 = tv_do es t
      in t1\<lparr>tv_reading := tv_reading t1 @ (case f of None \<Rightarrow> [] | Some p \<Rightarrow> [p])\<rparr>)"

definition paste_read :: "nat \<Rightarrow> terminal \<Rightarrow> terminal" where
  "paste_read i t =
     (let (mime, bs) = tv_reading t ! i in
      tv_do [BackendBinary (msg ''paste_image'' [(''data'', JView bs), (''mime'', JStr mime)])]
        (t\<lparr>tv_reading := take i (tv_reading t) @ drop (Suc i) (tv_reading t), tv_sending := Suc (tv_sending t)\<rparr>))"

definition paste_failed :: "string \<Rightarrow> terminal \<Rightarrow> terminal" where
  "paste_failed err t = term_write (crlf @ ''[image paste failed: '' @ err @ '']'' @ crlf) None t"

section \<open>Scrolling and fitting\<close>

definition scroll_tick :: "terminal \<Rightarrow> terminal" where
  "scroll_tick t =
     (if tv_autoscroll t \<and> tv_pendingOutput t then tv_do [ScrollToBottom] (t\<lparr>tv_pendingOutput := False\<rparr>) else t)"

text \<open>\<^verbatim>\<open>fit.fit()\<close> throws (\<^const>\<open>None\<close>) or sets the size; a changed size calls \<^verbatim>\<open>onResize\<close> on the way.\<close>

definition tightFit :: "(nat \<times> nat) option \<Rightarrow> terminal \<Rightarrow> terminal" where
  "tightFit fit t =
     (case fit of
        None \<Rightarrow> t
      | Some (c, r) \<Rightarrow>
          (let t1 = t\<lparr>tv_cols := c, tv_rows := r\<rparr>;
               t2 = (if (c, r) \<noteq> (tv_cols t, tv_rows t) then on_resize c r t1 else t1);
               t3 = tv_do [TermRefresh 0 (r - 1)] t2
           in if tv_autoscroll t3 then tv_do [ScrollToBottom] (t3\<lparr>tv_pendingOutput := False\<rparr>) else t3))"

definition on_observed :: "terminal \<Rightarrow> terminal" where
  "on_observed t =
     (if tv_roTimer t \<noteq> None then t
      else t\<lparr>tv_roTimer := Some (tv_timers t), tv_timers := Suc (tv_timers t)\<rparr>)"

definition on_roTimer :: "terminal \<Rightarrow> terminal" where
  "on_roTimer t = t\<lparr>tv_roTimer := None, tv_frames := Suc (tv_frames t)\<rparr>"

section \<open>Mounting\<close>

definition tv_mount :: "nat \<Rightarrow> nat \<Rightarrow> (nat \<times> nat) option \<Rightarrow> terminal" where
  "tv_mount c r fit =
     tv_do [BackendCall (msg ''boot'' [])] (tightFit fit
       \<lparr>tv_stage = AwaitBoot, tv_autoscroll = False, tv_pendingOutput = False, tv_unsentAck = 0, tv_parsing = [],
        tv_cols = c, tv_rows = r, tv_roTimer = None, tv_timers = 0, tv_frames = 0, tv_reading = [], tv_sending = 0, tv_out = []\<rparr>)"

text \<open>
  The constructors of xterm and of its fit addon, each from the first place that has it: the global, the module's
  namespace, the namespace's default export. Without one \<^verbatim>\<open>new\<close> throws; waiting for the fonts ends either way.
\<close>

record 'c ctor_sources =
  cs_global :: "'c option"
  cs_module :: "'c option"
  cs_default :: "'c option"

definition pick :: "'c option list \<Rightarrow> 'c option" where
  "pick cands = (case find (\<lambda>c. c \<noteq> None) cands of Some c \<Rightarrow> c | None \<Rightarrow> None)"

definition pick_ctor :: "'c ctor_sources \<Rightarrow> 'c option" where
  "pick_ctor s = pick [cs_global s, cs_module s, cs_default s]"

datatype mount_error = NotAConstructor

definition tv_open :: "'c ctor_sources \<Rightarrow> 'f ctor_sources \<Rightarrow> (nat \<times> nat) option \<Rightarrow> mount_error + terminal" where
  "tv_open xt xtFit fit =
     (case (pick_ctor xt, pick_ctor xtFit) of (Some _, Some _) \<Rightarrow> Inr (tv_mount 80 24 fit) | _ \<Rightarrow> Inl NotAConstructor)"

definition mount_resume :: "json \<Rightarrow> terminal \<Rightarrow> terminal" where
  "mount_resume reply t =
     (case tv_stage t of
        AwaitBoot \<Rightarrow> tv_do [BackendCall (resize_msg (tv_cols t) (tv_rows t))] (t\<lparr>tv_stage := AwaitResize\<rparr>)
      | AwaitResize \<Rightarrow> tv_do [BackendCall (msg ''output'' [])] (t\<lparr>tv_stage := AwaitReplay\<rparr>)
      | AwaitReplay \<Rightarrow>
          (let t1 = t\<lparr>tv_stage := Mounted\<rparr> in
           case reply of
             JObj ms \<Rightarrow> (case map_of ms ''output'' of Some (JStr s) \<Rightarrow> term_write s None t1 | _ \<Rightarrow> t1)
           | _ \<Rightarrow> t1)
      | _ \<Rightarrow> t)"

text \<open>A call \<^verbatim>\<open>mount\<close> awaits is rejected: \<^verbatim>\<open>mount\<close> ends without a handle, and nothing it has set up is taken down.\<close>

definition mounting :: "terminal \<Rightarrow> bool" where
  "mounting t = (tv_stage t \<in> {AwaitBoot, AwaitResize, AwaitReplay})"

definition mount_throw :: "terminal \<Rightarrow> terminal" where
  "mount_throw t = t\<lparr>tv_stage := MountThrew\<rparr>"

definition toggle_autoscroll :: "terminal \<Rightarrow> terminal" where
  "toggle_autoscroll t =
     (let t1 = t\<lparr>tv_autoscroll := \<not> tv_autoscroll t\<rparr>
      in if tv_autoscroll t1 then t1\<lparr>tv_pendingOutput := True\<rparr> else t1)"

text \<open>Disposing the terminal drops the chunks it has not parsed.\<close>

definition tv_unmount :: "terminal \<Rightarrow> terminal" where
  "tv_unmount t = t\<lparr>tv_stage := Unmounted, tv_roTimer := None, tv_parsing := []\<rparr>"

section \<open>Steps\<close>

datatype tv_event =
    TOutput payload
  | TClosed
  | TParsed
  | TData string
  | TResize nat nat
  | TPaste "clip_item list"
  | TFileRead nat
  | TReadFailed nat string
  | TPasteSent
  | TPasteFailed string
  | TScrollTick
  | TObserved
  | TRoTimer
  | TFrame "(nat \<times> nat) option"
  | TReply json
  | TRejected
  | TToggle
  | TUnmount

fun tv_step :: "tv_event \<Rightarrow> terminal \<Rightarrow> terminal option" where
  "tv_step (TOutput e) t = (if tv_stage t \<noteq> Unmounted then Some (on_output e t) else None)"
| "tv_step TClosed t = (if tv_stage t \<noteq> Unmounted then Some (on_closed t) else None)"
| "tv_step TParsed t = (if tv_parsing t \<noteq> [] then Some (on_parsed t) else None)"
| "tv_step (TData s) t = (if tv_stage t \<noteq> Unmounted then Some (on_data s t) else None)"
| "tv_step (TResize c r) t =
     (if tv_stage t \<noteq> Unmounted then Some (on_resize c r (t\<lparr>tv_cols := c, tv_rows := r\<rparr>)) else None)"
| "tv_step (TPaste its) t = (if tv_stage t \<noteq> Unmounted then Some (on_paste its t) else None)"
| "tv_step (TFileRead i) t = (if i < length (tv_reading t) then Some (paste_read i t) else None)"
| "tv_step (TReadFailed i err) t =
     (if i < length (tv_reading t)
      then Some (paste_failed err (t\<lparr>tv_reading := take i (tv_reading t) @ drop (Suc i) (tv_reading t)\<rparr>)) else None)"
| "tv_step TPasteSent t = (if tv_sending t > 0 then Some (t\<lparr>tv_sending := tv_sending t - 1\<rparr>) else None)"
| "tv_step (TPasteFailed err) t =
     (if tv_sending t > 0 then Some (paste_failed err (t\<lparr>tv_sending := tv_sending t - 1\<rparr>)) else None)"
| "tv_step TScrollTick t = (if tv_stage t \<noteq> Unmounted then Some (scroll_tick t) else None)"
| "tv_step TObserved t = (if tv_stage t \<noteq> Unmounted then Some (on_observed t) else None)"
| "tv_step TRoTimer t = (if tv_roTimer t \<noteq> None then Some (on_roTimer t) else None)"
| "tv_step (TFrame fit) t =
     (if tv_frames t > 0 then Some (tightFit fit (t\<lparr>tv_frames := tv_frames t - 1\<rparr>)) else None)"
| "tv_step (TReply v) t =
     (if mounting t then Some (mount_resume v t) else None)"
| "tv_step TRejected t = (if mounting t then Some (mount_throw t) else None)"
| "tv_step TToggle t = (if tv_stage t = Mounted then Some (toggle_autoscroll t) else None)"
| "tv_step TUnmount t = (if tv_stage t = Mounted then Some (tv_unmount t) else None)"

section \<open>Flow control: every character is accounted for\<close>

definition acks :: "terminal \<Rightarrow> nat" where
  "acks t = length (filter (\<lambda>e. e = ack_msg) (tv_out t))"

fun received :: "tv_event \<Rightarrow> nat" where
  "received (TOutput e) = (case map_of e ''data'' of Some (JStr s) \<Rightarrow> js_length s | _ \<Rightarrow> 0)"
| "received _ = 0"

definition unparsed :: "terminal \<Rightarrow> nat" where
  "unparsed t = sum_list (map (\<lambda>c. case c of Some n \<Rightarrow> n | None \<Rightarrow> 0) (tv_parsing t))"

definition chars_accounted :: "terminal \<Rightarrow> nat" where
  "chars_accounted t = ACK_SIZE * acks t + tv_unsentAck t + unparsed t"

definition not_unmount :: "tv_event \<Rightarrow> bool" where
  "not_unmount e = (e \<noteq> TUnmount)"

lemma ack_loop_spec:
  "fst (ack_loop n) = n mod ACK_SIZE \<and> snd (ack_loop n) = replicate (n div ACK_SIZE) ack_msg"
proof (induction n rule: ack_loop.induct)
  case (1 n)
  show ?case
  proof (cases "n \<ge> ACK_SIZE")
    case True
    with 1 have ih: "fst (ack_loop (n - ACK_SIZE)) = (n - ACK_SIZE) mod ACK_SIZE"
      "snd (ack_loop (n - ACK_SIZE)) = replicate ((n - ACK_SIZE) div ACK_SIZE) ack_msg"
      by auto
    have "ACK_SIZE > 0" by (simp add: ACK_SIZE_def)
    with True have "n div ACK_SIZE = Suc ((n - ACK_SIZE) div ACK_SIZE)" "(n - ACK_SIZE) mod ACK_SIZE = n mod ACK_SIZE"
      by (simp_all add: le_div_geq le_mod_geq)
    with True ih show ?thesis by (subst (1 2) ack_loop.simps) (simp add: case_prod_unfold)
  qed (subst (1 2) ack_loop.simps, simp)
qed

lemma not_ack [simp]:
  "BackendCall (msg ty fs) = ack_msg \<longleftrightarrow> ty = ''ack'' \<and> fs = [(''chars'', JNum (int ACK_SIZE))]"
  "TermWrite s \<noteq> ack_msg" "ScrollToBottom \<noteq> ack_msg" "TermRefresh i j \<noteq> ack_msg" "PreventDefault \<noteq> ack_msg"
  "BackendBinary p \<noteq> ack_msg"
  by (simp_all add: ack_msg_def msg_def)

text \<open>What each operation leaves of the three counters.\<close>

lemma tally_cong:
  "acks t' = acks t \<Longrightarrow> tv_unsentAck t' = tv_unsentAck t \<Longrightarrow> tv_parsing t' = tv_parsing t \<Longrightarrow> chars_accounted t' = chars_accounted t"
  by (simp add: chars_accounted_def unparsed_def)

lemma acks_upd [simp]:
  "acks (tv_do es t) = acks t + length (filter (\<lambda>e. e = ack_msg) es)"
  "acks (t\<lparr>tv_out := os\<rparr>) = length (filter (\<lambda>e. e = ack_msg) os)"
  "acks (t\<lparr>tv_stage := g\<rparr>) = acks t" "acks (t\<lparr>tv_autoscroll := b\<rparr>) = acks t" "acks (t\<lparr>tv_pendingOutput := b\<rparr>) = acks t"
  "acks (t\<lparr>tv_unsentAck := n\<rparr>) = acks t" "acks (t\<lparr>tv_parsing := ps\<rparr>) = acks t" "acks (t\<lparr>tv_cols := c\<rparr>) = acks t"
  "acks (t\<lparr>tv_rows := c\<rparr>) = acks t" "acks (t\<lparr>tv_roTimer := rt\<rparr>) = acks t" "acks (t\<lparr>tv_timers := c\<rparr>) = acks t"
  "acks (t\<lparr>tv_frames := c\<rparr>) = acks t" "acks (t\<lparr>tv_reading := rs\<rparr>) = acks t" "acks (t\<lparr>tv_sending := c\<rparr>) = acks t"
  by (simp_all add: acks_def tv_do_def)

lemma tv_do_fields [simp]:
  "tv_stage (tv_do es t) = tv_stage t" "tv_autoscroll (tv_do es t) = tv_autoscroll t" "tv_unsentAck (tv_do es t) = tv_unsentAck t"
  "tv_parsing (tv_do es t) = tv_parsing t" "tv_roTimer (tv_do es t) = tv_roTimer t" "tv_reading (tv_do es t) = tv_reading t"
  by (simp_all add: tv_do_def)

lemma paste_items_no_ack: "filter (\<lambda>e. e = ack_msg) (fst (paste_items its)) = []"
  by (induction its rule: paste_items.induct) (auto simp: case_prod_unfold Let_def split: option.split)

lemma chars_ops:
  "chars_accounted (term_write s cb t) = chars_accounted t + (case cb of Some n \<Rightarrow> n | None \<Rightarrow> 0)"
  "chars_accounted (on_resize c r t) = chars_accounted t"
  "chars_accounted (ackChars n t) = chars_accounted t + n"
  "chars_accounted (tightFit fit t) = chars_accounted t"
  "chars_accounted (on_paste its t) = chars_accounted t"
  "i < length (tv_reading t) \<Longrightarrow> chars_accounted (paste_read i t) = chars_accounted t"
proof -
  show "chars_accounted (ackChars n t) = chars_accounted t + n"
    using ack_loop_spec [of "tv_unsentAck t + n"] mult_div_mod_eq [of ACK_SIZE "tv_unsentAck t + n"]
    by (auto simp: chars_accounted_def unparsed_def ackChars_def case_prod_unfold Let_def algebra_simps)
  show "chars_accounted (tightFit fit t) = chars_accounted t"
    by (rule tally_cong) (auto simp: tightFit_def on_resize_def resize_msg_def Let_def split: option.split)
  show "chars_accounted (on_paste its t) = chars_accounted t"
    by (rule tally_cong) (auto simp: on_paste_def Let_def case_prod_unfold paste_items_no_ack)
  show "chars_accounted (paste_read i t) = chars_accounted t"
    by (rule tally_cong) (auto simp: paste_read_def Let_def case_prod_unfold)
qed (simp_all add: chars_accounted_def unparsed_def term_write_def on_resize_def resize_msg_def algebra_simps)

lemma chars_parsed: "tv_parsing t \<noteq> [] \<Longrightarrow> chars_accounted (on_parsed t) = chars_accounted t"
proof -
  assume "tv_parsing t \<noteq> []"
  then obtain c cs where "tv_parsing t = c # cs" by (cases "tv_parsing t") auto
  then show ?thesis
    by (cases c) (auto simp: on_parsed_def Let_def chars_ops chars_accounted_def [of "t\<lparr>tv_parsing := cs\<rparr>"]
        chars_accounted_def [of t] unparsed_def)
qed

lemma chars_upd [simp]:
  "chars_accounted (t\<lparr>tv_stage := g\<rparr>) = chars_accounted t" "chars_accounted (t\<lparr>tv_autoscroll := b\<rparr>) = chars_accounted t"
  "chars_accounted (t\<lparr>tv_pendingOutput := b\<rparr>) = chars_accounted t" "chars_accounted (t\<lparr>tv_cols := c\<rparr>) = chars_accounted t"
  "chars_accounted (t\<lparr>tv_rows := c\<rparr>) = chars_accounted t" "chars_accounted (t\<lparr>tv_roTimer := rt\<rparr>) = chars_accounted t"
  "chars_accounted (t\<lparr>tv_timers := c\<rparr>) = chars_accounted t" "chars_accounted (t\<lparr>tv_frames := c\<rparr>) = chars_accounted t"
  "chars_accounted (t\<lparr>tv_reading := rs\<rparr>) = chars_accounted t" "chars_accounted (t\<lparr>tv_sending := c\<rparr>) = chars_accounted t"
  by (simp_all add: chars_accounted_def unparsed_def)

lemma chars_do [simp]: "filter (\<lambda>e. e = ack_msg) es = [] \<Longrightarrow> chars_accounted (tv_do es t) = chars_accounted t"
  by (rule tally_cong) auto

lemma chars_step:
  assumes "tv_step e t = Some t'" "not_unmount e"
  shows "chars_accounted t' = chars_accounted t + received e"
  using assms
  by (cases e)
    (auto simp: not_unmount_def chars_ops chars_parsed on_output_def on_closed_def on_data_def paste_failed_def scroll_tick_def
      on_observed_def on_roTimer_def mount_resume_def mount_throw_def toggle_autoscroll_def resize_msg_def Let_def
      split: if_splits option.splits json.splits tv_stage.splits)

lemma unsent_ackChars: "tv_unsentAck (ackChars n t) < ACK_SIZE"
  using ack_loop_spec [of "tv_unsentAck t + n"] by (auto simp: ackChars_def case_prod_unfold Let_def ACK_SIZE_def)

lemma unsent_other [simp]:
  "tv_unsentAck (term_write s cb t) = tv_unsentAck t" "tv_unsentAck (on_resize c r t) = tv_unsentAck t"
  "tv_unsentAck (tightFit fit t) = tv_unsentAck t" "tv_unsentAck (on_paste its t) = tv_unsentAck t"
  "tv_unsentAck (paste_read i t) = tv_unsentAck t"
  by (simp_all add: term_write_def on_resize_def tightFit_def on_paste_def paste_read_def Let_def case_prod_unfold split: option.split)

lemma unsent_step:
  assumes "tv_step e t = Some t'" "tv_unsentAck t < ACK_SIZE"
  shows "tv_unsentAck t' < ACK_SIZE"
  using assms
  by (cases e)
    (auto simp: unsent_ackChars on_output_def on_closed_def on_data_def on_parsed_def paste_failed_def scroll_tick_def
      on_observed_def on_roTimer_def mount_resume_def mount_throw_def toggle_autoscroll_def tv_unmount_def Let_def
      split: if_splits option.splits json.splits tv_stage.splits)

interpretation tv_chars: step_ledger tv_step not_unmount "\<lambda>t. tv_unsentAck t < ACK_SIZE"
  "\<lambda>e. replicate_mset (received e) ()" "\<lambda>t. replicate_mset (chars_accounted t) ()"
proof unfold_locales
  show "tv_unsentAck t' < ACK_SIZE" if "tv_unsentAck t < ACK_SIZE" "tv_step e t = Some t'" for t e t'
    using unsent_step that by blast
  show "replicate_mset (chars_accounted t') () = replicate_mset (chars_accounted t) () + replicate_mset (received e) ()"
    if "not_unmount e" "tv_step e t = Some t'" for t e t'
    using chars_step [OF that(2,1)] by (simp add: multiset_eq_iff)
qed

lemma chars_mount: "chars_accounted (tv_mount c r fit) = 0" "tv_unsentAck (tv_mount c r fit) = 0"
proof -
  have "chars_accounted (tv_mount c r fit) = chars_accounted \<lparr>tv_stage = AwaitBoot, tv_autoscroll = False, tv_pendingOutput = False,
    tv_unsentAck = 0, tv_parsing = [], tv_cols = c, tv_rows = r, tv_roTimer = None, tv_timers = 0, tv_frames = 0, tv_reading = [],
    tv_sending = 0, tv_out = []\<rparr>"
    unfolding tv_mount_def by (subst chars_do) (simp_all add: chars_ops)
  then show "chars_accounted (tv_mount c r fit) = 0" by (simp add: chars_accounted_def acks_def unparsed_def)
qed (simp add: tv_mount_def)

text \<open>
  C31: flow control of the terminal. Along every run of a mounted terminal, the characters its backend has sent
  are exactly those acknowledged (\<^const>\<open>ACK_SIZE\<close> per acknowledgement), those parsed and waiting for the next
  acknowledgement, and those xterm has not parsed yet; and less than one acknowledgement's worth of parsed
  characters is ever held back.
\<close>
theorem terminal_flow_control:
  assumes "run_events tv_step es (tv_mount c r fit) = Some t" "TUnmount \<notin> set es"
  shows "ACK_SIZE * acks t + tv_unsentAck t + unparsed t = sum_list (map received es) \<and> tv_unsentAck t < ACK_SIZE"
proof -
  have adm: "list_all not_unmount es" using assms(2) by (auto simp: list_all_iff not_unmount_def)
  have size_sum: "size (\<Sum>e\<leftarrow>es. replicate_mset (received e) ()) = sum_list (map received es)"
    by (induction es) auto
  have "tv_unsentAck (tv_mount c r fit) < ACK_SIZE" by (simp add: chars_mount ACK_SIZE_def)
  from tv_chars.run_ledger [OF assms(1) this adm] tv_chars.run_inv [OF assms(1) this adm] size_sum
  show ?thesis
    by (metis add_0 chars_accounted_def chars_mount(1) replicate_mset_0 size_replicate_mset)
qed

theorem terminal_flow_control_witness:
  "let e = TOutput [(''data'', JStr (replicate 6000 CHR ''x''))] in
   case run_events tv_step [e, TParsed, e] (tv_mount 80 24 None) of
     Some t \<Rightarrow> ACK_SIZE * acks t + tv_unsentAck t + unparsed t = sum_list (map received [e, TParsed, e]) \<and> tv_unsentAck t < ACK_SIZE
   | None \<Rightarrow> False"
proof -
  let ?e = "TOutput [(''data'', JStr (replicate 6000 CHR ''x''))]"
  obtain t where r: "run_events tv_step [?e, TParsed, ?e] (tv_mount 80 24 None) = Some t"
    by (simp add: tv_mount_def tightFit_def tv_do_def on_output_def term_write_def on_parsed_def ackChars_def case_prod_unfold Let_def)
  show ?thesis using terminal_flow_control [OF r] r by (simp add: Let_def)
qed

section \<open>Resizing\<close>

definition leaves_roTimer :: "tv_event \<Rightarrow> bool" where
  "leaves_roTimer e = (e \<noteq> TRoTimer \<and> e \<noteq> TUnmount)"

lemma roTimer_ops [simp]:
  "tv_roTimer (term_write s cb t) = tv_roTimer t" "tv_roTimer (on_resize c r t) = tv_roTimer t"
  "tv_roTimer (tightFit fit t) = tv_roTimer t" "tv_roTimer (on_paste its t) = tv_roTimer t"
  "tv_roTimer (paste_read i t) = tv_roTimer t" "tv_roTimer (ackChars n t) = tv_roTimer t"
  by (simp_all add: term_write_def on_resize_def tightFit_def on_paste_def paste_read_def ackChars_def Let_def case_prod_unfold
      split: option.split)

interpretation timer_kept: step_invariant tv_step leaves_roTimer "\<lambda>t. tv_roTimer t = Some i" for i
proof unfold_locales
  fix t e t'
  assume "tv_roTimer t = Some i" "leaves_roTimer e" "tv_step e t = Some t'"
  then show "tv_roTimer t' = Some i"
    by (cases e)
      (auto simp: leaves_roTimer_def on_output_def on_closed_def on_data_def on_parsed_def paste_failed_def scroll_tick_def
        on_observed_def mount_resume_def mount_throw_def toggle_autoscroll_def Let_def
        split: if_splits option.splits json.splits tv_stage.splits)
qed

definition mounted_terminal :: terminal where
  "mounted_terminal = (tv_mount 80 24 None)\<lparr>tv_stage := Mounted\<rparr>"

text \<open>
  C32: a resize is never starved. Once a resize observation has armed the timer, no further observation, no
  output, no scrolling and no input re-arms or cancels it: along every run without the timer firing and without
  an unmount it is the same timer, it can fire, and when it does exactly one fit is requested and the next
  observation arms a new timer.
\<close>
theorem terminal_resize_not_starved:
  assumes "run_events tv_step es (on_observed t) = Some t'" "tv_roTimer t = None" "TRoTimer \<notin> set es" "TUnmount \<notin> set es"
  shows "tv_roTimer t' = Some (tv_timers t) \<and>
    (\<exists>t''. tv_step TRoTimer t' = Some t'' \<and> tv_roTimer t'' = None \<and> tv_frames t'' = Suc (tv_frames t') \<and>
       tv_roTimer (on_observed t'') \<noteq> None)"
proof -
  have armed: "tv_roTimer (on_observed t) = Some (tv_timers t)" using assms(2) by (simp add: on_observed_def)
  have "list_all leaves_roTimer es" using assms(3,4) by (auto simp: list_all_iff leaves_roTimer_def)
  from timer_kept.run_inv [OF assms(1) armed this] show ?thesis by (simp add: on_roTimer_def on_observed_def)
qed

theorem terminal_resize_not_starved_witness:
  "case run_events tv_step [TToggle, TObserved, TScrollTick, TObserved] (on_observed (mounted_terminal)) of
     Some t' \<Rightarrow> tv_roTimer t' = Some (tv_timers mounted_terminal) \<and>
       (\<exists>t''. tv_step TRoTimer t' = Some t'' \<and> tv_roTimer t'' = None \<and> tv_frames t'' = Suc (tv_frames t') \<and>
          tv_roTimer (on_observed t'') \<noteq> None)
   | None \<Rightarrow> False"
proof -
  obtain t' where r: "run_events tv_step [TToggle, TObserved, TScrollTick, TObserved] (on_observed mounted_terminal) = Some t'"
    by (simp add: mounted_terminal_def tv_mount_def tightFit_def tv_do_def on_observed_def toggle_autoscroll_def scroll_tick_def)
  have "tv_roTimer mounted_terminal = None"
    by (simp add: mounted_terminal_def tv_mount_def tightFit_def)
  show ?thesis unfolding r option.case
    by (rule terminal_resize_not_starved [OF r \<open>tv_roTimer mounted_terminal = None\<close>]) simp_all
qed

section \<open>Opening xterm and failing to mount\<close>

text \<open>Either build opens a terminal: the one that sets the globals and the one that has the constructors in the namespaces.\<close>

lemma terminal_opens_in_either_build:
  "(\<exists>t. tv_open xt xtFit fit = Inr t) \<longleftrightarrow>
    (cs_global xt \<noteq> None \<or> cs_module xt \<noteq> None \<or> cs_default xt \<noteq> None) \<and>
    (cs_global xtFit \<noteq> None \<or> cs_module xtFit \<noteq> None \<or> cs_default xtFit \<noteq> None)"
  by (auto simp: tv_open_def pick_ctor_def pick_def split: option.split)

lemma stage_ops [simp]:
  "tv_stage (term_write s cb t) = tv_stage t" "tv_stage (on_resize c r t) = tv_stage t" "tv_stage (tv_do es t) = tv_stage t"
  "tv_stage (tightFit fit t) = tv_stage t" "tv_stage (on_paste its t) = tv_stage t"
  "tv_stage (paste_read i t) = tv_stage t" "tv_stage (ackChars n t) = tv_stage t"
  by (simp_all add: term_write_def on_resize_def tightFit_def on_paste_def paste_read_def ackChars_def tv_do_def Let_def case_prod_unfold
      split: option.split)

interpretation thrown: step_invariant tv_step "\<lambda>_. True" "\<lambda>t. tv_stage t = MountThrew"
proof unfold_locales
  fix t e t'
  assume "tv_stage t = MountThrew" "tv_step e t = Some t'"
  then show "tv_stage t' = MountThrew"
    by (cases e)
      (auto simp: on_output_def on_closed_def on_data_def on_parsed_def paste_failed_def scroll_tick_def
        on_observed_def on_roTimer_def mounting_def Let_def split: if_splits option.splits)
qed

text \<open>
  A terminal whose mount has thrown is never taken down: no later event ends it, it has no handle to unmount it with,
  and it goes on reading and acknowledging the output of its backend, scrolling and observing its frame.
\<close>

lemma failed_mount_lives_on:
  assumes "run_events tv_step es (mount_throw t) = Some t'"
  shows "tv_stage t' = MountThrew" "tv_step TUnmount t' = None" "tv_step TToggle t' = None"
    "tv_step (TOutput e) t' = Some (on_output e t')" "tv_step TScrollTick t' = Some (scroll_tick t')"
    "tv_step TObserved t' = Some (on_observed t')"
proof -
  show "tv_stage t' = MountThrew"
    using thrown.run_inv [OF assms] by (simp add: mount_throw_def list_all_iff)
  then show "tv_step TUnmount t' = None" "tv_step TToggle t' = None"
    "tv_step (TOutput e) t' = Some (on_output e t')" "tv_step TScrollTick t' = Some (scroll_tick t')"
    "tv_step TObserved t' = Some (on_observed t')" by simp_all
qed

end
