(* ===== verification/Ai_View.thy ===== *)
theory Ai_View
  imports Json_Text Steps
begin

text \<open>
  The chat view: \<^verbatim>\<open>ts/src/bundles/ai_view/ai_view.ts\<close>. Its closure variables and the parts of the DOM it keeps
  (the dialog, the queue of unsent bubbles, the tool blocks inside a bubble, the footer and the button) are the
  record \<open>chat\<close>; bubbles and tool blocks live in stores and are named by their address, so that moving a
  bubble from the queue to the dialog moves the same object. The events of the backend, the input of the user,
  the failure of a send and the three replies \<^verbatim>\<open>mount\<close> awaits are the steps. \<^verbatim>\<open>Math.random\<close> is a parameter: a step
  that draws a key carries it. Scroll positions and style classes without behaviour are left out.
\<close>

section \<open>Fields and text\<close>

text \<open>The helpers \<^verbatim>\<open>s\<close> and \<^verbatim>\<open>obj\<close>; a \<^verbatim>\<open>Dict\<close> is any object, so arrays and byte arrays pass \<^verbatim>\<open>obj\<close> too.\<close>

definition dict_get :: "json \<Rightarrow> string \<Rightarrow> json option" where
  "dict_get d k = (case d of JObj ms \<Rightarrow> map_of ms k | _ \<Rightarrow> None)"

definition dict_s :: "json \<Rightarrow> string \<Rightarrow> string" where
  "dict_s d k = (case dict_get d k of Some (JStr v) \<Rightarrow> v | _ \<Rightarrow> [])"

definition dict_obj :: "json \<Rightarrow> string \<Rightarrow> json" where
  "dict_obj d k =
     (case dict_get d k of
        Some (JObj ms) \<Rightarrow> JObj ms | Some (JArr xs) \<Rightarrow> JArr xs | Some (JBuf b) \<Rightarrow> JBuf b | Some (JView b) \<Rightarrow> JView b
      | _ \<Rightarrow> JObj [])"

definition dict_num :: "json \<Rightarrow> string \<Rightarrow> int option" where
  "dict_num d k = (case dict_get d k of Some (JNum n) \<Rightarrow> Some n | _ \<Rightarrow> None)"

definition dict_list :: "json \<Rightarrow> string \<Rightarrow> json list" where
  "dict_list d k = (case dict_get d k of Some (JArr xs) \<Rightarrow> xs | _ \<Rightarrow> [])"

definition has_keys :: "json \<Rightarrow> bool" where
  "has_keys d = (case d of JObj ms \<Rightarrow> ms \<noteq> [] | JArr xs \<Rightarrow> xs \<noteq> [] | JView b \<Rightarrow> b \<noteq> [] | _ \<Rightarrow> False)"

definition em_dash :: string where "em_dash = [CHR 0xE2, CHR 0x80, CHR 0x94]"

definition mid_dot :: string where "mid_dot = [CHR 0xC2, CHR 0xB7]"

definition right_arrow :: string where "right_arrow = [CHR 0xE2, CHR 0x86, CHR 0x92]"

definition check_mark :: string where "check_mark = [CHR 0xE2, CHR 0x9C, CHR 0x93]"

section \<open>State\<close>

text \<open>
  A bubble of the dialog or the queue: its text and the tool blocks appended after it. Setting \<^verbatim>\<open>textContent\<close>
  replaces all children, the tool blocks included.
\<close>

record bubble =
  bb_role :: string
  bb_text :: string
  bb_mark :: "string option"
  bb_blocks :: "nat list"

record tool_block =
  tb_verb :: string
  tb_target :: string
  tb_args :: json
  tb_recall :: bool
  tb_pending :: bool
  tb_state :: string
  tb_reply :: string

record inflight =
  if_send_id :: string
  if_user :: nat
  if_assistant :: nat
  if_toolBlocks :: "(string \<times> nat) list"
  if_streamText :: string

datatype chat_stage = AwaitReflect | AwaitHistory | AwaitStatus | Live | MountFailed | Gone

datatype chat_effect = ChatCall payload | StoreClientId string string

record chat =
  ch_backend :: string
  ch_clientId :: string
  ch_stage :: chat_stage
  ch_listening :: bool
  ch_model :: string
  ch_bubbles :: "bubble list"
  ch_tools :: "tool_block list"
  ch_dialog :: "nat list"
  ch_queuedEl :: "nat list"
  ch_queuedBubbles :: "(string \<times> nat) list"
  ch_queuedOrder :: "string list"
  ch_localPending :: "string list"
  ch_inflight :: "inflight option"
  ch_stop :: bool
  ch_phase :: string
  ch_hint :: string
  ch_timer :: bool
  ch_others :: string
  ch_input :: string
  ch_sends :: "string list"
  ch_out :: "chat_effect list"

definition ch_do :: "chat_effect list \<Rightarrow> chat \<Rightarrow> chat" where
  "ch_do es c = c\<lparr>ch_out := ch_out c @ es\<rparr>"

text \<open>\<^verbatim>\<open>addMsg\<close> with the dialog or the queue as the parent; the new bubble's address is the second result.\<close>

definition addMsg_dialog :: "string \<Rightarrow> string \<Rightarrow> chat \<Rightarrow> chat \<times> nat" where
  "addMsg_dialog role t c =
     (let b = length (ch_bubbles c) in
      (c\<lparr>ch_bubbles := ch_bubbles c @ [\<lparr>bb_role = role, bb_text = t, bb_mark = None, bb_blocks = []\<rparr>],
         ch_dialog := ch_dialog c @ [b]\<rparr>, b))"

definition addMsg_queued :: "string \<Rightarrow> chat \<Rightarrow> chat \<times> nat" where
  "addMsg_queued t c =
     (let b = length (ch_bubbles c) in
      (c\<lparr>ch_bubbles := ch_bubbles c @ [\<lparr>bb_role = ''user'', bb_text = t, bb_mark = Some ''queued'', bb_blocks = []\<rparr>],
         ch_queuedEl := ch_queuedEl c @ [b]\<rparr>, b))"

definition refreshBusy :: "chat \<Rightarrow> chat" where
  "refreshBusy c = c\<lparr>ch_stop := (ch_inflight c \<noteq> None \<or> ch_queuedBubbles c \<noteq> [])\<rparr>"

definition live_phase :: "string \<Rightarrow> bool" where
  "live_phase phase = (phase \<in> set [''thinking'', ''streaming'', ''tool_calling'', ''queued''])"

definition setPhase :: "string \<Rightarrow> string \<Rightarrow> chat \<Rightarrow> chat" where
  "setPhase phase hint c =
     (let c1 = c\<lparr>ch_phase := phase, ch_hint := hint\<rparr> in
      if live_phase phase then (if \<not> ch_timer c1 then c1\<lparr>ch_timer := True\<rparr> else c1)
      else if ch_timer c1 then c1\<lparr>ch_timer := False\<rparr> else c1)"

definition setOthersHint :: "int \<Rightarrow> chat \<Rightarrow> chat" where
  "setOthersHint n c = c\<lparr>ch_others := (if n > 0 then ''+'' @ show_int n @ '' from other clients'' else [])\<rparr>"

section \<open>Tool blocks\<close>

definition makeToolBlock :: "json \<Rightarrow> chat \<Rightarrow> chat \<times> nat" where
  "makeToolBlock tool c =
     (c\<lparr>ch_tools := ch_tools c @ [\<lparr>tb_verb = dict_s tool ''verb'', tb_target = dict_s tool ''target'',
          tb_args = dict_obj tool ''args'', tb_recall = (dict_s tool ''verb'' = ''recall''), tb_pending = True, tb_state = [], tb_reply = []\<rparr>]\<rparr>,
      length (ch_tools c))"

definition fillToolReply :: "nat \<Rightarrow> string \<Rightarrow> chat \<Rightarrow> chat" where
  "fillToolReply h preview c =
     c\<lparr>ch_tools := (ch_tools c)[h := (ch_tools c ! h)\<lparr>tb_reply := preview, tb_pending := False, tb_state := check_mark\<rparr>]\<rparr>"

definition append_block :: "nat \<Rightarrow> nat \<Rightarrow> chat \<Rightarrow> chat" where
  "append_block b h c = c\<lparr>ch_bubbles := (ch_bubbles c)[b := (ch_bubbles c ! b)\<lparr>bb_blocks := bb_blocks (ch_bubbles c ! b) @ [h]\<rparr>]\<rparr>"

definition handleToolCall :: "json \<Rightarrow> chat \<Rightarrow> chat" where
  "handleToolCall tool c =
     (case ch_inflight c of
        None \<Rightarrow> c
      | Some f \<Rightarrow>
          (let callId = dict_s tool ''call_id'';
               (c1, h) = (case map_of (if_toolBlocks f) callId of
                  Some h \<Rightarrow> (c, h)
                | None \<Rightarrow>
                    (let (c1, h) = makeToolBlock tool c;
                         c2 = c1\<lparr>ch_inflight := Some (f\<lparr>if_toolBlocks := AList.update callId h (if_toolBlocks f)\<rparr>)\<rparr>
                     in (append_block (if_assistant f) h c2, h)))
           in if dict_get tool ''reply_preview'' \<noteq> None then fillToolReply h (dict_s tool ''reply_preview'') c1 else c1))"

section \<open>The queue\<close>

text \<open>\<^verbatim>\<open>xs[xs.indexOf(x)] = y\<close> and \<^verbatim>\<open>xs.splice(xs.indexOf(x), 1)\<close>, where \<open>x\<close> occurs.\<close>

fun replace_first :: "'a \<Rightarrow> 'a \<Rightarrow> 'a list \<Rightarrow> 'a list" where
  "replace_first x y [] = []"
| "replace_first x y (z # zs) = (if z = x then y # zs else z # replace_first x y zs)"

definition bindNextLocalToSendId :: "string \<Rightarrow> chat \<Rightarrow> chat" where
  "bindNextLocalToSendId sendId c =
     (if sendId = [] \<or> map_of (ch_queuedBubbles c) sendId \<noteq> None then c
      else case ch_localPending c of
        [] \<Rightarrow> c
      | localKey # rest \<Rightarrow>
          (let c1 = c\<lparr>ch_localPending := rest\<rparr> in
           case map_of (ch_queuedBubbles c1) localKey of
             None \<Rightarrow> c1
           | Some b \<Rightarrow>
               c1\<lparr>ch_queuedBubbles := AList.update sendId b (AList.delete localKey (ch_queuedBubbles c1)),
                  ch_queuedOrder := replace_first localKey sendId (ch_queuedOrder c1)\<rparr>))"

definition promoteToInflight :: "string \<Rightarrow> string \<Rightarrow> chat \<Rightarrow> chat" where
  "promoteToInflight sendId fallback c =
     (let c1 = (if map_of (ch_queuedBubbles c) sendId = None \<and> ch_localPending c \<noteq> []
                then bindNextLocalToSendId sendId c else c);
          (c2, u) = (case map_of (ch_queuedBubbles c1) sendId of
              None \<Rightarrow> addMsg_dialog ''user'' fallback c1
            | Some b \<Rightarrow>
                (c1\<lparr>ch_bubbles := (ch_bubbles c1)[b := (ch_bubbles c1 ! b)\<lparr>bb_mark := None\<rparr>],
                    ch_queuedEl := remove1 b (ch_queuedEl c1),
                    ch_dialog := remove1 b (ch_dialog c1) @ [b],
                    ch_queuedBubbles := AList.delete sendId (ch_queuedBubbles c1),
                    ch_queuedOrder := remove1 sendId (ch_queuedOrder c1)\<rparr>, b));
          (c3, a) = addMsg_dialog ''assistant'' [] c2
      in refreshBusy (c3\<lparr>ch_inflight := Some \<lparr>if_send_id = sendId, if_user = u, if_assistant = a, if_toolBlocks = [], if_streamText = []\<rparr>\<rparr>))"

text \<open>Both ends of a lost connection: nothing that was under way will be answered.\<close>

definition on_lifecycle :: "string \<Rightarrow> chat \<Rightarrow> chat" where
  "on_lifecycle st c =
     (if st = ''disconnected'' then
        setPhase ''idle'' (''disconnected '' @ em_dash @ '' waiting to reconnect'')
          (refreshBusy (c\<lparr>ch_inflight := None,
             ch_queuedEl := filter (\<lambda>b. b \<notin> set (map snd (ch_queuedBubbles c))) (ch_queuedEl c),
             ch_queuedBubbles := [], ch_queuedOrder := [], ch_localPending := []\<rparr>))
      else setPhase ''idle'' [] c)"

section \<open>Events of the backend\<close>

definition mine :: "json \<Rightarrow> chat \<Rightarrow> bool" where
  "mine p c =
     ((dict_s p ''client_id'' = [] \<or> dict_s p ''client_id'' = ch_clientId c) \<and>
      (dict_s p ''source'' = [] \<or> dict_s p ''source'' = ch_backend c))"

definition on_queued :: "json \<Rightarrow> chat \<Rightarrow> chat" where
  "on_queued p c =
     (if mine p c \<and> dict_s p ''send_id'' \<noteq> [] then bindNextLocalToSendId (dict_s p ''send_id'') c else c)"

definition stop_hint :: string where
  "stop_hint = ''press stop or esc to interrupt''"

definition on_status :: "json \<Rightarrow> chat \<Rightarrow> chat" where
  "on_status p c =
     (if \<not> mine p c then c
      else
        (let phase = dict_s p ''phase''; detail = dict_obj p ''detail''; sendId = dict_s detail ''send_id'' in
         if phase = ''queued'' then
           setPhase ''queued'' (case dict_num detail ''ahead'' of Some n \<Rightarrow> show_int n @ '' ahead'' | None \<Rightarrow> [])
             (bindNextLocalToSendId sendId c)
         else if phase = ''thinking'' \<or> phase = ''streaming'' then
           setPhase phase stop_hint
             (if map_option if_send_id (ch_inflight c) \<noteq> Some sendId then promoteToInflight sendId [] c else c)
         else if phase = ''tool_calling'' then
           setPhase ''tool_calling'' stop_hint (handleToolCall (dict_obj detail ''tool'') c)
         else if phase = ''done'' then
           setPhase ''idle'' (if dict_s detail ''reason'' \<noteq> [] \<and> dict_s detail ''reason'' \<noteq> ''ok'' then dict_s detail ''reason'' else []) c
         else c))"

definition set_text :: "nat \<Rightarrow> string \<Rightarrow> chat \<Rightarrow> chat" where
  "set_text b t c = c\<lparr>ch_bubbles := (ch_bubbles c)[b := (ch_bubbles c ! b)\<lparr>bb_text := t, bb_blocks := []\<rparr>]\<rparr>"

definition on_token :: "json \<Rightarrow> chat \<Rightarrow> chat" where
  "on_token p c =
     (case ch_inflight c of
        Some f \<Rightarrow>
          (if mine p c then
             (let t = if_streamText f @ dict_s p ''text''
              in set_text (if_assistant f) t (c\<lparr>ch_inflight := Some (f\<lparr>if_streamText := t\<rparr>)\<rparr>))
           else c)
      | None \<Rightarrow> c)"

definition on_done :: "json \<Rightarrow> chat \<Rightarrow> chat" where
  "on_done p c = (if mine p c then refreshBusy (c\<lparr>ch_inflight := None\<rparr>) else c)"

definition num_or_0 :: "int option \<Rightarrow> int" where
  "num_or_0 v = (case v of Some n \<Rightarrow> n | None \<Rightarrow> 0)"

definition on_context :: "json \<Rightarrow> chat \<Rightarrow> chat" where
  "on_context p c =
     (if \<not> mine p c then c
      else
        (let detail = dict_obj p ''detail'' in
         if dict_s p ''phase'' = ''too_small'' then
           (let (c1, b) = addMsg_dialog ''notice'' (''context too small '' @ em_dash @ '' '' @ dict_s detail ''hint'') c;
                c2 = c1\<lparr>ch_bubbles := (ch_bubbles c1)[b := (ch_bubbles c1 ! b)\<lparr>bb_mark := Some ''too-small''\<rparr>]\<rparr>
            in refreshBusy (setPhase ''idle'' ''context too small'' c2))
         else
           fst (addMsg_dialog ''notice''
             (''context compacted '' @ mid_dot @ '' '' @ dict_s detail ''strategy'' @ '' '' @ mid_dot @ '' '' @
              show_int (num_or_0 (dict_num detail ''dropped_turns'')) @ '' dropped '' @ right_arrow @ '' '' @
              show_int (num_or_0 (dict_num detail ''kept_turns'')) @ '' kept (recall to page back)'') c)))"

section \<open>Mounting\<close>

definition client_key :: "string \<Rightarrow> string" where
  "client_key backend = ''ai_chat_client_id:'' @ backend"

text \<open>The mode of a record; every mode but chat is a placeholder with one message.\<close>

definition view_mode :: "payload \<Rightarrow> string" where
  "view_mode record = (case map_of record ''mode'' of Some (JStr m) \<Rightarrow> if m \<noteq> [] then m else ''chat'' | _ \<Rightarrow> ''chat'')"

definition mountStub :: "string \<Rightarrow> string \<Rightarrow> string" where
  "mountStub mode backend =
     ''ai_view mode \"'' @ mode @ ''\" is scaffolded (backend '' @ backend @ ''). '' @
     ''chat is the wired mode; agent-prompt / dynamic-buttons land here.''"

text \<open>
  The chat up to its first \<^verbatim>\<open>await\<close>. The client id is the stored one, or a new one that is stored
  (\<open>drawn\<close> is the random part).
\<close>

definition chat_mount :: "string \<Rightarrow> string option \<Rightarrow> string \<Rightarrow> chat" where
  "chat_mount backend stored drawn =
     (let cid = (case stored of Some i \<Rightarrow> i | None \<Rightarrow> ''web_'' @ drawn) in
      \<lparr>ch_backend = backend, ch_clientId = cid, ch_stage = AwaitReflect, ch_listening = False, ch_model = [], ch_bubbles = [],
       ch_tools = [], ch_dialog = [], ch_queuedEl = [], ch_queuedBubbles = [], ch_queuedOrder = [], ch_localPending = [],
       ch_inflight = None, ch_stop = False, ch_phase = ''idle'', ch_hint = [], ch_timer = False, ch_others = [], ch_input = [],
       ch_sends = [],
       ch_out = (case stored of Some _ \<Rightarrow> [] | None \<Rightarrow> [StoreClientId (client_key backend) cid]) @
         [ChatCall [(''type'', JStr ''reflect'')]]\<rparr>)"

definition chat_ask :: "string \<Rightarrow> chat \<Rightarrow> chat" where
  "chat_ask ty c = ch_do [ChatCall [(''type'', JStr ty), (''client_id'', JStr (ch_clientId c))]] c"

text \<open>Reading a property of \<^verbatim>\<open>null\<close> throws, and \<^verbatim>\<open>mount\<close> rejects where it stands.\<close>

definition boot_reflect :: "json \<Rightarrow> chat \<Rightarrow> chat" where
  "boot_reflect v c =
     (if v = JNull then c\<lparr>ch_stage := MountFailed\<rparr>
      else chat_ask ''history'' (setPhase ''idle'' [] (c\<lparr>ch_model := dict_s v ''model'', ch_listening := True, ch_stage := AwaitHistory\<rparr>)))"

fun replay :: "json list \<Rightarrow> chat \<Rightarrow> chat \<times> bool" where
  "replay [] c = (c, True)"
| "replay (m # ms) c =
     (if m = JNull then (c, False) else replay ms (fst (addMsg_dialog (dict_s m ''role'') (dict_s m ''content'') c)))"

definition boot_history :: "json \<Rightarrow> chat \<Rightarrow> chat" where
  "boot_history v c =
     (if v = JNull then c\<lparr>ch_stage := MountFailed\<rparr>
      else
        (case replay (dict_list v ''messages'') c of
           (c1, False) \<Rightarrow> c1\<lparr>ch_stage := MountFailed\<rparr>
         | (c1, True) \<Rightarrow> chat_ask ''status'' (c1\<lparr>ch_stage := AwaitStatus\<rparr>)))"

definition restore_current :: "json \<Rightarrow> chat \<Rightarrow> chat" where
  "restore_current cur c =
     (if dict_get cur ''is_mine'' \<noteq> Some (JBool True) then c
      else
        (let (c1, ub) = addMsg_dialog ''user'' (dict_s cur ''text'') c;
             (c2, ab) = addMsg_dialog ''assistant'' (dict_s cur ''text_so_far'') c1;
             f = \<lparr>if_send_id = dict_s cur ''send_id'', if_user = ub, if_assistant = ab, if_toolBlocks = [],
                   if_streamText = dict_s cur ''text_so_far''\<rparr>;
             lastTool = dict_obj cur ''last_tool'';
             c3 = (if has_keys lastTool then
                     (let (c3, h) = makeToolBlock lastTool c2;
                          c4 = append_block ab h (c3\<lparr>ch_inflight := Some (f\<lparr>if_toolBlocks := [(dict_s lastTool ''call_id'', h)]\<rparr>)\<rparr>)
                      in if dict_get lastTool ''reply_preview'' \<noteq> None then fillToolReply h (dict_s lastTool ''reply_preview'') c4 else c4)
                   else c2\<lparr>ch_inflight := Some f\<rparr>);
             phase = dict_s cur ''phase''
         in setPhase (if phase \<noteq> [] then phase else ''thinking'') stop_hint c3))"

fun restore_pending :: "json list \<Rightarrow> chat \<Rightarrow> chat \<times> bool" where
  "restore_pending [] c = (c, True)"
| "restore_pending (entry # es) c =
     (if entry = JNull then (c, False)
      else
        (let (c1, b) = addMsg_queued (dict_s entry ''text'') c
         in restore_pending es (c1\<lparr>ch_queuedBubbles := AList.update (dict_s entry ''send_id'') b (ch_queuedBubbles c1),
              ch_queuedOrder := ch_queuedOrder c1 @ [dict_s entry ''send_id'']\<rparr>)))"

definition boot_status :: "json \<Rightarrow> chat \<Rightarrow> chat" where
  "boot_status snap c =
     (if \<not> js_truthy (Some snap) then c\<lparr>ch_stage := Live\<rparr>
      else
        (let c1 = setOthersHint (num_or_0 (dict_num snap ''others_pending'')) c;
             c2 = restore_current (dict_obj snap ''current'') c1
         in case restore_pending (dict_list snap ''mine_pending'') c2 of
              (c3, False) \<Rightarrow> c3\<lparr>ch_stage := MountFailed\<rparr>
            | (c3, True) \<Rightarrow> refreshBusy c3\<lparr>ch_stage := Live\<rparr>))"

definition boot_resume :: "json \<Rightarrow> chat \<Rightarrow> chat" where
  "boot_resume v c =
     (case ch_stage c of
        AwaitReflect \<Rightarrow> boot_reflect v c
      | AwaitHistory \<Rightarrow> boot_history v c
      | AwaitStatus \<Rightarrow> boot_status v c
      | _ \<Rightarrow> c)"

text \<open>A call the boot awaits is rejected.\<close>

definition boot_rejected :: "chat \<Rightarrow> chat" where
  "boot_rejected c = c\<lparr>ch_stage := MountFailed\<rparr>"

section \<open>Input\<close>

definition submit :: "string \<Rightarrow> chat \<Rightarrow> chat" where
  "submit drawn c =
     (let t = js_trim (ch_input c) in
      if t = [] then c
      else
        (let localKey = ''local_'' @ drawn;
             (c1, b) = addMsg_queued t (c\<lparr>ch_input := []\<rparr>);
             c2 = refreshBusy (c1\<lparr>ch_queuedBubbles := AList.update localKey b (ch_queuedBubbles c1),
               ch_queuedOrder := ch_queuedOrder c1 @ [localKey], ch_localPending := ch_localPending c1 @ [localKey],
               ch_sends := ch_sends c1 @ [localKey]\<rparr>)
         in ch_do [ChatCall [(''type'', JStr ''send''), (''text'', JStr t), (''client_id'', JStr (ch_clientId c))]] c2))"

text \<open>The \<^verbatim>\<open>catch\<close> of a submitted message.\<close>

definition send_failed :: "string \<Rightarrow> string \<Rightarrow> chat \<Rightarrow> chat" where
  "send_failed localKey err c =
     (let c1 = fst (addMsg_dialog ''assistant'' (''ERROR: '' @ err) c)
      in refreshBusy (c1\<lparr>ch_queuedEl := (case map_of (ch_queuedBubbles c1) localKey of Some b \<Rightarrow> remove1 b (ch_queuedEl c1) | None \<Rightarrow> ch_queuedEl c1),
           ch_queuedBubbles := AList.delete localKey (ch_queuedBubbles c1),
           ch_queuedOrder := remove1 localKey (ch_queuedOrder c1),
           ch_localPending := remove1 localKey (ch_localPending c1)\<rparr>))"

definition interrupt :: "chat \<Rightarrow> chat" where
  "interrupt c = ch_do [ChatCall [(''type'', JStr ''interrupt'')]] c"

definition send_click :: "string \<Rightarrow> chat \<Rightarrow> chat" where
  "send_click drawn c = (if ch_inflight c \<noteq> None then interrupt c else submit drawn c)"

definition on_key :: "string \<Rightarrow> bool \<Rightarrow> string \<Rightarrow> chat \<Rightarrow> chat" where
  "on_key key shift drawn c = (if key = ''Enter'' \<and> \<not> shift then submit drawn c else c)"

definition on_esc :: "string \<Rightarrow> chat \<Rightarrow> chat" where
  "on_esc key c = (if key = ''Escape'' \<and> ch_inflight c \<noteq> None then interrupt c else c)"

definition chat_unmount :: "chat \<Rightarrow> chat" where
  "chat_unmount c = c\<lparr>ch_stage := Gone, ch_listening := False, ch_timer := False\<rparr>"

section \<open>Steps\<close>

datatype chat_event =
    CQueued json
  | CStatus json
  | CToken json
  | CDone json
  | CContext json
  | CLifecycle string
  | CReply json
  | CRejected
  | CType string
  | CClick string
  | CKey string bool string
  | CEsc string
  | CSendFailed nat string
  | CSendDone nat
  | CUnmount

text \<open>A drawn key is one no earlier message of this view uses.\<close>

definition fresh_key :: "string \<Rightarrow> chat \<Rightarrow> bool" where
  "fresh_key drawn c = (''local_'' @ drawn \<notin> set (ch_sends c) \<union> set (ch_localPending c) \<union> fst ` set (ch_queuedBubbles c))"

fun chat_step :: "chat_event \<Rightarrow> chat \<Rightarrow> chat option" where
  "chat_step (CQueued p) c = (if ch_listening c then Some (on_queued p c) else None)"
| "chat_step (CStatus p) c = (if ch_listening c then Some (on_status p c) else None)"
| "chat_step (CToken p) c = (if ch_listening c then Some (on_token p c) else None)"
| "chat_step (CDone p) c = (if ch_listening c then Some (on_done p c) else None)"
| "chat_step (CContext p) c = (if ch_listening c then Some (on_context p c) else None)"
| "chat_step (CLifecycle st) c = (if ch_listening c then Some (on_lifecycle st c) else None)"
| "chat_step (CReply v) c = (if ch_stage c \<in> {AwaitReflect, AwaitHistory, AwaitStatus} then Some (boot_resume v c) else None)"
| "chat_step CRejected c = (if ch_stage c \<in> {AwaitReflect, AwaitHistory, AwaitStatus} then Some (boot_rejected c) else None)"
| "chat_step (CType t) c = (if ch_stage c \<noteq> Gone then Some (c\<lparr>ch_input := t\<rparr>) else None)"
| "chat_step (CClick drawn) c = (if ch_stage c = Live \<and> fresh_key drawn c then Some (send_click drawn c) else None)"
| "chat_step (CKey key shift drawn) c = (if ch_stage c = Live \<and> fresh_key drawn c then Some (on_key key shift drawn c) else None)"
| "chat_step (CEsc key) c = (if ch_stage c = Live then Some (on_esc key c) else None)"
| "chat_step (CSendFailed i err) c =
     (if i < length (ch_sends c)
      then Some (send_failed (ch_sends c ! i) err (c\<lparr>ch_sends := take i (ch_sends c) @ drop (Suc i) (ch_sends c)\<rparr>)) else None)"
| "chat_step (CSendDone i) c =
     (if i < length (ch_sends c) then Some (c\<lparr>ch_sends := take i (ch_sends c) @ drop (Suc i) (ch_sends c)\<rparr>) else None)"
| "chat_step CUnmount c = (if ch_stage c = Live then Some (chat_unmount c) else None)"

section \<open>The queue on screen is the queue in the maps\<close>

text \<open>
  \<open>in_step qb qo els\<close>: the bubbles on screen, top to bottom, are those of the keys in \<^verbatim>\<open>queuedOrder\<close>, and the
  keys are those of \<^verbatim>\<open>queuedBubbles\<close>, each once.
\<close>

definition in_step :: "(string \<times> nat) list \<Rightarrow> string list \<Rightarrow> nat list \<Rightarrow> bool" where
  "in_step qb qo els =
     (map (map_of qb) qo = map Some els \<and> distinct qo \<and> set qo = fst ` set qb \<and> distinct (map fst qb) \<and> distinct els)"

lemma in_step_Nil [simp]: "in_step [] [] []"
  by (simp add: in_step_def)

lemma in_step_append:
  assumes "in_step qb qo els" "k \<notin> fst ` set qb" "b \<notin> set els"
  shows "in_step (AList.update k b qb) (qo @ [k]) (els @ [b])"
proof -
  have "map ((map_of qb)(k \<mapsto> b)) qo = map (map_of qb) qo" using assms(1,2) by (auto simp: in_step_def)
  then show ?thesis using assms by (auto simp: in_step_def fst_set_update simp del: map_eq_conv)
qed

lemma map_replace_first:
  "distinct qo \<Longrightarrow> k' \<notin> set qo \<Longrightarrow> m k = Some b \<Longrightarrow> k \<in> set qo \<Longrightarrow>
   map (m(k := None, k' := Some b)) (replace_first k k' qo) = map m qo"
proof (induction qo)
  case (Cons z zs)
  show ?case
  proof (cases "z = k")
    case True
    with Cons.prems have "x \<noteq> k \<and> x \<noteq> k'" if "x \<in> set zs" for x using that by auto
    with True Cons.prems show ?thesis by simp
  qed (use Cons in auto)
qed simp

lemma set_replace_first: "distinct qo \<Longrightarrow> k \<in> set qo \<Longrightarrow> set (replace_first k k' qo) = insert k' (set qo - {k})"
  by (induction qo) auto

lemma distinct_replace_first: "distinct qo \<Longrightarrow> k' \<notin> set qo \<Longrightarrow> distinct (replace_first k k' qo)"
proof (induction qo)
  case (Cons z zs)
  have "set (replace_first k k' zs) \<subseteq> insert k' (set zs)" by (induction zs) auto
  with Cons show ?case by auto
qed simp

lemma in_step_rename:
  assumes "in_step qb qo els" "map_of qb k = Some b" "k' \<notin> fst ` set qb"
  shows "in_step (AList.update k' b (AList.delete k qb)) (replace_first k k' qo) els"
proof -
  have k: "k \<in> set qo" using assms(1,2) by (force simp: in_step_def dest: map_of_SomeD)
  have q: "distinct qo" "k' \<notin> set qo" using assms(1,3) by (auto simp: in_step_def)
  have "k \<noteq> k'" using k q by auto
  with assms k q map_replace_first [of qo k' "map_of qb" k b] show ?thesis
    by (simp add: in_step_def set_replace_first distinct_replace_first fst_set_update fst_set_delete)
qed

lemma map_remove1:
  "map m qo = map Some els \<Longrightarrow> distinct qo \<Longrightarrow> distinct els \<Longrightarrow> m k = Some b \<Longrightarrow> k \<in> set qo \<Longrightarrow>
   map (m(k := None)) (remove1 k qo) = map Some (remove1 b els)"
proof (induction qo arbitrary: els)
  case (Cons z zs)
  then obtain e es where els: "els = e # es" "m z = Some e" "map m zs = map Some es" by (cases els) auto
  show ?case
  proof (cases "z = k")
    case True
    with Cons.prems have "x \<noteq> k" if "x \<in> set zs" for x using that by auto
    then have "map (m(k := None)) zs = map m zs" by auto
    with True els Cons.prems show ?thesis by (simp del: fun_upd_apply)
  next
    case False
    with Cons.prems have kz: "k \<in> set zs" by simp
    then have "m k \<in> set (map m zs)" by simp
    with els(3) Cons.prems(4) have "b \<in> set es" by auto
    with els Cons.prems have "e \<noteq> b" by auto
    with els Cons.prems False kz Cons.IH [of es] show ?thesis by simp
  qed
qed simp

lemma in_step_remove:
  assumes "in_step qb qo els" "map_of qb k = Some b"
  shows "in_step (AList.delete k qb) (remove1 k qo) (remove1 b els)"
proof -
  have "k \<in> set qo" using assms by (force simp: in_step_def dest: map_of_SomeD)
  with assms map_remove1 [of "map_of qb" qo els k b] show ?thesis
    by (simp add: in_step_def fst_set_delete set_remove1_eq)
qed

lemma in_step_remove_none:
  assumes "in_step qb qo els" "map_of qb k = None"
  shows "AList.delete k qb = qb" "remove1 k qo = qo"
proof -
  have "k \<notin> fst ` set qb" using assms(2) by (simp add: map_of_eq_None_iff)
  then show "AList.delete k qb = qb" by (simp add: delete_id)
  show "remove1 k qo = qo" using \<open>k \<notin> fst ` set qb\<close> assms(1) by (simp add: in_step_def remove1_idem)
qed

lemma in_step_all_on_screen:
  assumes "in_step qb qo els"
  shows "filter (\<lambda>b. b \<notin> set (map snd qb)) els = []"
proof -
  have "b \<in> set (map snd qb)" if "b \<in> set els" for b
  proof -
    from that have "Some b \<in> set (map (map_of qb) qo)" using assms by (simp add: in_step_def)
    then obtain k where "map_of qb k = Some b" by auto
    then show ?thesis by (force dest: map_of_SomeD)
  qed
  then show ?thesis by (simp add: filter_empty_conv)
qed

text \<open>The invariant of the chat.\<close>

definition booting :: "chat \<Rightarrow> bool" where
  "booting c = (ch_stage c = AwaitReflect \<or> ch_stage c = AwaitHistory \<or> ch_stage c = AwaitStatus)"

definition queue_core :: "chat \<Rightarrow> bool" where
  "queue_core c =
     (in_step (ch_queuedBubbles c) (ch_queuedOrder c) (ch_queuedEl c) \<and> (\<forall>b\<in>set (ch_queuedEl c). b < length (ch_bubbles c)))"

definition queue_inv :: "chat \<Rightarrow> bool" where
  "queue_inv c =
     (in_step (ch_queuedBubbles c) (ch_queuedOrder c) (ch_queuedEl c) \<and> (\<forall>b\<in>set (ch_queuedEl c). b < length (ch_bubbles c)) \<and>
      (booting c \<longrightarrow> ch_queuedBubbles c = [] \<and> ch_localPending c = []))"

definition button_inv :: "chat \<Rightarrow> bool" where
  "button_inv c = (ch_stage c \<noteq> MountFailed \<longrightarrow> ch_stop c = (ch_inflight c \<noteq> None \<or> ch_queuedBubbles c \<noteq> []))"

definition timer_inv :: "chat \<Rightarrow> bool" where
  "timer_inv c = (if ch_stage c = Gone then \<not> ch_timer c \<and> \<not> ch_listening c else ch_timer c = live_phase (ch_phase c))"

lemma setPhase_fields [simp]:
  "ch_queuedBubbles (setPhase p h c) = ch_queuedBubbles c" "ch_queuedOrder (setPhase p h c) = ch_queuedOrder c"
  "ch_queuedEl (setPhase p h c) = ch_queuedEl c" "ch_bubbles (setPhase p h c) = ch_bubbles c" "ch_stage (setPhase p h c) = ch_stage c"
  "ch_localPending (setPhase p h c) = ch_localPending c" "ch_inflight (setPhase p h c) = ch_inflight c" "ch_stop (setPhase p h c) = ch_stop c"
  "ch_listening (setPhase p h c) = ch_listening c"
  "ch_timer (setPhase p h c) = live_phase p" "ch_phase (setPhase p h c) = p" "ch_tools (setPhase p h c) = ch_tools c"
  by (auto simp: setPhase_def Let_def)

lemma refreshBusy_fields [simp]:
  "ch_queuedBubbles (refreshBusy c) = ch_queuedBubbles c" "ch_queuedOrder (refreshBusy c) = ch_queuedOrder c"
  "ch_queuedEl (refreshBusy c) = ch_queuedEl c" "ch_bubbles (refreshBusy c) = ch_bubbles c" "ch_stage (refreshBusy c) = ch_stage c"
  "ch_localPending (refreshBusy c) = ch_localPending c" "ch_inflight (refreshBusy c) = ch_inflight c"
  "ch_stop (refreshBusy c) = (ch_inflight c \<noteq> None \<or> ch_queuedBubbles c \<noteq> [])" "ch_timer (refreshBusy c) = ch_timer c"
  "ch_phase (refreshBusy c) = ch_phase c" "ch_listening (refreshBusy c) = ch_listening c" "ch_tools (refreshBusy c) = ch_tools c"
  by (simp_all add: refreshBusy_def)

lemmas queue_ops = handleToolCall_def makeToolBlock_def append_block_def fillToolReply_def set_text_def addMsg_dialog_def

lemma bind_queue: assumes "queue_inv c" shows "queue_inv (bindNextLocalToSendId i c)"
proof (cases "i = [] \<or> map_of (ch_queuedBubbles c) i \<noteq> None")
  case False
  then have i: "i \<noteq> []" "map_of (ch_queuedBubbles c) i = None" "i \<notin> fst ` set (ch_queuedBubbles c)" by (auto simp: map_of_eq_None_iff)
  show ?thesis
  proof (cases "ch_localPending c")
    case (Cons k ks)
    with assms have nb: "\<not> booting c" by (auto simp: queue_inv_def)
    show ?thesis
    proof (cases "map_of (ch_queuedBubbles c) k")
      case None
      with i Cons assms nb show ?thesis by (simp add: bindNextLocalToSendId_def queue_inv_def booting_def)
    next
      case (Some b)
      with in_step_rename [OF _ Some i(3)] i Cons assms nb show ?thesis
        by (simp add: bindNextLocalToSendId_def queue_inv_def booting_def)
    qed
  qed (use i assms in \<open>simp add: bindNextLocalToSendId_def\<close>)
qed (use assms in \<open>auto simp: bindNextLocalToSendId_def\<close>)

lemma bind_fields [simp]:
  "ch_inflight (bindNextLocalToSendId i c) = ch_inflight c" "ch_stop (bindNextLocalToSendId i c) = ch_stop c"
  "ch_stage (bindNextLocalToSendId i c) = ch_stage c" "ch_timer (bindNextLocalToSendId i c) = ch_timer c"
  "ch_phase (bindNextLocalToSendId i c) = ch_phase c" "ch_listening (bindNextLocalToSendId i c) = ch_listening c"
  "ch_bubbles (bindNextLocalToSendId i c) = ch_bubbles c" "ch_dialog (bindNextLocalToSendId i c) = ch_dialog c"
  by (auto simp: bindNextLocalToSendId_def Let_def split: list.split option.split)

lemma bind_nonempty: "ch_queuedBubbles (bindNextLocalToSendId i c) = [] \<longleftrightarrow> ch_queuedBubbles c = []"
proof -
  have "AList.update k v m \<noteq> []" for k :: string and v :: nat and m by (cases m) auto
  then show ?thesis by (auto simp: bindNextLocalToSendId_def Let_def split: list.splits option.splits)
qed

lemma promote_queue: assumes "queue_inv c" shows "queue_inv (promoteToInflight i fb c)"
proof -
  let ?c = "if map_of (ch_queuedBubbles c) i = None \<and> ch_localPending c \<noteq> [] then bindNextLocalToSendId i c else c"
  have q: "queue_inv ?c" using assms bind_queue by simp
  show ?thesis
  proof (cases "map_of (ch_queuedBubbles ?c) i")
    case None
    then show ?thesis using q
      by (auto simp: promoteToInflight_def addMsg_dialog_def Let_def queue_inv_def booting_def split: if_splits)
  next
    case (Some b)
    have "x < Suc (length (ch_bubbles ?c))" if "x \<in> set (remove1 b (ch_queuedEl ?c))" for x
      using q subsetD [OF set_remove1_subset that] less_SucI unfolding queue_inv_def by blast
    moreover have "\<not> booting ?c" using q Some by (auto simp: queue_inv_def)
    ultimately show ?thesis using q in_step_remove [OF _ Some] Some
      by (auto simp: promoteToInflight_def addMsg_dialog_def Let_def queue_inv_def booting_def split: if_splits)
  qed
qed

lemma promote_fields [simp]:
  "ch_stage (promoteToInflight i fb c) = ch_stage c" "ch_timer (promoteToInflight i fb c) = ch_timer c"
  "ch_phase (promoteToInflight i fb c) = ch_phase c" "ch_listening (promoteToInflight i fb c) = ch_listening c"
  "ch_stop (promoteToInflight i fb c) = (ch_inflight (promoteToInflight i fb c) \<noteq> None \<or> ch_queuedBubbles (promoteToInflight i fb c) \<noteq> [])"
  by (auto simp: promoteToInflight_def addMsg_dialog_def Let_def case_prod_unfold split: option.split)

definition chat_inv :: "chat \<Rightarrow> bool" where
  "chat_inv c = (queue_inv c \<and> button_inv c \<and> timer_inv c)"

text \<open>Operations that leave the queue, the button and the clock alone.\<close>

definition same_footer :: "chat \<Rightarrow> chat \<Rightarrow> bool" where
  "same_footer c c' =
     (ch_queuedBubbles c' = ch_queuedBubbles c \<and> ch_queuedOrder c' = ch_queuedOrder c \<and> ch_queuedEl c' = ch_queuedEl c \<and>
      length (ch_bubbles c) \<le> length (ch_bubbles c') \<and> ch_stage c' = ch_stage c \<and> ch_localPending c' = ch_localPending c \<and>
      (ch_inflight c' = None) = (ch_inflight c = None) \<and> ch_stop c' = ch_stop c \<and> ch_timer c' = ch_timer c \<and> ch_phase c' = ch_phase c \<and>
      ch_listening c' = ch_listening c)"

lemma same_footer_inv: "same_footer c c' \<Longrightarrow> chat_inv c \<Longrightarrow> chat_inv c'"
  by (auto simp: same_footer_def chat_inv_def queue_inv_def button_inv_def timer_inv_def booting_def)

lemma same_footer_trans: "same_footer a b \<Longrightarrow> same_footer b c \<Longrightarrow> same_footer a c"
  by (auto simp: same_footer_def)

lemma tool_footer: "same_footer c (handleToolCall tool c)"
  by (auto simp: same_footer_def queue_ops Let_def case_prod_unfold split: option.split)

lemma token_footer: "same_footer c (on_token p c)"
  by (auto simp: same_footer_def on_token_def set_text_def Let_def split: option.split)

lemma addMsg_footer: "same_footer c (fst (addMsg_dialog r t c))"
  by (auto simp: same_footer_def addMsg_dialog_def Let_def)

lemma interrupt_footer: "same_footer c (interrupt c)"
  by (simp add: same_footer_def interrupt_def ch_do_def)

lemma setPhase_inv: "chat_inv c \<Longrightarrow> ch_stage c \<noteq> Gone \<Longrightarrow> chat_inv (setPhase p h c)"
  by (auto simp: chat_inv_def queue_inv_def button_inv_def timer_inv_def booting_def)

lemma bind_inv: "chat_inv c \<Longrightarrow> chat_inv (bindNextLocalToSendId i c)"
  using bind_queue [of c i] by (auto simp: chat_inv_def button_inv_def timer_inv_def bind_nonempty)

lemma promote_inv: "chat_inv c \<Longrightarrow> chat_inv (promoteToInflight i fb c)"
  using promote_queue [of c i fb] by (simp add: chat_inv_def button_inv_def timer_inv_def)

lemma refreshBusy_inv: "chat_inv c \<Longrightarrow> queue_inv c' \<Longrightarrow> ch_stage c' = ch_stage c \<Longrightarrow> ch_timer c' = ch_timer c \<Longrightarrow>
  ch_phase c' = ch_phase c \<Longrightarrow> ch_listening c' = ch_listening c \<Longrightarrow> chat_inv (refreshBusy c')"
  by (auto simp: chat_inv_def button_inv_def timer_inv_def queue_inv_def booting_def)

lemma refreshBusy_self: "chat_inv c \<Longrightarrow> chat_inv (refreshBusy c)"
  by (rule refreshBusy_inv) (simp_all add: chat_inv_def)

lemma listening_inv:
  assumes "chat_inv c" "ch_listening c"
  shows "chat_inv (on_queued p c)" "chat_inv (on_status p c)" "chat_inv (on_token p c)" "chat_inv (on_done p c)"
    "chat_inv (on_context p c)" "chat_inv (on_lifecycle st c)"
proof -
  have g: "ch_stage c \<noteq> Gone" using assms by (auto simp: chat_inv_def timer_inv_def)
  have g': "same_footer c c' \<Longrightarrow> ch_stage c' \<noteq> Gone" for c' using g by (simp add: same_footer_def)
  show "chat_inv (on_queued p c)" using assms bind_inv by (simp add: on_queued_def)
  show "chat_inv (on_token p c)" using assms token_footer same_footer_inv by blast
  have q: "queue_inv (c\<lparr>ch_inflight := None\<rparr>)" using assms by (simp add: chat_inv_def queue_inv_def booting_def)
  show "chat_inv (on_done p c)" using assms refreshBusy_inv [OF assms(1) q] by (simp add: on_done_def)
  have "chat_inv (handleToolCall tool c)" "ch_stage (handleToolCall tool c) \<noteq> Gone" for tool
    using same_footer_inv [OF tool_footer assms(1)] g' [OF tool_footer] by simp_all
  then show "chat_inv (on_status p c)"
    using assms g bind_inv promote_inv setPhase_inv by (simp add: on_status_def Let_def)
  have q': "queue_inv (c\<lparr>ch_inflight := None, ch_queuedEl := filter (\<lambda>b. b \<notin> set (map snd (ch_queuedBubbles c))) (ch_queuedEl c),
      ch_queuedBubbles := [], ch_queuedOrder := [], ch_localPending := []\<rparr>)"
    using assms(1) in_step_all_on_screen [of "ch_queuedBubbles c" "ch_queuedOrder c" "ch_queuedEl c"]
    by (simp add: chat_inv_def queue_inv_def)
  show "chat_inv (on_lifecycle st c)"
    using refreshBusy_inv [OF assms(1) q'] setPhase_inv assms g by (simp add: on_lifecycle_def)
  let ?n = "fst (addMsg_dialog ''notice'' (''context too small '' @ em_dash @ '' '' @ dict_s (dict_obj p ''detail'') ''hint'') c)"
  let ?b = "length (ch_bubbles c)"
  have "same_footer c (?n\<lparr>ch_bubbles := (ch_bubbles ?n)[?b := (ch_bubbles ?n ! ?b)\<lparr>bb_mark := Some ''too-small''\<rparr>]\<rparr>)"
    by (simp add: same_footer_def addMsg_dialog_def Let_def)
  from setPhase_inv [OF same_footer_inv [OF this assms(1)] g' [OF this], of "''idle''" "''context too small''"]
  have "chat_inv (refreshBusy (setPhase ''idle'' ''context too small''
      (?n\<lparr>ch_bubbles := (ch_bubbles ?n)[?b := (ch_bubbles ?n ! ?b)\<lparr>bb_mark := Some ''too-small''\<rparr>]\<rparr>)))"
    by (rule refreshBusy_self)
  then show "chat_inv (on_context p c)"
    using same_footer_inv [OF addMsg_footer assms(1)] assms(1) by (simp add: on_context_def Let_def addMsg_dialog_def)
qed

text \<open>Restoring the queue of the host's snapshot, whose messages have distinct ids.\<close>

definition ids_of :: "json list \<Rightarrow> string list" where
  "ids_of es = map (\<lambda>e. dict_s e ''send_id'') es"

lemma restore_pending_queue:
  "restore_pending es c = (c', ok) \<Longrightarrow> queue_core c \<Longrightarrow> distinct (ids_of es) \<Longrightarrow>
   set (ids_of es) \<inter> fst ` set (ch_queuedBubbles c) = {} \<Longrightarrow>
   queue_core c' \<and> ch_stage c' = ch_stage c \<and> ch_timer c' = ch_timer c \<and> ch_phase c' = ch_phase c \<and> ch_listening c' = ch_listening c"
proof (induction es arbitrary: c)
  case (Cons e es)
  show ?case
  proof (cases "e = JNull")
    case False
    let ?i = "dict_s e ''send_id''" and ?b = "length (ch_bubbles c)"
    let ?c = "(fst (addMsg_queued (dict_s e ''text'') c))\<lparr>ch_queuedBubbles := AList.update ?i ?b (ch_queuedBubbles c),
       ch_queuedOrder := ch_queuedOrder c @ [?i]\<rparr>"
    have "?b \<notin> set (ch_queuedEl c)" "?i \<notin> fst ` set (ch_queuedBubbles c)"
      using Cons.prems by (auto simp: queue_core_def ids_of_def)
    then have q: "queue_core ?c"
      using Cons.prems(2) in_step_append [of _ _ _ ?i ?b]
      by (auto simp: queue_core_def addMsg_queued_def Let_def)
    have "restore_pending es ?c = (c', ok)" using Cons.prems(1) False by (simp add: addMsg_queued_def Let_def)
    moreover have "set (ids_of es) \<inter> fst ` set (ch_queuedBubbles ?c) = {}" "distinct (ids_of es)"
      using Cons.prems by (auto simp: fst_set_update ids_of_def addMsg_queued_def Let_def)
    ultimately show ?thesis using Cons.IH [of ?c] q by (simp add: addMsg_queued_def Let_def)
  qed (use Cons.prems in auto)
qed simp

lemma replay_footer: "replay ms c = (c', ok) \<Longrightarrow> same_footer c c'"
proof (induction ms arbitrary: c)
  case (Cons m ms)
  show ?case
  proof (cases "m = JNull")
    case False
    with Cons.prems Cons.IH show ?thesis by (auto intro: same_footer_trans [OF addMsg_footer])
  qed (use Cons.prems in \<open>simp add: same_footer_def\<close>)
qed (simp add: same_footer_def)

lemma restore_current_fields:
  "ch_queuedBubbles (restore_current cur c) = ch_queuedBubbles c" "ch_queuedOrder (restore_current cur c) = ch_queuedOrder c"
  "ch_queuedEl (restore_current cur c) = ch_queuedEl c" "ch_stage (restore_current cur c) = ch_stage c"
  "ch_listening (restore_current cur c) = ch_listening c" "ch_localPending (restore_current cur c) = ch_localPending c"
  by (simp_all add: restore_current_def addMsg_dialog_def makeToolBlock_def append_block_def fillToolReply_def Let_def)

lemma restore_current_timer:
  "ch_timer c = live_phase (ch_phase c) \<Longrightarrow> ch_timer (restore_current cur c) = live_phase (ch_phase (restore_current cur c))"
  by (simp add: restore_current_def Let_def case_prod_unfold)

definition distinct_pending :: "chat_event \<Rightarrow> bool" where
  "distinct_pending e = (case e of CReply v \<Rightarrow> distinct (ids_of (dict_list v ''mine_pending'')) | _ \<Rightarrow> True)"

lemma booting_empty:
  assumes "chat_inv c" "booting c"
  shows "ch_queuedBubbles c = []" "ch_localPending c = []" "ch_queuedOrder c = []" "ch_queuedEl c = []"
    "ch_timer c = live_phase (ch_phase c)"
  using assms by (auto simp: chat_inv_def queue_inv_def in_step_def timer_inv_def booting_def)

lemma mount_failed_inv:
  assumes "chat_inv c" "booting c" "same_footer c c'"
  shows "chat_inv (c'\<lparr>ch_stage := MountFailed\<rparr>)"
  using assms(3) booting_empty [OF assms(1,2)]
  by (simp add: chat_inv_def queue_inv_def button_inv_def timer_inv_def booting_def same_footer_def)

lemma boot_inv:
  assumes "chat_inv c" "booting c" "distinct (ids_of (dict_list v ''mine_pending''))"
  shows "chat_inv (boot_resume v c)"
proof -
  note e = booting_empty(1-4) [OF assms(1,2)] and ti = booting_empty(5) [OF assms(1,2)]
  note failed = mount_failed_inv [OF assms(1,2)]
  have [simp]: "same_footer c c" by (simp add: same_footer_def)
  consider "ch_stage c = AwaitReflect" | "ch_stage c = AwaitHistory" | "ch_stage c = AwaitStatus" using assms(2) by (auto simp: booting_def)
  then show ?thesis
  proof cases
    case 1
    then show ?thesis using assms(1) e failed [of c]
      by (simp add: boot_resume_def boot_reflect_def chat_ask_def ch_do_def chat_inv_def queue_inv_def button_inv_def timer_inv_def
          booting_def live_phase_def)
  next
    case 2
    obtain c' ok where r: "replay (dict_list v ''messages'') c = (c', ok)" by fastforce
    note s = replay_footer [OF r]
    have "chat_inv (chat_ask ''status'' (c'\<lparr>ch_stage := AwaitStatus\<rparr>))"
      using s e ti assms(1) 2
      by (simp add: same_footer_def chat_ask_def ch_do_def chat_inv_def queue_inv_def button_inv_def timer_inv_def booting_def)
    with 2 r failed [OF s] failed [of c] show ?thesis by (simp add: boot_resume_def boot_history_def split: bool.split)
  next
    case 3
    let ?c = "restore_current (dict_obj v ''current'') (setOthersHint (num_or_0 (dict_num v ''others_pending'')) c)"
    obtain c' ok where r: "restore_pending (dict_list v ''mine_pending'') ?c = (c', ok)" by fastforce
    have o: "ch_queuedBubbles (setOthersHint n c) = ch_queuedBubbles c" "ch_queuedOrder (setOthersHint n c) = ch_queuedOrder c"
      "ch_queuedEl (setOthersHint n c) = ch_queuedEl c" "ch_timer (setOthersHint n c) = ch_timer c" "ch_phase (setOthersHint n c) = ch_phase c" for n
      by (simp_all add: setOthersHint_def)
    have "queue_core ?c" "ch_queuedBubbles ?c = []" using e o by (simp_all add: queue_core_def restore_current_fields)
    with restore_pending_queue [OF r _ assms(3)] restore_current_timer ti o
    have c': "queue_core c'" "ch_timer c' = live_phase (ch_phase c')" by auto
    then have "chat_inv (refreshBusy c'\<lparr>ch_stage := Live\<rparr>)" "chat_inv (c'\<lparr>ch_stage := MountFailed\<rparr>)"
      by (simp_all add: chat_inv_def queue_inv_def queue_core_def button_inv_def timer_inv_def booting_def)
    moreover have "chat_inv (c\<lparr>ch_stage := Live\<rparr>)"
      using assms(1) 3 e ti by (simp add: chat_inv_def queue_inv_def button_inv_def timer_inv_def booting_def)
    ultimately show ?thesis using 3 r by (simp add: boot_resume_def boot_status_def Let_def split: bool.split)
  qed
qed

lemma submit_inv:
  assumes "chat_inv c" "ch_stage c = Live" "fresh_key drawn c"
  shows "chat_inv (submit drawn c)"
proof (cases "js_trim (ch_input c) = []")
  case False
  let ?k = "''local_'' @ drawn" and ?b = "length (ch_bubbles c)" and ?t = "js_trim (ch_input c)"
  let ?c = "(fst (addMsg_queued ?t (c\<lparr>ch_input := []\<rparr>)))\<lparr>ch_queuedBubbles := AList.update ?k ?b (ch_queuedBubbles c),
    ch_queuedOrder := ch_queuedOrder c @ [?k], ch_localPending := ch_localPending c @ [?k], ch_sends := ch_sends c @ [?k]\<rparr>"
  have "?k \<notin> fst ` set (ch_queuedBubbles c)" "?b \<notin> set (ch_queuedEl c)"
    using assms by (auto simp: fresh_key_def chat_inv_def queue_inv_def)
  then have "queue_inv ?c" using assms(1,2) in_step_append [of _ _ _ ?k ?b]
    by (auto simp: chat_inv_def queue_inv_def addMsg_queued_def Let_def booting_def)
  then have "chat_inv (refreshBusy ?c)" by (rule refreshBusy_inv [OF assms(1)]) (simp_all add: addMsg_queued_def Let_def)
  moreover have "submit drawn c = ch_do [ChatCall [(''type'', JStr ''send''), (''text'', JStr ?t), (''client_id'', JStr (ch_clientId c))]]
      (refreshBusy ?c)"
    using False by (simp add: submit_def addMsg_queued_def Let_def)
  ultimately show ?thesis using same_footer_inv [of "refreshBusy ?c"] by (simp add: same_footer_def ch_do_def)
qed (use assms in \<open>simp add: submit_def\<close>)

lemma send_failed_inv:
  assumes "chat_inv c"
  shows "chat_inv (send_failed k err c)"
proof -
  let ?n = "fst (addMsg_dialog ''assistant'' (''ERROR: '' @ err) c)"
  let ?c = "?n\<lparr>ch_queuedEl := (case map_of (ch_queuedBubbles c) k of Some b \<Rightarrow> remove1 b (ch_queuedEl c) | None \<Rightarrow> ch_queuedEl c),
     ch_queuedBubbles := AList.delete k (ch_queuedBubbles c), ch_queuedOrder := remove1 k (ch_queuedOrder c),
     ch_localPending := remove1 k (ch_localPending c)\<rparr>"
  have i: "in_step (ch_queuedBubbles c) (ch_queuedOrder c) (ch_queuedEl c)" using assms by (simp add: chat_inv_def queue_inv_def)
  have "queue_inv ?c"
  proof (cases "map_of (ch_queuedBubbles c) k")
    case None
    with in_step_remove_none [OF i None] assms show ?thesis
      by (auto simp: chat_inv_def queue_inv_def addMsg_dialog_def Let_def booting_def)
  next
    case (Some b)
    have "x < Suc (length (ch_bubbles c))" if "x \<in> set (remove1 b (ch_queuedEl c))" for x
      using assms subsetD [OF set_remove1_subset that] less_SucI unfolding chat_inv_def queue_inv_def by blast
    with in_step_remove [OF i Some] Some assms show ?thesis
      by (auto simp: chat_inv_def queue_inv_def addMsg_dialog_def Let_def booting_def)
  qed
  then have "chat_inv (refreshBusy ?c)" by (rule refreshBusy_inv [OF assms]) (simp_all add: addMsg_dialog_def Let_def)
  then show ?thesis by (simp add: send_failed_def addMsg_dialog_def Let_def cong: option.case_cong)
qed

interpretation chat: step_invariant chat_step distinct_pending chat_inv
proof unfold_locales
  fix c e c'
  assume inv: "chat_inv c" and adm: "distinct_pending e" and st: "chat_step e c = Some c'"
  have sends: "chat_inv (c\<lparr>ch_sends := ss\<rparr>)" "chat_inv (c\<lparr>ch_input := t\<rparr>)" for ss t
    using same_footer_inv [OF _ inv] by (simp_all add: same_footer_def)
  note [simp] = listening_inv [OF inv] send_failed_inv [OF sends(1)] submit_inv [OF inv] same_footer_inv [OF interrupt_footer inv]
  show "chat_inv c'"
  proof (cases e)
    case (CReply v)
    with st adm boot_inv [OF inv] show ?thesis by (auto simp: distinct_pending_def booting_def split: if_splits)
  next
    case CRejected
    with st have "booting c" "c' = c\<lparr>ch_stage := MountFailed\<rparr>" by (auto simp: booting_def boot_rejected_def split: if_splits)
    with mount_failed_inv [OF inv, of c] show ?thesis by (simp add: same_footer_def)
  next
    case CUnmount
    with st inv show ?thesis
      by (auto simp: chat_unmount_def chat_inv_def queue_inv_def button_inv_def timer_inv_def booting_def split: if_splits)
  qed (use st inv sends in \<open>auto simp: send_click_def on_key_def on_esc_def split: if_splits\<close>)
qed

lemma chat_mount_inv: "chat_inv (chat_mount backend stored drawn)"
  by (simp add: chat_mount_def chat_inv_def queue_inv_def button_inv_def timer_inv_def live_phase_def Let_def)

text \<open>
  C33: the chat shows its queue. Along every run of the chat view (with a host that gives the messages waiting in its
  snapshot distinct ids), the bubbles waiting below the dialog are, top to bottom, exactly those of the keys in
  \<^verbatim>\<open>queuedOrder\<close>, no key and no bubble occurring twice; the button says stop exactly while something is in flight or
  waiting; and the clock runs exactly in the live phases, never after the view is unmounted.
\<close>
theorem chat_queue_shown:
  assumes "run_events chat_step es (chat_mount backend stored drawn) = Some c" "list_all distinct_pending es"
  shows "map (map_of (ch_queuedBubbles c)) (ch_queuedOrder c) = map Some (ch_queuedEl c) \<and>
    distinct (ch_queuedOrder c) \<and> distinct (ch_queuedEl c) \<and> set (ch_queuedOrder c) = fst ` set (ch_queuedBubbles c) \<and>
    (ch_stage c \<noteq> MountFailed \<longrightarrow> ch_stop c = (ch_inflight c \<noteq> None \<or> ch_queuedEl c \<noteq> [])) \<and>
    ch_timer c = (ch_stage c \<noteq> Gone \<and> live_phase (ch_phase c))"
proof -
  have inv: "chat_inv c" using chat.run_inv [OF assms(1) chat_mount_inv assms(2)] .
  then have "(ch_queuedBubbles c = []) = (ch_queuedEl c = [])"
    by (auto simp: chat_inv_def queue_inv_def in_step_def)
  with inv show ?thesis
    by (auto simp: chat_inv_def queue_inv_def in_step_def button_inv_def timer_inv_def split: if_splits)
qed

definition chat_boot :: "chat_event list" where
  "chat_boot =
     [CReply (JObj [(''model'', JStr ''m'')]), CReply (JObj []),
      CReply (JObj [(''mine_pending'', JArr [JObj [(''send_id'', JStr ''s0''), (''text'', JStr ''first'')]])])]"

definition chat_talk :: "chat_event list" where
  "chat_talk = chat_boot @ [CType '' hello '', CClick ''a'', CType ''again'', CKey ''Enter'' False ''b'',
     CQueued (JObj [(''send_id'', JStr ''s1'')])]"

theorem chat_queue_shown_witness:
  "\<exists>c. run_events chat_step chat_talk (chat_mount ''llm'' None ''x'') = Some c \<and>
     map (map_of (ch_queuedBubbles c)) (ch_queuedOrder c) = map Some (ch_queuedEl c) \<and>
     ch_queuedOrder c = [''s0'', ''s1'', ''local_b''] \<and> ch_stop c"
proof -
  have ex: "case run_events chat_step chat_talk (chat_mount ''llm'' None ''x'') of
      Some c \<Rightarrow> ch_queuedOrder c = [''s0'', ''s1'', ''local_b''] \<and> ch_queuedEl c \<noteq> [] \<and> ch_stage c = Live | None \<Rightarrow> False"
    by code_simp
  then obtain c where c: "run_events chat_step chat_talk (chat_mount ''llm'' None ''x'') = Some c"
    "ch_queuedOrder c = [''s0'', ''s1'', ''local_b'']" "ch_queuedEl c \<noteq> []" "ch_stage c = Live"
    by (auto split: option.splits)
  have "list_all distinct_pending chat_talk" by code_simp
  from chat_queue_shown [OF c(1) this] c show ?thesis by simp
qed

section \<open>Where the chat goes wrong\<close>

text \<open>
  A token erases the tool blocks. Whenever a token arrives while a reply is in flight, the bubble of the reply
  loses every tool block it shows, although the view keeps their handles and goes on filling in their replies.
\<close>
theorem token_erases_tool_blocks:
  assumes "ch_inflight c = Some f" "mine p c" "if_assistant f < length (ch_bubbles c)"
  shows "bb_blocks (ch_bubbles (on_token p c) ! if_assistant f) = [] \<and>
    (\<exists>f'. ch_inflight (on_token p c) = Some f' \<and> if_toolBlocks f' = if_toolBlocks f) \<and>
    ch_tools (on_token p c) = ch_tools c"
  using assms by (simp add: on_token_def set_text_def Let_def)

theorem token_erases_tool_blocks_witness:
  "\<exists>c. run_events chat_step
     (chat_boot @ [CStatus (JObj [(''phase'', JStr ''thinking''), (''detail'', JObj [(''send_id'', JStr ''s0'')])]),
      CStatus (JObj [(''phase'', JStr ''tool_calling''), (''detail'', JObj [(''tool'', JObj [(''call_id'', JStr ''t'')])])])])
     (chat_mount ''llm'' None ''x'') = Some c \<and>
     bb_blocks (ch_bubbles c ! 1) = [0] \<and> bb_blocks (ch_bubbles (on_token (JObj [(''text'', JStr ''hi'')]) c) ! 1) = []"
  (is "\<exists>c. run_events chat_step ?es ?c0 = Some c \<and> _ \<and> _")
proof -
  have "case run_events chat_step ?es ?c0 of
      Some c \<Rightarrow> bb_blocks (ch_bubbles c ! 1) = [0] \<and> map_option if_assistant (ch_inflight c) = Some 1 \<and> 1 < length (ch_bubbles c) \<and>
        mine (JObj [(''text'', JStr ''hi'')]) c
    | None \<Rightarrow> False"
    by code_simp
  then obtain c f where c: "run_events chat_step ?es ?c0 = Some c" "bb_blocks (ch_bubbles c ! 1) = [0]" "ch_inflight c = Some f"
    "if_assistant f = 1" "1 < length (ch_bubbles c)" "mine (JObj [(''text'', JStr ''hi'')]) c"
    by (auto split: option.splits)
  with token_erases_tool_blocks [OF c(3) c(6)] show ?thesis by simp
qed

text \<open>
  A send that fails after the host has already given it an id is reported, but its bubble stays in the queue and the
  button keeps saying stop: the handler looks for the local key, which no longer exists. (A click on that button
  submits the input instead of interrupting, since nothing is in flight.)
\<close>

lemma failed_send_stays_queued:
  "case run_events chat_step
     [CReply (JObj []), CReply (JObj []), CReply (JObj []), CType ''hello'', CClick ''a'',
      CQueued (JObj [(''send_id'', JStr ''s1'')]), CSendFailed 0 ''boom''] (chat_mount ''llm'' None ''x'') of
     Some c \<Rightarrow> ch_queuedOrder c = [''s1''] \<and> ch_queuedEl c = [0] \<and> ch_stop c \<and> ch_inflight c = None
   | None \<Rightarrow> False"
  by code_simp

text \<open>
  A chat whose boot is rejected while it waits for the history goes on listening to its backend, without an input that works
  and without a handle to unmount it with.
\<close>

lemma rejected_boot_keeps_listening:
  "case run_events chat_step [CReply (JObj [(''model'', JStr ''m'')]), CRejected] (chat_mount ''llm'' None ''x'') of
     Some c \<Rightarrow> ch_listening c \<and> chat_step CUnmount c = None \<and> chat_step (CClick ''a'') c = None \<and> chat_step (CToken JNull) c \<noteq> None
   | None \<Rightarrow> False"
  by (simp add: chat_mount_def boot_resume_def boot_reflect_def boot_rejected_def chat_ask_def ch_do_def setPhase_def Let_def)

end
