(* ===== verification/Canvas_View.thy ===== *)
theory Canvas_View
  imports Complex_Main Steps
begin

text \<open>
  Zoom and pan of the canvas: the \<^verbatim>\<open>view\<close> object of \<^verbatim>\<open>ts/src/bundles/canvas/canvas.ts\<close> and the handlers that move it.
  Coordinates are exact rationals; the rounding of floating-point arithmetic is not modelled.
\<close>

section \<open>State and operations\<close>

record view_state =
  vw_z :: rat
  vw_ox :: rat
  vw_oy :: rat
  vw_target :: rat

definition ZOOM_MIN :: rat where "ZOOM_MIN = 1 / 10"

definition ZOOM_MAX :: rat where "ZOOM_MAX = 5"

definition ZOOM_LERP :: rat where "ZOOM_LERP = 72 / 100"

definition init_view :: view_state where
  "init_view = \<lparr>vw_z = 1, vw_ox = 0, vw_oy = 0, vw_target = 1\<rparr>"

definition next_zoom :: "view_state \<Rightarrow> rat" where
  "next_zoom v =
     (let nextZ = vw_z v + (vw_target v - vw_z v) * ZOOM_LERP
      in if \<bar>vw_target v - nextZ\<bar> < 5 / 10000 then vw_target v else nextZ)"

text \<open>One animation frame in a window of size \<open>w\<close> by \<open>h\<close>.\<close>

definition tick :: "rat \<Rightarrow> rat \<Rightarrow> view_state \<Rightarrow> view_state" where
  "tick w h v =
     (if vw_z v \<noteq> vw_target v then
        (let cx = w / 2; cy = h / 2; nextZ = next_zoom v; ratio = nextZ / vw_z v
         in v\<lparr>vw_ox := cx - (cx - vw_ox v) * ratio, vw_oy := cy - (cy - vw_oy v) * ratio, vw_z := nextZ\<rparr>)
      else v)"

definition wheel :: "rat \<Rightarrow> view_state \<Rightarrow> view_state" where
  "wheel deltaY v =
     (let factor = (if deltaY > 0 then 95 / 100 else 105 / 100)
      in v\<lparr>vw_target := max ZOOM_MIN (min ZOOM_MAX (vw_target v * factor))\<rparr>)"

definition pan_to :: "rat \<Rightarrow> rat \<Rightarrow> view_state \<Rightarrow> view_state" where
  "pan_to ox oy v = v\<lparr>vw_ox := ox, vw_oy := oy\<rparr>"

text \<open>The world point under a point of the screen, the canvas element starting at \<open>(rl, rt)\<close>.\<close>

definition screenToWorld :: "rat \<Rightarrow> rat \<Rightarrow> rat \<Rightarrow> rat \<Rightarrow> view_state \<Rightarrow> rat \<times> rat" where
  "screenToWorld rl rt x y v = ((x - rl - vw_ox v) / vw_z v, (y - rt - vw_oy v) / vw_z v)"

section \<open>Bounds and convergence\<close>

definition view_ok :: "view_state \<Rightarrow> bool" where
  "view_ok v = (ZOOM_MIN \<le> vw_z v \<and> vw_z v \<le> ZOOM_MAX \<and> ZOOM_MIN \<le> vw_target v \<and> vw_target v \<le> ZOOM_MAX)"

lemmas zoom_consts = ZOOM_MIN_def ZOOM_MAX_def ZOOM_LERP_def

lemma next_zoom_cases:
  "next_zoom v = (if 28 / 100 * \<bar>vw_target v - vw_z v\<bar> < 5 / 10000 then vw_target v else 28 / 100 * vw_z v + 72 / 100 * vw_target v)"
proof -
  have "vw_z v + (vw_target v - vw_z v) * ZOOM_LERP = 28 / 100 * vw_z v + 72 / 100 * vw_target v"
    by (simp add: ZOOM_LERP_def field_simps)
  moreover have "vw_target v - (28 / 100 * vw_z v + 72 / 100 * vw_target v) = 28 / 100 * (vw_target v - vw_z v)" by simp
  ultimately have "next_zoom v = (if \<bar>28 / 100 * (vw_target v - vw_z v)\<bar> < 5 / 10000 then vw_target v else 28 / 100 * vw_z v + 72 / 100 * vw_target v)"
    by (simp only: next_zoom_def Let_def)
  moreover have "\<bar>28 / 100 * (vw_target v - vw_z v)\<bar> = 28 / 100 * \<bar>vw_target v - vw_z v\<bar>" by (simp only: abs_mult abs_numeral abs_divide)
  ultimately show ?thesis by (simp only:)
qed

lemma tick_z: "vw_z (tick w h v) = (if vw_z v = vw_target v then vw_z v else next_zoom v)"
  by (simp add: tick_def Let_def)

lemma tick_target [simp]: "vw_target (tick w h v) = vw_target v"
  by (simp add: tick_def Let_def)

lemma next_zoom_ok: "view_ok v \<Longrightarrow> ZOOM_MIN \<le> next_zoom v \<and> next_zoom v \<le> ZOOM_MAX"
  by (auto simp: view_ok_def next_zoom_cases zoom_consts)

lemma tick_ok: "view_ok v \<Longrightarrow> view_ok (tick w h v)"
  using next_zoom_ok [of v] by (auto simp: view_ok_def tick_z)

lemma wheel_ok: "view_ok v \<Longrightarrow> view_ok (wheel d v)"
  by (auto simp: view_ok_def wheel_def Let_def zoom_consts)

lemma pan_ok: "view_ok (pan_to x y v) = view_ok v"
  by (simp add: view_ok_def pan_to_def)

lemma init_view_ok: "view_ok init_view"
  by (simp add: init_view_def view_ok_def zoom_consts)

lemma tick_closer: "\<bar>vw_target v - vw_z (tick w h v)\<bar> \<le> 28 / 100 * \<bar>vw_target v - vw_z v\<bar>"
proof -
  have "vw_target v - (28 / 100 * vw_z v + 72 / 100 * vw_target v) = 28 / 100 * (vw_target v - vw_z v)" by simp
  then show ?thesis by (simp only: tick_z next_zoom_cases abs_mult split: if_splits) simp
qed

lemma tick_lands: "\<bar>vw_target v - vw_z v\<bar> < 1 / 1000 \<Longrightarrow> vw_z (tick w h v) = vw_target v"
  by (simp add: tick_z next_zoom_cases)

lemma ticks_closer: "\<bar>vw_target v - vw_z ((tick w h ^^ n) v)\<bar> \<le> (28 / 100) ^ n * \<bar>vw_target v - vw_z v\<bar> \<and>
  vw_target ((tick w h ^^ n) v) = vw_target v"
proof (induction n)
  case (Suc n)
  then show ?case using tick_closer [of "(tick w h ^^ n) v" w h] by simp
qed simp

lemma tick_centre:
  assumes "view_ok v"
  shows "screenToWorld 0 0 (w / 2) (h / 2) (tick w h v) = screenToWorld 0 0 (w / 2) (h / 2) v"
proof -
  have "vw_z v > 0" "next_zoom v > 0"
    using assms next_zoom_ok [OF assms] by (auto simp: view_ok_def zoom_consts)
  then show ?thesis by (simp add: screenToWorld_def tick_def Let_def)
qed

lemma ticks_ok: "view_ok v \<Longrightarrow> view_ok ((tick w h ^^ n) v)"
  by (induction n) (simp_all add: tick_ok)

lemma ticks_centre: "view_ok v \<Longrightarrow> screenToWorld 0 0 (w / 2) (h / 2) ((tick w h ^^ n) v) = screenToWorld 0 0 (w / 2) (h / 2) v"
  by (induction n) (simp_all add: tick_centre ticks_ok)

lemma zoom_arrives:
  assumes "view_ok v"
  shows "vw_z ((tick w h ^^ 10) v) = vw_target v"
proof -
  let ?v = "(tick w h ^^ 9) v"
  have "\<bar>vw_target v - vw_z v\<bar> \<le> 49 / 10" using assms by (auto simp: view_ok_def zoom_consts abs_if)
  then have "(28 / 100 :: rat) ^ 9 * \<bar>vw_target v - vw_z v\<bar> \<le> (28 / 100) ^ 9 * (49 / 10)" by (intro mult_left_mono) simp_all
  also have "\<dots> < 1 / 1000" by (simp add: power_divide)
  finally have "\<bar>vw_target ?v - vw_z ?v\<bar> < 1 / 1000" using ticks_closer [where n = 9 and v = v and w = w and h = h] by simp
  from tick_lands [OF this, of w h] have "vw_z (tick w h ?v) = vw_target v"
    using ticks_closer [where n = 9 and v = v and w = w and h = h] by simp
  moreover have "(tick w h ^^ Suc 9) v = tick w h ?v" by (simp only: funpow.simps comp_apply)
  moreover have "Suc 9 = (10 :: nat)" by simp
  ultimately show ?thesis by metis
qed



end
