(* ===== verification/Gl_Host.thy ===== *)
theory Gl_Host
  imports Content_Agents Steps
begin

text \<open>
  The WebGL host of a canvas: \<^verbatim>\<open>ts/src/bundles/canvas/gl_host.ts\<close>. Groups of the shared scene, frame callbacks,
  cleanup functions and bus listeners are tokens. Running a member's source is a parameter: it throws, or it
  leaves the frame callbacks and the cleanup functions it has registered (\<open>source_run\<close>). What the host asks of the kernel
  (\<^verbatim>\<open>host.on\<close>, \<^verbatim>\<open>host.unwatch\<close>, \<^verbatim>\<open>fetchSource\<close>) and the calls of tokens are recorded in order in \<open>gl_out\<close>. The camera
  is in \<open>Gl_Camera\<close>; the renderer is left out: neither has an effect on the views.
\<close>

section \<open>State\<close>

record gl_view =
  gv_group :: nat
  gv_cleanup :: "nat list"

datatype gl_effect =
    RunCleanup nat
  | RunFrameCb nat
  | BusHandler nat payload
  | HostOn string
  | HostUnwatch string
  | FetchSource string

type_synonym source_run = "string \<Rightarrow> (nat list \<times> nat list) option"

record gl_host =
  gl_views :: "(string \<times> gl_view) list"
  gl_frameCbs :: "(string \<times> nat list) list"
  gl_scene :: "nat list"
  gl_nextGroup :: nat
  gl_bus :: "(string \<times> nat list) list"
  gl_fetching :: "string list"
  gl_alive :: bool
  gl_out :: "gl_effect list"

definition createGlHost :: gl_host where
  "createGlHost = \<lparr>gl_views = [], gl_frameCbs = [], gl_scene = [], gl_nextGroup = 0, gl_bus = [], gl_fetching = [],
     gl_alive = True, gl_out = []\<rparr>"

definition gl_do :: "gl_effect list \<Rightarrow> gl_host \<Rightarrow> gl_host" where
  "gl_do es g = g\<lparr>gl_out := gl_out g @ es\<rparr>"

definition hasView :: "string \<Rightarrow> gl_host \<Rightarrow> bool" where
  "hasView i g = (map_of (gl_views g) i \<noteq> None)"

section \<open>The bus of the sources\<close>

definition gl_bus_broadcast :: "payload \<Rightarrow> gl_host \<Rightarrow> gl_host" where
  "gl_bus_broadcast d g =
     (case map_of d ''type'' of
        Some (JStr ty) \<Rightarrow>
          (if ty = [] then g
           else case map_of (gl_bus g) ty of
             None \<Rightarrow> g
           | Some ls \<Rightarrow> gl_do (map (\<lambda>l. BusHandler l d) ls) g)
      | _ \<Rightarrow> g)"

definition gl_bus_on :: "string \<Rightarrow> nat \<Rightarrow> gl_host \<Rightarrow> gl_host" where
  "gl_bus_on ty h g =
     g\<lparr>gl_bus := AList.update ty (set_add h (case map_of (gl_bus g) ty of Some ls \<Rightarrow> ls | None \<Rightarrow> [])) (gl_bus g)\<rparr>"

definition gl_bus_off :: "string \<Rightarrow> nat \<Rightarrow> gl_host \<Rightarrow> gl_host" where
  "gl_bus_off ty h g =
     (case map_of (gl_bus g) ty of
        None \<Rightarrow> g
      | Some ls \<Rightarrow> g\<lparr>gl_bus := AList.update ty (set_del h ls) (gl_bus g)\<rparr>)"

section \<open>Views\<close>

text \<open>\<^verbatim>\<open>mountSource\<close>; a source that throws leaves neither a group nor a callback table behind.\<close>

definition mountSource :: "source_run \<Rightarrow> string \<Rightarrow> string \<Rightarrow> gl_host \<Rightarrow> gl_host \<times> bool" where
  "mountSource run i source g =
     (let grp = gl_nextGroup g;
          g1 = g\<lparr>gl_nextGroup := Suc grp, gl_scene := gl_scene g @ [grp], gl_frameCbs := AList.update i [] (gl_frameCbs g)\<rparr>
      in case run source of
           Some (cbs, cleanup) \<Rightarrow>
             (g1\<lparr>gl_frameCbs := AList.update i (fold set_add cbs []) (gl_frameCbs g1),
                 gl_views := AList.update i \<lparr>gv_group = grp, gv_cleanup = cleanup\<rparr> (gl_views g1)\<rparr>, True)
         | None \<Rightarrow> (g1\<lparr>gl_scene := remove1 grp (gl_scene g1), gl_frameCbs := AList.delete i (gl_frameCbs g1)\<rparr>, False))"

definition teardown :: "string \<Rightarrow> gl_host \<Rightarrow> gl_host" where
  "teardown i g =
     (case map_of (gl_views g) i of
        None \<Rightarrow> g
      | Some entry \<Rightarrow>
          gl_do (map RunCleanup (gv_cleanup entry))
            (g\<lparr>gl_scene := remove1 (gv_group entry) (gl_scene g), gl_views := AList.delete i (gl_views g),
               gl_frameCbs := AList.delete i (gl_frameCbs g)\<rparr>))"

text \<open>A view is a reply of \<^verbatim>\<open>get_gl_view\<close>; only a non-empty source text counts.\<close>

definition gl_source_of :: "json \<Rightarrow> string option" where
  "gl_source_of gv =
     (case gv of
        JObj ms \<Rightarrow> (case map_of ms ''source'' of Some (JStr s) \<Rightarrow> (if s = [] then None else Some s) | _ \<Rightarrow> None)
      | _ \<Rightarrow> None)"

definition installView :: "source_run \<Rightarrow> string \<Rightarrow> json \<Rightarrow> gl_host \<Rightarrow> gl_host" where
  "installView run i gv g =
     (if hasView i g then g
      else case gl_source_of gv of
        None \<Rightarrow> g
      | Some s \<Rightarrow> (let (g1, ok) = mountSource run i s g in if ok then gl_do [HostOn i] g1 else g1))"

text \<open>\<^verbatim>\<open>updateView\<close> up to its \<^verbatim>\<open>await\<close>, and after the source has been fetched.\<close>

definition updateView :: "string \<Rightarrow> gl_host \<Rightarrow> gl_host" where
  "updateView i g =
     (if \<not> hasView i g then g else gl_do [FetchSource i] (g\<lparr>gl_fetching := gl_fetching g @ [i]\<rparr>))"

definition updateView_fetched :: "source_run \<Rightarrow> string \<Rightarrow> json \<Rightarrow> gl_host \<Rightarrow> gl_host" where
  "updateView_fetched run i gv g =
     (case gl_source_of gv of None \<Rightarrow> g | Some s \<Rightarrow> fst (mountSource run i s (teardown i g)))"

definition removeView :: "string \<Rightarrow> gl_host \<Rightarrow> gl_host" where
  "removeView i g = (if \<not> hasView i g then g else gl_do [HostUnwatch i] (teardown i g))"

definition prune :: "string list \<Rightarrow> gl_host \<Rightarrow> gl_host" where
  "prune keeps g =
     fold (\<lambda>i g. if i \<in> set keeps then g else gl_do [HostUnwatch i] (teardown i g)) (map fst (gl_views g)) g"

definition gl_dispose :: "gl_host \<Rightarrow> gl_host" where
  "gl_dispose g = (fold teardown (map fst (gl_views g)) g)\<lparr>gl_alive := False\<rparr>"

text \<open>One animation frame: every callback of every table, in order.\<close>

definition gl_frame :: "gl_host \<Rightarrow> gl_host" where
  "gl_frame g = gl_do (map RunFrameCb (concat (map snd (gl_frameCbs g)))) g"

text \<open>A source may also register a callback later; only the table of a live view is ever drawn from.\<close>

definition gl_onFrame :: "nat \<Rightarrow> nat \<Rightarrow> gl_host \<Rightarrow> gl_host" where
  "gl_onFrame grp cb g =
     (case find (\<lambda>(i, v). gv_group v = grp) (gl_views g) of
        None \<Rightarrow> g
      | Some (i, _) \<Rightarrow>
          g\<lparr>gl_frameCbs := AList.update i (set_add cb (case map_of (gl_frameCbs g) i of Some cs \<Rightarrow> cs | None \<Rightarrow> [])) (gl_frameCbs g)\<rparr>)"

section \<open>Steps\<close>

datatype gl_event =
    GInstall string json
  | GSourceChanged string
  | GFetched nat json
  | GRemove string
  | GPrune "string list"
  | GFrame
  | GOnFrame nat nat
  | GBusOn string nat
  | GBusOff string nat
  | GBusBroadcast payload
  | GDispose

fun gl_step :: "source_run \<Rightarrow> gl_event \<Rightarrow> gl_host \<Rightarrow> gl_host option" where
  "gl_step run (GInstall i gv) g = Some (installView run i gv g)"
| "gl_step run (GSourceChanged i) g = Some (updateView i g)"
| "gl_step run (GFetched n gv) g =
     (if n < length (gl_fetching g)
      then Some (updateView_fetched run (gl_fetching g ! n) gv
        (g\<lparr>gl_fetching := take n (gl_fetching g) @ drop (Suc n) (gl_fetching g)\<rparr>)) else None)"
| "gl_step run (GRemove i) g = Some (removeView i g)"
| "gl_step run (GPrune keeps) g = Some (prune keeps g)"
| "gl_step run GFrame g = (if gl_alive g then Some (gl_frame g) else None)"
| "gl_step run (GOnFrame grp cb) g = Some (gl_onFrame grp cb g)"
| "gl_step run (GBusOn ty h) g = Some (gl_bus_on ty h g)"
| "gl_step run (GBusOff ty h) g = Some (gl_bus_off ty h g)"
| "gl_step run (GBusBroadcast d) g = Some (gl_bus_broadcast d g)"
| "gl_step run GDispose g = (if gl_alive g then Some (gl_dispose g) else None)"

section \<open>The scene is what the views say\<close>

definition gl_inv :: "gl_host \<Rightarrow> bool" where
  "gl_inv g =
     (distinct (map fst (gl_views g)) \<and> mset (gl_scene g) = mset (map (gv_group \<circ> snd) (gl_views g)) \<and> distinct (gl_scene g) \<and>
      (\<forall>x\<in>set (gl_scene g). x < gl_nextGroup g) \<and>
      distinct (map fst (gl_frameCbs g)) \<and> fst ` set (gl_frameCbs g) = fst ` set (gl_views g))"

lemma gl_do_sel [simp]:
  "gl_views (gl_do es g) = gl_views g" "gl_scene (gl_do es g) = gl_scene g" "gl_frameCbs (gl_do es g) = gl_frameCbs g"
  "gl_nextGroup (gl_do es g) = gl_nextGroup g" "gl_inv (gl_do es g) = gl_inv g" "gl_out (gl_do es g) = gl_out g @ es"
  by (simp_all add: gl_do_def gl_inv_def)

lemma gl_inv_upd [simp]:
  "gl_inv (g\<lparr>gl_alive := b\<rparr>) = gl_inv g" "gl_inv (g\<lparr>gl_bus := bs\<rparr>) = gl_inv g" "gl_inv (g\<lparr>gl_fetching := fs\<rparr>) = gl_inv g"
  by (simp_all add: gl_inv_def)

lemma teardown_inv: assumes "gl_inv g" shows "gl_inv (teardown i g)"
proof (cases "map_of (gl_views g) i")
  case (Some v)
  have "mset (remove1 (gv_group v) (gl_scene g)) = mset (map (gv_group \<circ> snd) (AList.delete i (gl_views g)))"
    using assms mset_map_delete [of "gl_views g" i v gv_group] Some by (simp add: gl_inv_def)
  moreover have "\<forall>x\<in>set (remove1 (gv_group v) (gl_scene g)). x < gl_nextGroup g"
    using assms set_remove1_subset [of "gv_group v" "gl_scene g"] by (auto simp: gl_inv_def)
  ultimately show ?thesis using assms Some by (simp add: teardown_def) (simp add: gl_inv_def fst_set_delete)
qed (use assms in \<open>simp add: teardown_def\<close>)

lemma teardown_gone: "\<not> hasView i (teardown i g)"
  by (auto simp: hasView_def teardown_def split: option.split)

lemma mountSource_inv: assumes "gl_inv g" "\<not> hasView i g" shows "gl_inv (fst (mountSource run i s g))"
proof -
  let ?n = "gl_nextGroup g"
  have n: "?n \<notin> set (gl_scene g)" using assms(1) by (auto simp: gl_inv_def)
  have i: "i \<notin> fst ` set (gl_views g)" "i \<notin> fst ` set (gl_frameCbs g)"
    using assms by (auto simp: gl_inv_def hasView_def map_of_eq_None_iff)
  show ?thesis
  proof (cases "run s")
    case None
    have "remove1 ?n (gl_scene g @ [?n]) = gl_scene g" using n by (simp add: remove1_append)
    with None assms(1) i show ?thesis
      by (auto simp: mountSource_def Let_def gl_inv_def fst_set_update fst_set_delete less_SucI)
  next
    case (Some p)
    with n i assms(1) show ?thesis
      by (cases p) (auto simp: mountSource_def Let_def gl_inv_def fst_set_update update_fresh less_SucI)
  qed
qed

lemma fold_inv: "(\<And>i g. gl_inv g \<Longrightarrow> gl_inv (f i g)) \<Longrightarrow> gl_inv g \<Longrightarrow> gl_inv (fold f is g)"
  by (induction "is" arbitrary: g) simp_all

interpretation gl: step_invariant "gl_step run" "\<lambda>_. True" gl_inv for run
proof unfold_locales
  fix g e g' assume inv: "gl_inv g" and st: "gl_step run e g = Some g'"
  show "gl_inv g'"
  proof (cases e)
    case (GInstall i gv)
    with st inv mountSource_inv [OF inv] show ?thesis
      by (auto simp: installView_def case_prod_unfold Let_def split: option.split)
  next
    case (GFetched n gv)
    let ?g = "g\<lparr>gl_fetching := take n (gl_fetching g) @ drop (Suc n) (gl_fetching g)\<rparr>"
    have "gl_inv ?g" using inv by simp
    with mountSource_inv [OF teardown_inv teardown_gone] GFetched st show ?thesis
      by (auto simp: updateView_fetched_def split: if_splits option.splits)
  next
    case (GPrune keeps)
    with st inv show ?thesis by (auto simp: prune_def teardown_inv intro!: fold_inv)
  next
    case GDispose
    have "gl_inv (fold teardown (map fst (gl_views g)) g)" by (rule fold_inv [OF teardown_inv inv])
    with GDispose st show ?thesis by (auto simp: gl_dispose_def split: if_splits)
  next
    case (GOnFrame grp cb)
    show ?thesis
    proof (cases "find (\<lambda>(i, v). gv_group v = grp) (gl_views g)")
      case (Some p)
      then have "p \<in> set (gl_views g)" by (metis (no_types, lifting) find_Some_iff nth_mem)
      then have "fst p \<in> fst ` set (gl_views g)" by simp
      moreover have "g' = gl_onFrame grp cb g" using GOnFrame st by simp
      ultimately show ?thesis using Some inv
        by (cases p) (simp add: gl_onFrame_def gl_inv_def fst_set_update insert_absorb)
    qed (use GOnFrame st inv in \<open>simp add: gl_onFrame_def\<close>)
  next
    case (GBusBroadcast d)
    with st inv show ?thesis by (auto simp: gl_bus_broadcast_def split: option.splits json.splits if_splits)
  qed (use st inv in \<open>auto simp: updateView_def removeView_def gl_frame_def gl_bus_on_def gl_bus_off_def teardown_inv
      split: if_splits option.splits\<close>)
qed


definition sample_run :: source_run where
  "sample_run s = (if s = ''throw'' then None else Some ([length s], [0]))"

definition gl_reply :: "string \<Rightarrow> json" where
  "gl_reply s = JObj [(''source'', JStr s)]"

definition sample_gl :: "gl_event list" where
  "sample_gl = [GInstall ''a'' (gl_reply ''x''), GInstall ''b'' (gl_reply ''throw''), GSourceChanged ''a'',
     GInstall ''c'' (gl_reply ''yy''), GFetched 0 (gl_reply ''zzz''), GPrune [''a'']]"


section \<open>Where the host goes wrong\<close>

text \<open>
  A view removed while its new source is being fetched comes back: the continuation of \<^verbatim>\<open>updateView\<close> does not look
  again whether the view still exists. Nothing watches its agent any more.
\<close>

lemma fetched_after_removal_reappears:
  "case run_events (gl_step sample_run)
     [GInstall ''a'' (gl_reply ''x''), GSourceChanged ''a'', GRemove ''a'', GFetched 0 (gl_reply ''x'')] createGlHost of
     Some g \<Rightarrow> hasView ''a'' g \<and> gl_out g = [HostOn ''a'', FetchSource ''a'', RunCleanup 0, HostUnwatch ''a'']
   | None \<Rightarrow> False"
  by code_simp

text \<open>A view that is pruned and installed again listens twice: nothing removes the first listener.\<close>

lemma reinstalled_view_listens_twice:
  "case run_events (gl_step sample_run) [GInstall ''a'' (gl_reply ''x''), GPrune [], GInstall ''a'' (gl_reply ''x'')] createGlHost of
     Some g \<Rightarrow> filter (\<lambda>e. e = HostOn ''a'') (gl_out g) = [HostOn ''a'', HostOn ''a''] | None \<Rightarrow> False"
  by code_simp

text \<open>
  The event a content agent publishes when its source is set is not the one the host waits for, so the listener installed by
  \<^verbatim>\<open>installView\<close> never fetches the new source.
\<close>

lemma set_gl_source_not_heard: "\<not> host_hears ''gl_source_changed'' reload_html"
  by (simp add: host_hears_def reload_html_def)

end
