(* ===== verification/Canvas.thy ===== *)
theory Canvas
  imports Canvas_View Gl_Host
begin

text \<open>
  The canvas compositor: \<^verbatim>\<open>mountCanvas\<close> of \<^verbatim>\<open>ts/src/bundles/canvas/canvas.ts\<close>. Frame elements and mounted views live in stores
  and are named by address. \<^verbatim>\<open>refresh\<close> is a coroutine: it runs until it has to wait (for a view to mount, for the
  answers to a probe, for the GL host) and is then kept, with its loop variables, in \<open>cv_runs\<close>; several may wait at once.
  The kernel is the model of theory \<open>Kernel\<close>; every state event it publishes starts a refresh at the moment it is published.
  The views themselves (theories \<open>Terminal_View\<close>, \<open>Ai_View\<close>, \<open>Html_View\<close>) are tokens here: a mount is a request that is
  answered by a step. Calls to other agents are recorded in \<open>cv_out\<close>; titles, styles and the scaffold of the page are left out.
\<close>

section \<open>Records and choices\<close>

definition rec_num :: "payload \<Rightarrow> string \<Rightarrow> int option" where
  "rec_num r k = (case map_of r k of Some (JNum n) \<Rightarrow> Some n | _ \<Rightarrow> None)"

definition rec_str :: "payload \<Rightarrow> string \<Rightarrow> string option" where
  "rec_str r k = as_string (map_of r k)"

definition rec_bool :: "payload \<Rightarrow> string \<Rightarrow> bool" where
  "rec_bool r k = (map_of r k = Some (JBool True))"

datatype view_bundle = TerminalViewB | AiViewB | HtmlViewB

definition handles :: "view_bundle \<Rightarrow> string list" where
  "handles b = (case b of TerminalViewB \<Rightarrow> [''terminal_view.ts''] | AiViewB \<Rightarrow> [''ai_view.ts''] | HtmlViewB \<Rightarrow> [''html_agent.ts''])"

definition VIEW_BUNDLES :: "view_bundle list" where
  "VIEW_BUNDLES = [TerminalViewB, AiViewB, HtmlViewB]"

definition viewFor :: "json option \<Rightarrow> view_bundle option" where
  "viewFor hm = (case hm of Some (JStr s) \<Rightarrow> find (\<lambda>b. s \<in> set (handles b)) VIEW_BUNDLES | _ \<Rightarrow> None)"

text \<open>
  \<^verbatim>\<open>PTY_HINT\<close>: one of the two words, at the start or after one of the separators, at the end or before a dot or an underscore,
  whatever the case of the letters.
\<close>

definition word_then_end :: "string \<Rightarrow> string \<Rightarrow> bool" where
  "word_then_end w s =
     (take (length w) s = w \<and> (case drop (length w) s of [] \<Rightarrow> True | c # _ \<Rightarrow> c = CHR ''.'' \<or> c = CHR ''_''))"

definition hint_here :: "string \<Rightarrow> bool" where
  "hint_here s = (word_then_end ''terminal_backend'' s \<or> word_then_end ''pty'' s)"

fun hint_after :: "string \<Rightarrow> bool" where
  "hint_after [] = False"
| "hint_after (c # cs) = ((c \<in> set ''._/-'' \<and> hint_here cs) \<or> hint_after cs)"

definition PTY_HINT :: "string \<Rightarrow> bool" where
  "PTY_HINT s = (let l = map to_lower s in hint_here l \<or> hint_after l)"

section \<open>State\<close>

datatype reload_action =
    NoReload
  | Remount nat view_bundle string
  | EmitReload

record frame_el =
  el_rec :: payload
  el_left :: rat
  el_top :: rat
  el_width :: rat
  el_height :: rat
  el_locked :: bool
  el_src :: "string option"
  el_reload :: reload_action
  el_chips :: "(nat \<times> nat) list"

record frame =
  fr_el :: nat
  fr_rec :: payload
  fr_inline :: bool
  fr_handle :: "nat option"

datatype mount_state = Mounting | Up | Down

record mounted =
  mv_agent :: string
  mv_backend :: string
  mv_el :: nat
  mv_bundle :: view_bundle
  mv_state :: mount_state

datatype waiting =
    MountWait nat payload view_bundle
  | ProbeWait payload
  | GlWait payload json "nat option"

record refresh_run =
  rr_wait :: waiting
  rr_rest :: "payload list"
  rr_idx :: int
  rr_dom :: "string list"
  rr_gl :: "string list"

datatype gesture =
    Panning rat rat rat rat bool
  | Dragging nat rat rat rat rat
  | Resizing nat rat rat rat rat

datatype spawn_stage = AwaitCatalog | AwaitCreated

datatype cv_effect =
    CvCall string payload
  | CvCallHost string payload
  | CvEmit string payload
  | CvUnmount nat
  | CvChip nat nat

record canvas =
  cv_kernel :: "bundle_fn kernel"
  cv_selfId :: string
  cv_view :: view_state
  cv_gestures :: "gesture list"
  cv_els :: "frame_el list"
  cv_world :: "nat list"
  cv_frames :: "(string \<times> frame) list"
  cv_mounts :: "mounted list"
  cv_remounts :: "nat list"
  cv_gls :: "gl_host list"
  cv_glHost :: "nat option"
  cv_runs :: "refresh_run list"
  cv_started :: nat
  cv_spawns :: "(spawn_stage \<times> rat \<times> rat) list"
  cv_status :: "nat \<times> nat"
  cv_out :: "cv_effect list"

definition cv_do :: "cv_effect list \<Rightarrow> canvas \<Rightarrow> canvas" where
  "cv_do es c = c\<lparr>cv_out := cv_out c @ es\<rparr>"

definition drop_at :: "nat \<Rightarrow> 'a list \<Rightarrow> 'a list" where
  "drop_at i xs = take i xs @ drop (Suc i) xs"

section \<open>Frames\<close>

definition rectFromRec :: "payload \<Rightarrow> int \<Rightarrow> int \<Rightarrow> int \<Rightarrow> int \<times> int \<times> int \<times> int" where
  "rectFromRec r defW defH idx =
     ((case rec_num r ''x'' of Some x \<Rightarrow> x | None \<Rightarrow> 40 + (idx mod 4) * 360),
      (case rec_num r ''y'' of Some y \<Rightarrow> y | None \<Rightarrow> 40 + (idx div 4) * 280),
      (case rec_num r ''width'' of Some w \<Rightarrow> w | None \<Rightarrow> defW),
      (case rec_num r ''height'' of Some h \<Rightarrow> h | None \<Rightarrow> defH))"

text \<open>\<^verbatim>\<open>makeShell\<close>: the new element is the last of the world; its address is the second result.\<close>

definition makeShell :: "payload \<Rightarrow> int \<times> int \<times> int \<times> int \<Rightarrow> reload_action \<Rightarrow> canvas \<Rightarrow> canvas \<times> nat" where
  "makeShell r rect onReload c =
     (let e = length (cv_els c); (x, y, w, h) = rect in
      (c\<lparr>cv_els := cv_els c @ [\<lparr>el_rec = r, el_left = of_int x, el_top = of_int y, el_width = of_int w, el_height = of_int h,
           el_locked = rec_bool r ''delete_lock'', el_src = None, el_reload = onReload, el_chips = []\<rparr>],
         cv_world := cv_world c @ [e]\<rparr>, e))"

definition backend_of :: "payload \<Rightarrow> string" where
  "backend_of r = (case rec_str r ''backend_id'' of Some b \<Rightarrow> b | None \<Rightarrow> rec_id r)"

definition start_mount :: "payload \<Rightarrow> view_bundle \<Rightarrow> nat \<Rightarrow> canvas \<Rightarrow> canvas \<times> nat" where
  "start_mount r b e c =
     (c\<lparr>cv_mounts := cv_mounts c @ [\<lparr>mv_agent = rec_id r, mv_backend = backend_of r, mv_el = e, mv_bundle = b, mv_state = Mounting\<rparr>]\<rparr>,
      length (cv_mounts c))"

text \<open>\<^verbatim>\<open>mountInline\<close> up to its \<^verbatim>\<open>await\<close>, and after the view has mounted with \<open>buttons\<close> header buttons.\<close>

definition mountInline :: "payload \<Rightarrow> view_bundle \<Rightarrow> int \<Rightarrow> canvas \<Rightarrow> canvas \<times> nat" where
  "mountInline r b idx c =
     (let (c1, e) = makeShell r (rectFromRec r 480 320 idx) NoReload c in start_mount r b e c1)"

definition set_el :: "nat \<Rightarrow> (frame_el \<Rightarrow> frame_el) \<Rightarrow> canvas \<Rightarrow> canvas" where
  "set_el e f c = c\<lparr>cv_els := (cv_els c)[e := f (cv_els c ! e)]\<rparr>"

definition set_mount :: "nat \<Rightarrow> mount_state \<Rightarrow> canvas \<Rightarrow> canvas" where
  "set_mount v st c = c\<lparr>cv_mounts := (cv_mounts c)[v := (cv_mounts c ! v)\<lparr>mv_state := st\<rparr>]\<rparr>"

definition mountInline_done :: "nat \<Rightarrow> payload \<Rightarrow> view_bundle \<Rightarrow> nat \<Rightarrow> canvas \<Rightarrow> canvas" where
  "mountInline_done v r b buttons c =
     (let e = mv_el (cv_mounts c ! v);
          c1 = set_mount v Up c;
          c2 = c1\<lparr>cv_frames := AList.update (rec_id r) \<lparr>fr_el = e, fr_rec = r, fr_inline = True, fr_handle = Some v\<rparr> (cv_frames c1)\<rparr>
      in set_el e (\<lambda>x. x\<lparr>el_reload := Remount v b (rec_id r), el_chips := map (\<lambda>n. (v, n)) (rev [0..<buttons])\<rparr>) c2)"

definition wa_num :: "payload \<Rightarrow> string \<Rightarrow> int \<Rightarrow> int" where
  "wa_num wa k d = (case rec_num wa k of Some n \<Rightarrow> n | None \<Rightarrow> d)"

definition mountIframe :: "payload \<Rightarrow> payload \<Rightarrow> string \<Rightarrow> int \<Rightarrow> canvas \<Rightarrow> canvas" where
  "mountIframe r wa url idx c =
     (let (c1, e) = makeShell r (rectFromRec r (wa_num wa ''default_width'' 340) (wa_num wa ''default_height'' 240) idx) EmitReload c;
          c2 = set_el e (\<lambda>x. x\<lparr>el_src := Some url\<rparr>) c1
      in c2\<lparr>cv_frames := AList.update (rec_id r) \<lparr>fr_el = e, fr_rec = r, fr_inline = False, fr_handle = None\<rparr> (cv_frames c2)\<rparr>)"

definition unmount_view :: "nat \<Rightarrow> canvas \<Rightarrow> canvas" where
  "unmount_view v c = cv_do [CvUnmount v] (set_mount v Down c)"

definition removeFrame :: "string \<Rightarrow> canvas \<Rightarrow> canvas" where
  "removeFrame aid c =
     (case map_of (cv_frames c) aid of
        None \<Rightarrow> c
      | Some f \<Rightarrow>
          (let c1 = (if fr_inline f then (case fr_handle f of Some v \<Rightarrow> unmount_view v c | None \<Rightarrow> c) else c)
           in c1\<lparr>cv_world := remove1 (fr_el f) (cv_world c1), cv_frames := AList.delete aid (cv_frames c1)\<rparr>))"

definition applyRectFromRec :: "payload \<Rightarrow> frame_el \<Rightarrow> frame_el" where
  "applyRectFromRec r e =
     (let e1 = (case rec_num r ''x'' of
                  Some x \<Rightarrow> e\<lparr>el_left := of_int x, el_top := of_int (case rec_num r ''y'' of Some y \<Rightarrow> y | None \<Rightarrow> 0)\<rparr>
                | None \<Rightarrow> e);
          e2 = (case rec_num r ''width'' of Some w \<Rightarrow> e1\<lparr>el_width := of_int w\<rparr> | None \<Rightarrow> e1)
      in case rec_num r ''height'' of Some h \<Rightarrow> e2\<lparr>el_height := of_int h\<rparr> | None \<Rightarrow> e2)"

section \<open>Refresh\<close>

definition gl_has :: "string \<Rightarrow> canvas \<Rightarrow> bool" where
  "gl_has i c = (case cv_glHost c of None \<Rightarrow> False | Some g \<Rightarrow> hasView i (cv_gls c ! g))"

definition set_gl :: "nat \<Rightarrow> (gl_host \<Rightarrow> gl_host) \<Rightarrow> canvas \<Rightarrow> canvas" where
  "set_gl g f c = c\<lparr>cv_gls := (cv_gls c)[g := f (cv_gls c ! g)]\<rparr>"

definition cv_members :: "'h kernel \<Rightarrow> payload list" where
  "cv_members k =
     (case rootId k of
        None \<Rightarrow> []
      | Some r \<Rightarrow> (case get_agent k r of None \<Rightarrow> [] | Some a \<Rightarrow> map (\<lambda>(_, ad). record_of (store k ! ad)) (children a)))"

text \<open>The end of a refresh: frames and views of what is no longer a member go.\<close>

definition refresh_end :: "string list \<Rightarrow> string list \<Rightarrow> canvas \<Rightarrow> canvas" where
  "refresh_end seen gls c =
     (let c1 = fold (\<lambda>aid c. if aid \<in> set seen then c else removeFrame aid c) (map fst (cv_frames c)) c;
          c2 = (case cv_glHost c1 of None \<Rightarrow> c1 | Some g \<Rightarrow> set_gl g (prune gls) c1)
      in c2\<lparr>cv_status := (length (cv_frames c2), (case cv_glHost c2 of None \<Rightarrow> 0 | Some _ \<Rightarrow> length gls))\<rparr>)"

definition suspend :: "waiting \<Rightarrow> payload list \<Rightarrow> int \<Rightarrow> string list \<Rightarrow> string list \<Rightarrow> canvas \<Rightarrow> canvas" where
  "suspend w rest idx seen gls c =
     c\<lparr>cv_runs := cv_runs c @ [\<lparr>rr_wait = w, rr_rest = rest, rr_idx = idx, rr_dom = seen, rr_gl = gls\<rparr>]\<rparr>"

fun refresh_loop :: "payload list \<Rightarrow> int \<Rightarrow> string list \<Rightarrow> string list \<Rightarrow> canvas \<Rightarrow> canvas" where
  "refresh_loop [] idx seen gls c = refresh_end seen gls c"
| "refresh_loop (r # rest) idx seen gls c =
     (let mid = rec_id r in
      case map_of (cv_frames c) mid of
        Some f \<Rightarrow>
          refresh_loop rest (idx + 1) (set_add mid seen) (if gl_has mid c then set_add mid gls else gls)
            (set_el (fr_el f) (applyRectFromRec r) (c\<lparr>cv_frames := AList.update mid (f\<lparr>fr_rec := r\<rparr>) (cv_frames c)\<rparr>))
      | None \<Rightarrow>
          (case viewFor (map_of r ''handler_module'') of
             Some b \<Rightarrow> (let (c1, v) = mountInline r b idx c in suspend (MountWait v r b) rest idx seen gls c1)
           | None \<Rightarrow>
               suspend (ProbeWait r) rest idx seen gls
                 (cv_do [CvCall (backend_of r) [(''type'', JStr ''get_webapp'')], CvCall (backend_of r) [(''type'', JStr ''get_gl_view'')]] c)))"

definition refresh :: "canvas \<Rightarrow> canvas" where
  "refresh c = refresh_loop (cv_members (cv_kernel c)) 0 [] [] (c\<lparr>cv_started := Suc (cv_started c)\<rparr>)"

text \<open>The continuations.\<close>

definition webapp_url :: "json \<Rightarrow> string option" where
  "webapp_url wa =
     (case wa of JObj ms \<Rightarrow> (if map_of ms ''error'' = None then as_string (map_of ms ''url'') else None) | _ \<Rightarrow> None)"

definition json_members :: "json \<Rightarrow> payload" where
  "json_members v = (case v of JObj ms \<Rightarrow> ms | _ \<Rightarrow> [])"

definition resume_mounted :: "refresh_run \<Rightarrow> nat \<Rightarrow> canvas \<Rightarrow> canvas option" where
  "resume_mounted rr buttons c =
     (case rr_wait rr of
        MountWait v r b \<Rightarrow>
          Some (refresh_loop (rr_rest rr) (rr_idx rr + 1) (set_add (rec_id r) (rr_dom rr)) (rr_gl rr) (mountInline_done v r b buttons c))
      | _ \<Rightarrow> None)"

definition resume_probed :: "refresh_run \<Rightarrow> json \<Rightarrow> json \<Rightarrow> canvas \<Rightarrow> canvas option" where
  "resume_probed rr wa gv c =
     (case rr_wait rr of
        ProbeWait r \<Rightarrow>
          (let (c1, idx, seen) = (case webapp_url wa of
                 Some url \<Rightarrow> (mountIframe r (json_members wa) url (rr_idx rr) c, rr_idx rr + 1, set_add (rec_id r) (rr_dom rr))
               | None \<Rightarrow> (c, rr_idx rr, rr_dom rr))
           in Some (if gl_source_of gv \<noteq> None then suspend (GlWait r gv (cv_glHost c1)) (rr_rest rr) idx seen (rr_gl rr) c1
                    else refresh_loop (rr_rest rr) idx seen (rr_gl rr) c1))
      | _ \<Rightarrow> None)"

text \<open>\<^verbatim>\<open>ensureGlHost\<close> makes a host if there was none (\<open>had\<close>) when it was called.\<close>

definition ensureGlHost :: "nat option \<Rightarrow> canvas \<Rightarrow> canvas \<times> nat" where
  "ensureGlHost had c =
     (case had of
        Some g \<Rightarrow> (c, g)
      | None \<Rightarrow> (c\<lparr>cv_gls := cv_gls c @ [createGlHost], cv_glHost := Some (length (cv_gls c))\<rparr>, length (cv_gls c)))"

definition resume_gl :: "source_run \<Rightarrow> refresh_run \<Rightarrow> canvas \<Rightarrow> canvas option" where
  "resume_gl run rr c =
     (case rr_wait rr of
        GlWait r gv had \<Rightarrow>
          (let (c1, g) = ensureGlHost had c;
               mid = rec_id r;
               c2 = (if \<not> hasView mid (cv_gls c1 ! g) then set_gl g (installView run mid gv) c1 else c1)
           in Some (refresh_loop (rr_rest rr) (rr_idx rr) (rr_dom rr) (set_add mid (rr_gl rr)) c2))
      | _ \<Rightarrow> None)"

section \<open>Changing the tree\<close>

text \<open>A state event is published: the canvas is told.\<close>

definition cv_updateMeta :: "string \<Rightarrow> payload \<Rightarrow> canvas \<Rightarrow> canvas" where
  "cv_updateMeta aid patch c =
     (case updateMeta aid patch (cv_kernel c) of
        (k, None) \<Rightarrow> c\<lparr>cv_kernel := k\<rparr>
      | (k, Some _) \<Rightarrow> refresh (c\<lparr>cv_kernel := k\<rparr>))"

text \<open>\<^verbatim>\<open>kernel.remove\<close> with the canvas as a subscriber: it is told after each agent of the cascade is detached.\<close>

fun cv_removes :: "nat \<Rightarrow> string list \<Rightarrow> canvas \<Rightarrow> canvas option" where
  "cv_removes n [] c = Some c"
| "cv_removes 0 (i # ids) c = None"
| "cv_removes (Suc n) (i # ids) c =
     (case map_of (agents (cv_kernel c)) i of
        None \<Rightarrow> cv_removes (Suc n) ids c
      | Some a \<Rightarrow>
          (case cv_removes n (map fst (children (store (cv_kernel c) ! a))) c of
             None \<Rightarrow> None
           | Some c1 \<Rightarrow> cv_removes (Suc n) ids (refresh (c1\<lparr>cv_kernel := detach i a (cv_kernel c1)\<rparr>))))"

definition cv_depth :: "canvas \<Rightarrow> nat" where
  "cv_depth c = Suc (length (agents (cv_kernel c)))"

definition js_round :: "rat \<Rightarrow> int" where
  "js_round x = \<lfloor>x + 1 / 2\<rfloor>"

definition persistRect :: "string \<Rightarrow> (rat \<times> rat) option \<Rightarrow> (rat \<times> rat) option \<Rightarrow> canvas \<Rightarrow> canvas" where
  "persistRect aid xy wh c =
     (let p1 = (case xy of Some (x, y) \<Rightarrow> [(''x'', JNum (js_round x)), (''y'', JNum (js_round y))] | None \<Rightarrow> []);
          p2 = (case wh of Some (w, h) \<Rightarrow> [(''width'', JNum (js_round w)), (''height'', JNum (js_round h))] | None \<Rightarrow> [])
      in cv_updateMeta aid (p1 @ p2) c)"

section \<open>Pointer gestures\<close>

definition canvas_mousedown :: "int \<Rightarrow> rat \<Rightarrow> rat \<Rightarrow> canvas \<Rightarrow> canvas" where
  "canvas_mousedown button x y c =
     (if button \<noteq> 0 \<and> button \<noteq> 1 then c
      else c\<lparr>cv_gestures := cv_gestures c @ [Panning x y (vw_ox (cv_view c)) (vw_oy (cv_view c)) (button = 1)]\<rparr>)"

definition startDrag :: "nat \<Rightarrow> rat \<Rightarrow> rat \<Rightarrow> canvas \<Rightarrow> canvas" where
  "startDrag e x y c = c\<lparr>cv_gestures := cv_gestures c @ [Dragging e x y (el_left (cv_els c ! e)) (el_top (cv_els c ! e))]\<rparr>"

text \<open>The head of a frame starts a drag, except on its actions.\<close>

definition head_mousedown :: "nat \<Rightarrow> bool \<Rightarrow> rat \<Rightarrow> rat \<Rightarrow> canvas \<Rightarrow> canvas" where
  "head_mousedown e on_actions x y c = (if on_actions then c else startDrag e x y c)"

definition startResize :: "nat \<Rightarrow> rat \<Rightarrow> rat \<Rightarrow> canvas \<Rightarrow> canvas" where
  "startResize e x y c = c\<lparr>cv_gestures := cv_gestures c @ [Resizing e x y (el_width (cv_els c ! e)) (el_height (cv_els c ! e))]\<rparr>"

text \<open>The \<^verbatim>\<open>move\<close> listeners of the three gestures.\<close>

definition pan_move :: "rat \<Rightarrow> rat \<Rightarrow> rat \<Rightarrow> rat \<Rightarrow> bool \<Rightarrow> rat \<Rightarrow> rat \<Rightarrow> canvas \<Rightarrow> gesture \<times> canvas" where
  "pan_move sx sy ox0 oy0 engaged x y c =
     (let dx = x - sx; dy = y - sy; engaged' = (engaged \<or> dx * dx + dy * dy > 16)
      in (Panning sx sy ox0 oy0 engaged',
          if engaged' then c\<lparr>cv_view := pan_to (ox0 + dx) (oy0 + dy) (cv_view c)\<rparr> else c))"

definition drag_move :: "nat \<Rightarrow> rat \<Rightarrow> rat \<Rightarrow> rat \<Rightarrow> rat \<Rightarrow> rat \<Rightarrow> rat \<Rightarrow> canvas \<Rightarrow> canvas" where
  "drag_move e sx sy ox oy x y c =
     set_el e (\<lambda>f. f\<lparr>el_left := ox + (x - sx) / vw_z (cv_view c), el_top := oy + (y - sy) / vw_z (cv_view c)\<rparr>) c"

definition resize_move :: "nat \<Rightarrow> rat \<Rightarrow> rat \<Rightarrow> rat \<Rightarrow> rat \<Rightarrow> rat \<Rightarrow> rat \<Rightarrow> canvas \<Rightarrow> canvas" where
  "resize_move e sx sy ow oh x y c =
     set_el e (\<lambda>f. f\<lparr>el_width := max 180 (ow + (x - sx) / vw_z (cv_view c)), el_height := max 120 (oh + (y - sy) / vw_z (cv_view c))\<rparr>) c"

fun gesture_move :: "rat \<Rightarrow> rat \<Rightarrow> gesture \<Rightarrow> canvas \<Rightarrow> gesture \<times> canvas" where
  "gesture_move x y (Panning sx sy ox0 oy0 engaged) c = pan_move sx sy ox0 oy0 engaged x y c"
| "gesture_move x y (Dragging e sx sy ox oy) c = (Dragging e sx sy ox oy, drag_move e sx sy ox oy x y c)"
| "gesture_move x y (Resizing e sx sy ow oh) c = (Resizing e sx sy ow oh, resize_move e sx sy ow oh x y c)"

fun gestures_move :: "rat \<Rightarrow> rat \<Rightarrow> gesture list \<Rightarrow> canvas \<Rightarrow> gesture list \<times> canvas" where
  "gestures_move x y [] c = ([], c)"
| "gestures_move x y (g # gs) c =
     (let (g', c1) = gesture_move x y g c; (gs', c2) = gestures_move x y gs c1 in (g' # gs', c2))"

definition window_mousemove :: "rat \<Rightarrow> rat \<Rightarrow> canvas \<Rightarrow> canvas" where
  "window_mousemove x y c = (let (gs, c1) = gestures_move x y (cv_gestures c) c in c1\<lparr>cv_gestures := gs\<rparr>)"

definition drag_up :: "nat \<Rightarrow> canvas \<Rightarrow> canvas" where
  "drag_up e c = (let f = cv_els c ! e in persistRect (rec_id (el_rec f)) (Some (el_left f, el_top f)) None c)"

definition resize_up :: "nat \<Rightarrow> canvas \<Rightarrow> canvas" where
  "resize_up e c = (let f = cv_els c ! e in persistRect (rec_id (el_rec f)) None (Some (el_width f, el_height f)) c)"

fun gesture_up :: "gesture \<Rightarrow> canvas \<Rightarrow> canvas" where
  "gesture_up (Panning sx sy ox0 oy0 engaged) c = c"
| "gesture_up (Dragging e sx sy ox oy) c = drag_up e c"
| "gesture_up (Resizing e sx sy ow oh) c = resize_up e c"

definition window_mouseup :: "canvas \<Rightarrow> canvas" where
  "window_mouseup c = fold gesture_up (cv_gestures c) (c\<lparr>cv_gestures := []\<rparr>)"

section \<open>The buttons of a frame\<close>

definition current_rec :: "nat \<Rightarrow> canvas \<Rightarrow> payload" where
  "current_rec e c =
     (let r = el_rec (cv_els c ! e) in case map_of (cv_frames c) (rec_id r) of Some f \<Rightarrow> fr_rec f | None \<Rightarrow> r)"

definition click_lock :: "nat \<Rightarrow> canvas \<Rightarrow> canvas" where
  "click_lock e c =
     (let cur = rec_bool (current_rec e c) ''delete_lock''
      in cv_updateMeta (rec_id (el_rec (cv_els c ! e))) [(''delete_lock'', JBool (\<not> cur))]
           (set_el e (\<lambda>f. f\<lparr>el_locked := \<not> cur\<rparr>) c))"

definition click_close :: "nat \<Rightarrow> canvas \<Rightarrow> canvas option" where
  "click_close e c =
     (let r = current_rec e c in
      if rec_bool r ''delete_lock'' then Some c
      else
        (let c1 = (case rec_str r ''backend_id'' of
               Some b \<Rightarrow> (if rec_bool r ''owns_backend'' \<and> b \<noteq> []
                          then cv_do [CvCallHost ''kernel'' [(''type'', JStr ''delete_agent''), (''id'', JStr b)]] c else c)
             | None \<Rightarrow> c)
         in cv_removes (cv_depth c1) [rec_id (el_rec (cv_els c ! e))] c1))"

text \<open>
  The reload closure of an inline frame is made once, with the first view it mounted; a second reload unmounts that same view
  again. A remount is answered later.
\<close>

definition click_reload :: "nat \<Rightarrow> canvas \<Rightarrow> canvas" where
  "click_reload e c =
     (case el_reload (cv_els c ! e) of
        NoReload \<Rightarrow> c
      | Remount v b aid \<Rightarrow>
          (let (c1, v') = start_mount (el_rec (cv_els c ! e)) b e (unmount_view v c)
           in c1\<lparr>cv_remounts := cv_remounts c1 @ [v']\<rparr>)
      | EmitReload \<Rightarrow> cv_do [CvEmit (rec_id (el_rec (cv_els c ! e))) [(''type'', JStr ''reload_html'')]] c)"

definition remounted :: "nat \<Rightarrow> canvas \<Rightarrow> canvas" where
  "remounted v c =
     (let c1 = set_mount v Up c; aid = mv_agent (cv_mounts c ! v)
      in case map_of (cv_frames c1) aid of
           None \<Rightarrow> c1
         | Some f \<Rightarrow> c1\<lparr>cv_frames := AList.update aid (f\<lparr>fr_handle := Some v\<rparr>) (cv_frames c1)\<rparr>)"

definition click_chip :: "nat \<Rightarrow> nat \<Rightarrow> canvas \<Rightarrow> canvas" where
  "click_chip e n c = (let (v, b) = el_chips (cv_els c ! e) ! n in cv_do [CvChip v b] c)"

section \<open>Spawning a terminal\<close>

definition canvas_dblclick :: "rat \<Rightarrow> rat \<Rightarrow> rat \<Rightarrow> rat \<Rightarrow> canvas \<Rightarrow> canvas" where
  "canvas_dblclick rl rt x y c =
     cv_do [CvCallHost ''kernel'' [(''type'', JStr ''reflect''), (''bundles'', JStr ''all'')]]
       (c\<lparr>cv_spawns := cv_spawns c @ [(AwaitCatalog, screenToWorld rl rt x y (cv_view c))]\<rparr>)"

definition entry_str :: "json \<Rightarrow> string \<Rightarrow> string" where
  "entry_str b k = (case map_of (json_members b) k of Some (JStr s) \<Rightarrow> s | _ \<Rightarrow> [])"

text \<open>An entry that is null ends the search: reading it throws.\<close>

fun find_pty :: "json list \<Rightarrow> json option" where
  "find_pty [] = None"
| "find_pty (b # bs) =
     (if b = JNull then None
      else if PTY_HINT (entry_str b ''handler_module'') \<or> PTY_HINT (entry_str b ''name'') then Some b
      else find_pty bs)"

definition spawn_catalog :: "json \<Rightarrow> rat \<times> rat \<Rightarrow> canvas \<Rightarrow> canvas" where
  "spawn_catalog cat w c =
     (case map_option (\<lambda>b. map_of (json_members b) ''handler_module'')
         (find_pty (case map_of (json_members cat) ''bundles'' of Some (JArr bs) \<Rightarrow> bs | _ \<Rightarrow> [])) of
        Some (Some (JStr hm)) \<Rightarrow>
          cv_do [CvCallHost ''kernel'' [(''type'', JStr ''create_agent''), (''handler_module'', JStr hm)]]
            (c\<lparr>cv_spawns := cv_spawns c @ [(AwaitCreated, w)]\<rparr>)
      | _ \<Rightarrow> c)"

definition terminal_agent :: "string \<Rightarrow> rat \<times> rat \<Rightarrow> canvas \<Rightarrow> bundle_fn agent" where
  "terminal_agent i w c =
     new_agent \<lparr>init_id = ''term_'' @ i, init_handlerModule = Some ''terminal_view.ts'',
       init_parentId = Some (case rootId (cv_kernel c) of Some r \<Rightarrow> r | None \<Rightarrow> cv_selfId c),
       init_sentence = None, init_verbs = None,
       init_meta = Some [(''backend_id'', JStr i), (''owns_backend'', JBool True),
         (''x'', JNum (js_round (fst w))), (''y'', JNum (js_round (snd w)))],
       init_handler = None\<rparr>"

definition spawn_created :: "json \<Rightarrow> rat \<times> rat \<Rightarrow> canvas \<Rightarrow> canvas" where
  "spawn_created created w c =
     (if \<not> js_truthy (Some created) \<or> js_truthy (map_of (json_members created) ''error'') then c
      else case map_of (json_members created) ''id'' of
        Some (JStr i) \<Rightarrow> refresh (c\<lparr>cv_kernel := register (terminal_agent i w c) (cv_kernel c)\<rparr>)
      | _ \<Rightarrow> c)"

section \<open>Steps\<close>

datatype cv_event =
    CvKernelChanged "bundle_fn kernel"
  | CvWheel bool rat
  | CvTick rat rat
  | CvMousedown bool int rat rat
  | CvHead nat bool rat rat
  | CvHandle nat rat rat
  | CvMousemove rat rat
  | CvMouseup
  | CvReload nat
  | CvLock nat
  | CvClose nat
  | CvChipClick nat nat
  | CvMounted nat nat
  | CvMountFailed nat
  | CvRemounted nat
  | CvProbed nat json json
  | CvGlReady nat
  | CvDblclick bool rat rat rat rat
  | CvCatalog nat json
  | CvCreated nat json

definition mountCanvas :: "string \<Rightarrow> bundle_fn kernel \<Rightarrow> canvas" where
  "mountCanvas selfId k =
     refresh \<lparr>cv_kernel = k, cv_selfId = selfId, cv_view = init_view, cv_gestures = [], cv_els = [], cv_world = [], cv_frames = [],
       cv_mounts = [], cv_remounts = [], cv_gls = [], cv_glHost = None, cv_runs = [], cv_started = 0, cv_spawns = [],
       cv_status = (0, 0), cv_out = []\<rparr>"

definition resume_at :: "nat \<Rightarrow> (refresh_run \<Rightarrow> canvas \<Rightarrow> canvas option) \<Rightarrow> canvas \<Rightarrow> canvas option" where
  "resume_at i f c = (if i < length (cv_runs c) then f (cv_runs c ! i) (c\<lparr>cv_runs := drop_at i (cv_runs c)\<rparr>) else None)"

definition in_world :: "nat \<Rightarrow> canvas \<Rightarrow> bool" where
  "in_world e c = (e \<in> set (cv_world c))"

fun canvas_step :: "source_run \<Rightarrow> cv_event \<Rightarrow> canvas \<Rightarrow> canvas option" where
  "canvas_step run (CvKernelChanged k) c = Some (refresh (c\<lparr>cv_kernel := k\<rparr>))"
| "canvas_step run (CvWheel on_frame dy) c = Some (if on_frame then c else c\<lparr>cv_view := wheel dy (cv_view c)\<rparr>)"
| "canvas_step run (CvTick w h) c = Some (c\<lparr>cv_view := tick w h (cv_view c)\<rparr>)"
| "canvas_step run (CvMousedown on_frame button x y) c = Some (if on_frame then c else canvas_mousedown button x y c)"
| "canvas_step run (CvHead e on_actions x y) c = (if in_world e c then Some (head_mousedown e on_actions x y c) else None)"
| "canvas_step run (CvHandle e x y) c = (if in_world e c then Some (startResize e x y c) else None)"
| "canvas_step run (CvMousemove x y) c = Some (window_mousemove x y c)"
| "canvas_step run CvMouseup c = Some (window_mouseup c)"
| "canvas_step run (CvReload e) c = (if in_world e c then Some (click_reload e c) else None)"
| "canvas_step run (CvLock e) c = (if in_world e c then Some (click_lock e c) else None)"
| "canvas_step run (CvClose e) c = (if in_world e c then click_close e c else None)"
| "canvas_step run (CvChipClick e n) c =
     (if in_world e c \<and> n < length (el_chips (cv_els c ! e)) then Some (click_chip e n c) else None)"
| "canvas_step run (CvMounted i buttons) c = resume_at i (\<lambda>rr. resume_mounted rr buttons) c"
| "canvas_step run (CvMountFailed i) c =
     resume_at i (\<lambda>rr c. case rr_wait rr of MountWait v r b \<Rightarrow> Some (set_mount v Down c) | _ \<Rightarrow> None) c"
| "canvas_step run (CvRemounted i) c =
     (if i < length (cv_remounts c) then Some (remounted (cv_remounts c ! i) (c\<lparr>cv_remounts := drop_at i (cv_remounts c)\<rparr>)) else None)"
| "canvas_step run (CvProbed i wa gv) c = resume_at i (\<lambda>rr. resume_probed rr wa gv) c"
| "canvas_step run (CvGlReady i) c = resume_at i (resume_gl run) c"
| "canvas_step run (CvDblclick on_frame rl rt x y) c = Some (if on_frame then c else canvas_dblclick rl rt x y c)"
| "canvas_step run (CvCatalog i cat) c =
     (if i < length (cv_spawns c) \<and> fst (cv_spawns c ! i) = AwaitCatalog
      then Some (spawn_catalog cat (snd (cv_spawns c ! i)) (c\<lparr>cv_spawns := drop_at i (cv_spawns c)\<rparr>)) else None)"
| "canvas_step run (CvCreated i created) c =
     (if i < length (cv_spawns c) \<and> fst (cv_spawns c ! i) = AwaitCreated
      then Some (spawn_created created (snd (cv_spawns c ! i)) (c\<lparr>cv_spawns := drop_at i (cv_spawns c)\<rparr>)) else None)"

end
