(* ===== verification/Canvas_Props.thy ===== *)
theory Canvas_Props
  imports Canvas
begin

text \<open>
  What the canvas shows. A refresh that is not overtaken by another one leaves exactly one frame per member it can show;
  overlapping refreshes do not.
\<close>

section \<open>Frames and the elements of the world\<close>

definition frame_els :: "canvas \<Rightarrow> nat list" where
  "frame_els c = map (fr_el \<circ> snd) (cv_frames c)"

definition frames_ok :: "nat list \<Rightarrow> canvas \<Rightarrow> bool" where
  "frames_ok pend c =
     (distinct (map fst (cv_frames c)) \<and> distinct (cv_world c) \<and> mset (cv_world c) = mset (frame_els c) + mset pend \<and>
      (\<forall>e\<in>set (cv_world c). e < length (cv_els c)))"

definition frame_ids :: "canvas \<Rightarrow> string set" where
  "frame_ids c = fst ` set (cv_frames c)"

text \<open>What an operation that is not a refresh may change: positions, handles, mounts, gestures, but not which frames there are.\<close>

definition decor :: "canvas \<Rightarrow> canvas \<Rightarrow> bool" where
  "decor c c' =
     (map (\<lambda>(i, f). (i, fr_el f, fr_rec f)) (cv_frames c') = map (\<lambda>(i, f). (i, fr_el f, fr_rec f)) (cv_frames c) \<and>
      cv_world c' = cv_world c \<and> length (cv_els c') = length (cv_els c) \<and> cv_runs c' = cv_runs c \<and> cv_kernel c' = cv_kernel c \<and>
      cv_started c' = cv_started c \<and> length (cv_mounts c) \<le> length (cv_mounts c') \<and>
      (\<forall>v < length (cv_mounts c). mv_el (cv_mounts c' ! v) = mv_el (cv_mounts c ! v)))"

lemma decor_refl [simp]: "decor c c"
  by (simp add: decor_def)

lemma decor_trans: "decor a b \<Longrightarrow> decor b c \<Longrightarrow> decor a c"
  by (auto simp: decor_def)

lemma decor_frames:
  assumes "decor c c'"
  shows "map fst (cv_frames c') = map fst (cv_frames c)" "frame_els c' = frame_els c"
    "map_option fr_rec (map_of (cv_frames c') i) = map_option fr_rec (map_of (cv_frames c) i)"
proof -
  have e: "map (\<lambda>(i, f). (i, fr_el f, fr_rec f)) (cv_frames c') = map (\<lambda>(i, f). (i, fr_el f, fr_rec f)) (cv_frames c)"
    using assms by (simp add: decor_def)
  from arg_cong [OF e, of "map fst"] show "map fst (cv_frames c') = map fst (cv_frames c)" by (simp add: comp_def case_prod_unfold)
  from arg_cong [OF e, of "map (fst \<circ> snd)"] show "frame_els c' = frame_els c"
    by (simp add: frame_els_def comp_def case_prod_unfold)
  have m: "map_option fr_rec (map_of fs i) = map_option snd (map_of (map (\<lambda>(i, f). (i, fr_el f, fr_rec f)) fs) i)" for fs
    by (induction fs) auto
  show "map_option fr_rec (map_of (cv_frames c') i) = map_option fr_rec (map_of (cv_frames c) i)"
    by (simp only: m e)
qed

lemma decor_ok: "decor c c' \<Longrightarrow> frames_ok pend c' = frames_ok pend c"
  using decor_frames [of c c'] by (simp add: frames_ok_def decor_def)

lemma decor_ids: "decor c c' \<Longrightarrow> frame_ids c' = frame_ids c"
  using decor_frames(1) [of c c'] unfolding frame_ids_def by (metis image_set)

lemma map_update_same:
  "map_of m k = Some v \<Longrightarrow> g v' = g v \<Longrightarrow> map (\<lambda>(i, x). (i, g x)) (AList.update k v' m) = map (\<lambda>(i, x). (i, g x)) m"
  by (induction m) (auto split: if_splits)

lemma decor_handle:
  assumes "map_of (cv_frames c) i = Some f"
  shows "decor c (c\<lparr>cv_frames := AList.update i (f\<lparr>fr_handle := h\<rparr>) (cv_frames c)\<rparr>)"
  using map_update_same [OF assms, of "\<lambda>f. (fr_el f, fr_rec f)" "f\<lparr>fr_handle := h\<rparr>"] by (simp add: decor_def)

lemma decor_set_el [simp]: "decor c (set_el e f c)"
  by (simp add: decor_def set_el_def)

lemma decor_do [simp]: "decor c (cv_do es c)"
  by (simp add: decor_def cv_do_def)

lemma decor_set_mount [simp]: "decor c (set_mount v st c)"
  by (auto simp: decor_def set_mount_def nth_list_update_if)

lemma decor_unmount [simp]: "decor c (unmount_view v c)"
  unfolding unmount_view_def by (rule decor_trans [OF decor_set_mount decor_do])

lemma decor_fields [simp]:
  "decor c (c\<lparr>cv_view := v\<rparr>)" "decor c (c\<lparr>cv_gestures := gs\<rparr>)" "decor c (c\<lparr>cv_spawns := ss\<rparr>)" "decor c (c\<lparr>cv_remounts := rs\<rparr>)"
  "decor c (c\<lparr>cv_gls := gls\<rparr>)" "decor c (c\<lparr>cv_glHost := g\<rparr>)" "decor c (c\<lparr>cv_status := s\<rparr>)"
  by (simp_all add: decor_def)

lemma decor_start_mount: "decor c (fst (start_mount r b e c))"
  by (auto simp: decor_def start_mount_def nth_append)

section \<open>How often an operation tells the canvas\<close>

inductive told :: "nat \<Rightarrow> canvas \<Rightarrow> canvas \<Rightarrow> bool" where
  told_none: "told 0 c c"
| told_decor: "told n c c1 \<Longrightarrow> decor c1 c2 \<Longrightarrow> told n c c2"
| told_refresh: "told n c c1 \<Longrightarrow> told (Suc n) c (refresh (c1\<lparr>cv_kernel := k\<rparr>))"

lemma told_trans: "told m b c \<Longrightarrow> told n a b \<Longrightarrow> told (n + m) a c"
  by (induction rule: told.induct) (auto intro: told.intros)

lemma decor_told: "decor c c' \<Longrightarrow> told 0 c c'"
  by (rule told_decor [OF told_none])

lemma told_0: "told 0 c c' \<Longrightarrow> decor c c'"
  by (induction "0 :: nat" c c' rule: told.induct) (auto intro: decor_trans)

lemma told_1: "told (Suc 0) c c' \<Longrightarrow> \<exists>c1 k. decor c c1 \<and> decor (refresh (c1\<lparr>cv_kernel := k\<rparr>)) c'"
proof (induction "Suc 0" c c' rule: told.induct)
  case (told_decor c c1 c2)
  then show ?case by (blast intro: decor_trans)
next
  case (told_refresh c c1 k)
  then show ?case using told_0 decor_refl by blast
qed

lemma removeFrame_started: "cv_started (removeFrame i c) = cv_started c" "cv_runs (removeFrame i c) = cv_runs c"
  "cv_kernel (removeFrame i c) = cv_kernel c"
  by (auto simp: removeFrame_def Let_def unmount_view_def cv_do_def set_mount_def split: option.split)

lemma fold_removeFrame:
  "cv_started (fold (\<lambda>i c. if i \<in> set seen then c else removeFrame i c) is c) = cv_started c"
  "cv_runs (fold (\<lambda>i c. if i \<in> set seen then c else removeFrame i c) is c) = cv_runs c"
  "cv_kernel (fold (\<lambda>i c. if i \<in> set seen then c else removeFrame i c) is c) = cv_kernel c"
  by (induction "is" arbitrary: c) (auto simp: removeFrame_started)

lemma refresh_end_fields:
  "cv_started (refresh_end seen gls c) = cv_started c" "cv_runs (refresh_end seen gls c) = cv_runs c"
  "cv_kernel (refresh_end seen gls c) = cv_kernel c"
  by (simp_all add: refresh_end_def Let_def set_gl_def fold_removeFrame split: option.split)

lemma loop_started: "cv_started (refresh_loop rs idx seen gls c) = cv_started c"
proof (induction rs idx seen gls c rule: refresh_loop.induct)
  case (2 r rest idx seen gls c)
  then show ?case
    by (auto simp: Let_def set_el_def suspend_def mountInline_def makeShell_def start_mount_def cv_do_def case_prod_unfold split: option.split)
qed (simp add: refresh_end_fields)

lemma told_started: "told n c c' \<Longrightarrow> cv_started c' = cv_started c + n"
  by (induction rule: told.induct) (simp_all add: decor_def refresh_def loop_started)

text \<open>Every operation but the continuations of a refresh is of this kind.\<close>

lemma updateMeta_told: "\<exists>n. told n c (cv_updateMeta i patch c)"
proof (cases "updateMeta i patch (cv_kernel c)")
  case (Pair k o')
  show ?thesis
  proof (cases o')
    case None
    with Pair have "k = cv_kernel c" by (auto simp: updateMeta_def Let_def split: option.splits)
    with Pair None show ?thesis by (auto simp: cv_updateMeta_def intro: told_none)
  next
    case (Some r)
    with Pair show ?thesis by (auto simp: cv_updateMeta_def intro: told_refresh [OF told_none])
  qed
qed

lemma told_bind: "\<exists>n. told n a b \<Longrightarrow> \<exists>n. told n b c \<Longrightarrow> \<exists>n. told n a c"
  using told_trans by blast

lemma decor_then: "decor a b \<Longrightarrow> \<exists>n. told n b c \<Longrightarrow> \<exists>n. told n a c"
  using told_bind decor_told by blast

lemma removes_told: "cv_removes n ids c = Some c' \<Longrightarrow> \<exists>m. told m c c'"
proof (induction n ids c arbitrary: c' rule: cv_removes.induct)
  case (3 n i ids c)
  show ?case
  proof (cases "map_of (agents (cv_kernel c)) i")
    case None
    with 3 show ?thesis by simp
  next
    case (Some a)
    with 3(4) obtain c1 where c1: "cv_removes n (map fst (children (store (cv_kernel c) ! a))) c = Some c1"
      "cv_removes (Suc n) ids (refresh (c1\<lparr>cv_kernel := detach i a (cv_kernel c1)\<rparr>)) = Some c'"
      by (auto split: option.splits)
    have "\<exists>m. told m c c1" using 3(2) [OF Some c1(1)] .
    moreover have "\<exists>m. told m c1 (refresh (c1\<lparr>cv_kernel := detach i a (cv_kernel c1)\<rparr>))" using told_refresh [OF told_none] by blast
    ultimately show ?thesis using 3(3) [OF Some c1] told_bind by blast
  qed
qed (auto intro: told_none)

lemma gesture_up_told: "\<exists>n. told n c (gesture_up g c)"
  by (cases g) (auto simp: drag_up_def resize_up_def persistRect_def Let_def updateMeta_told intro: told_none)

lemma gestures_up_told: "\<exists>n. told n c (fold gesture_up gs c)"
proof (induction gs arbitrary: c)
  case (Cons g gs)
  show ?case using told_bind [OF gesture_up_told Cons.IH] by simp
qed (auto intro: told_none)

lemma gesture_move_decor: "decor c (snd (gesture_move x y g c))"
  by (cases g) (simp_all add: pan_move_def drag_move_def resize_move_def Let_def)

lemma gestures_move_decor: "decor c (snd (gestures_move x y gs c))"
proof (induction gs arbitrary: c)
  case (Cons g gs)
  show ?case using decor_trans [OF gesture_move_decor Cons.IH] by (simp add: case_prod_unfold Let_def)
qed simp

fun is_resume :: "cv_event \<Rightarrow> bool" where
  "is_resume (CvMounted _ _) = True"
| "is_resume (CvMountFailed _) = True"
| "is_resume (CvProbed _ _ _) = True"
| "is_resume (CvGlReady _) = True"
| "is_resume _ = False"

lemma step_told:
  assumes "canvas_step run e c = Some c'" "\<not> is_resume e"
  shows "\<exists>n. told n c c'"
proof (cases e)
  case (CvKernelChanged k)
  with assms show ?thesis using told_refresh [OF told_none] by auto
next
  case (CvMousemove x y)
  have "decor c (window_mousemove x y c)" unfolding window_mousemove_def
    by (simp add: case_prod_unfold Let_def) (rule decor_trans [OF gestures_move_decor decor_fields(2)])
  with assms CvMousemove show ?thesis by (auto intro: decor_told)
next
  case CvMouseup
  have "\<exists>n. told n c (window_mouseup c)" unfolding window_mouseup_def
    by (rule decor_then [OF decor_fields(2) gestures_up_told])
  with assms CvMouseup show ?thesis by auto
next
  case (CvReload e)
  have "decor c (click_reload e c)"
  proof (cases "el_reload (cv_els c ! e)")
    case (Remount v b aid)
    have "decor c (fst (start_mount (el_rec (cv_els c ! e)) b e (unmount_view v c)))"
      by (rule decor_trans [OF decor_unmount decor_start_mount])
    from decor_trans [OF this decor_fields(4)] Remount show ?thesis by (simp add: click_reload_def case_prod_unfold Let_def)
  qed (simp_all add: click_reload_def)
  with assms CvReload show ?thesis by (auto split: if_splits intro: decor_told)
next
  case (CvLock e)
  have "\<exists>n. told n c (click_lock e c)" unfolding click_lock_def Let_def
    by (rule decor_then [OF decor_set_el updateMeta_told])
  with assms CvLock show ?thesis by (auto split: if_splits)
next
  case (CvClose e)
  let ?r = "current_rec e c"
  from assms CvClose have cc: "click_close e c = Some c'" by (auto split: if_splits)
  show ?thesis
  proof (cases "rec_bool ?r ''delete_lock''")
    case False
    let ?c1 = "case rec_str ?r ''backend_id'' of
       Some b \<Rightarrow> (if rec_bool ?r ''owns_backend'' \<and> b \<noteq> []
                  then cv_do [CvCallHost ''kernel'' [(''type'', JStr ''delete_agent''), (''id'', JStr b)]] c else c)
     | None \<Rightarrow> c"
    have "cv_removes (cv_depth ?c1) [rec_id (el_rec (cv_els c ! e))] ?c1 = Some c'"
      using cc False by (simp add: click_close_def Let_def)
    moreover have "decor c ?c1" by (simp split: option.split)
    ultimately show ?thesis using decor_then removes_told by blast
  qed (use cc in \<open>auto simp: click_close_def intro: told_none\<close>)
next
  case (CvChipClick e n)
  have "decor c (click_chip e n c)" by (simp add: click_chip_def case_prod_unfold Let_def)
  with assms CvChipClick show ?thesis by (auto split: if_splits intro: decor_told)
next
  case (CvRemounted i)
  let ?c = "c\<lparr>cv_remounts := drop_at i (cv_remounts c)\<rparr>" and ?v = "cv_remounts c ! i"
  have "decor ?c (remounted ?v ?c)"
    using decor_trans [OF decor_set_mount decor_handle]
    by (auto simp: remounted_def Let_def split: option.split)
  with assms CvRemounted decor_trans [OF decor_fields(4) this] show ?thesis by (auto split: if_splits intro: decor_told)
next
  case (CvCatalog i cat)
  let ?c = "c\<lparr>cv_spawns := drop_at i (cv_spawns c)\<rparr>"
  have "decor c (spawn_catalog cat (snd (cv_spawns c ! i)) ?c)"
    by (auto simp: spawn_catalog_def decor_def cv_do_def split: option.split json.split)
  with assms CvCatalog show ?thesis by (auto split: if_splits intro: decor_told)
next
  case (CvCreated i v)
  let ?c = "c\<lparr>cv_spawns := drop_at i (cv_spawns c)\<rparr>"
  have "\<exists>n. told n ?c (spawn_created v (snd (cv_spawns c ! i)) ?c)"
    using told_refresh [OF told_none, of ?c] told_none [of ?c]
    by (auto simp: spawn_created_def split: option.split json.split)
  from decor_then [OF decor_fields(3) this] assms CvCreated show ?thesis by (auto split: if_splits)
qed (use assms in \<open>auto simp: canvas_mousedown_def startDrag_def head_mousedown_def startResize_def canvas_dblclick_def
    intro!: exI [of _ 0] decor_told decor_trans [OF decor_fields(3) decor_do] split: if_splits\<close>)

section \<open>A refresh on its own\<close>

definition wait_els :: "refresh_run \<Rightarrow> canvas \<Rightarrow> nat list" where
  "wait_els rr c = (case rr_wait rr of MountWait v r b \<Rightarrow> [mv_el (cv_mounts c ! v)] | _ \<Rightarrow> [])"

definition wait_rec :: "refresh_run \<Rightarrow> payload" where
  "wait_rec rr = (case rr_wait rr of MountWait v r b \<Rightarrow> r | ProbeWait r \<Rightarrow> r | GlWait r gv g \<Rightarrow> r)"

text \<open>The members handled so far: those of an inline view have a frame, and every frame seen shows a member.\<close>

definition handled :: "payload list \<Rightarrow> string list \<Rightarrow> canvas \<Rightarrow> bool" where
  "handled ps seen c =
     ((\<forall>p\<in>set ps. viewFor (map_of p ''handler_module'') \<noteq> None \<longrightarrow> rec_id p \<in> set seen) \<and>
      (\<forall>i\<in>set seen. \<exists>r\<in>set ps. rec_id r = i \<and> map_option fr_rec (map_of (cv_frames c) i) = Some r))"

text \<open>A waiting refresh: \<open>ps\<close> are the members before the one it waits for.\<close>

definition run_ok :: "refresh_run \<Rightarrow> canvas \<Rightarrow> bool" where
  "run_ok rr c =
     (\<exists>ps. cv_members (cv_kernel c) = ps @ wait_rec rr # rr_rest rr \<and> frames_ok (wait_els rr c) c \<and>
        (case rr_wait rr of
           MountWait v r b \<Rightarrow> v < length (cv_mounts c) \<and> rec_id r \<notin> frame_ids c \<and> handled ps (rr_dom rr) c
         | ProbeWait r \<Rightarrow> rec_id r \<notin> frame_ids c \<and> viewFor (map_of r ''handler_module'') = None \<and> handled ps (rr_dom rr) c
         | GlWait r gv g \<Rightarrow> handled (ps @ [r]) (rr_dom rr) c))"

definition shown :: "canvas \<Rightarrow> bool" where
  "shown c = (frames_ok [] c \<and>
     (\<exists>seen. set seen = frame_ids c \<and> handled (cv_members (cv_kernel c)) seen c))"

definition canvas_inv :: "canvas \<Rightarrow> bool" where
  "canvas_inv c = (case cv_runs c of [] \<Rightarrow> shown c | [rr] \<Rightarrow> run_ok rr c | _ \<Rightarrow> False)"

lemma decor_handled: "decor c c' \<Longrightarrow> handled ps seen c' = handled ps seen c"
  by (simp add: handled_def decor_frames(3) [of c c'])

lemma decor_inv: assumes "decor c c'" "canvas_inv c" shows "canvas_inv c'"
proof (cases "cv_runs c")
  case Nil
  with assms show ?thesis
    using decor_ok [OF assms(1)] decor_ids [OF assms(1)] decor_handled [OF assms(1)]
    by (simp add: canvas_inv_def decor_def shown_def)
next
  case (Cons rr rrs)
  with assms(2) have r: "cv_runs c = [rr]" "run_ok rr c" by (auto simp: canvas_inv_def split: list.splits)
  have w: "wait_els rr c' = wait_els rr c" if "\<forall>v r b. rr_wait rr = MountWait v r b \<longrightarrow> v < length (cv_mounts c)"
    using assms(1) that by (auto simp: wait_els_def decor_def split: waiting.split)
  have "\<forall>v r b. rr_wait rr = MountWait v r b \<longrightarrow> v < length (cv_mounts c)" using r(2) by (auto simp: run_ok_def)
  note w = w [OF this]
  have "run_ok rr c'"
    using r(2) assms(1) decor_ok [OF assms(1)] decor_ids [OF assms(1)] decor_handled [OF assms(1)]
    unfolding run_ok_def w by (auto simp: decor_def split: waiting.splits)
  with r assms(1) show ?thesis by (simp add: canvas_inv_def decor_def)
qed

text \<open>The operations of a refresh on the frames.\<close>

lemma removeFrame_ok:
  assumes "frames_ok [] c"
  shows "frames_ok [] (removeFrame i c)" "frame_ids (removeFrame i c) = frame_ids c - {i}"
    "j \<noteq> i \<Longrightarrow> map_of (cv_frames (removeFrame i c)) j = map_of (cv_frames c) j"
proof -
  have "frames_ok [] (removeFrame i c) \<and> frame_ids (removeFrame i c) = frame_ids c - {i} \<and>
    (j \<noteq> i \<longrightarrow> map_of (cv_frames (removeFrame i c)) j = map_of (cv_frames c) j)"
  proof (cases "map_of (cv_frames c) i")
    case None
    then have "i \<notin> frame_ids c" by (simp add: frame_ids_def map_of_eq_None_iff)
    with None assms show ?thesis by (simp add: removeFrame_def)
  next
    case (Some f)
    let ?c = "if fr_inline f then (case fr_handle f of Some v \<Rightarrow> unmount_view v c | None \<Rightarrow> c) else c"
    have c: "cv_frames ?c = cv_frames c" "cv_world ?c = cv_world c" "cv_els ?c = cv_els c"
      by (simp_all add: unmount_view_def cv_do_def set_mount_def split: option.split)
    have "mset (remove1 (fr_el f) (cv_world c)) = mset (map (fr_el \<circ> snd) (AList.delete i (cv_frames c)))"
      using assms Some mset_map_delete [of "cv_frames c" i f fr_el] by (simp add: frames_ok_def frame_els_def)
    moreover have "\<forall>e\<in>set (remove1 (fr_el f) (cv_world c)). e < length (cv_els c)"
      using assms set_remove1_subset [of "fr_el f" "cv_world c"] by (auto simp: frames_ok_def)
    ultimately show ?thesis using Some assms c
      by (simp add: removeFrame_def Let_def frames_ok_def frame_els_def frame_ids_def fst_set_delete)
  qed
  then show "frames_ok [] (removeFrame i c)" "frame_ids (removeFrame i c) = frame_ids c - {i}"
    "j \<noteq> i \<Longrightarrow> map_of (cv_frames (removeFrame i c)) j = map_of (cv_frames c) j" by simp_all
qed

lemma fold_removes:
  "frames_ok [] c \<Longrightarrow>
   frames_ok [] (fold (\<lambda>i c. if i \<in> set seen then c else removeFrame i c) is c) \<and>
   frame_ids (fold (\<lambda>i c. if i \<in> set seen then c else removeFrame i c) is c) = frame_ids c - (set is - set seen) \<and>
   (\<forall>j\<in>set seen. map_of (cv_frames (fold (\<lambda>i c. if i \<in> set seen then c else removeFrame i c) is c)) j = map_of (cv_frames c) j)"
proof (induction "is" arbitrary: c)
  case (Cons i "is")
  show ?case
  proof (cases "i \<in> set seen")
    case True
    with Cons show ?thesis by auto
  next
    case False
    have "map_of (cv_frames (removeFrame i c)) j = map_of (cv_frames c) j" if "j \<in> set seen" for j
      by (rule removeFrame_ok(3) [OF Cons.prems]) (use that False in auto)
    with False Cons.IH [OF removeFrame_ok(1) [OF Cons.prems, of i]] removeFrame_ok(2) [OF Cons.prems, of i] show ?thesis by auto
  qed
qed simp

lemma refresh_end_shown:
  assumes "frames_ok [] c" "handled (cv_members (cv_kernel c)) seen c" "cv_runs c = []"
  shows "canvas_inv (refresh_end seen gls c)"
proof -
  let ?c = "fold (\<lambda>i c. if i \<in> set seen then c else removeFrame i c) (map fst (cv_frames c)) c"
  note f = fold_removes [OF assms(1), of seen "map fst (cv_frames c)"]
  have k: "cv_kernel ?c = cv_kernel c" "cv_runs ?c = []" by (simp_all add: fold_removeFrame assms(3))
  have sub: "set seen \<subseteq> frame_ids c"
  proof
    fix i assume "i \<in> set seen"
    then obtain f where "map_of (cv_frames c) i = Some f" using assms(2) by (auto simp: handled_def)
    then show "i \<in> frame_ids c" by (force simp: frame_ids_def dest: map_of_SomeD)
  qed
  have "set (map fst (cv_frames c)) = frame_ids c" by (simp add: frame_ids_def)
  with f sub have "set seen = frame_ids ?c" by auto
  moreover have "handled (cv_members (cv_kernel c)) seen ?c" using assms(2) f by (simp add: handled_def)
  ultimately have "shown ?c" using f k by (auto simp: shown_def)
  then have "canvas_inv ?c" using k by (simp add: canvas_inv_def)
  moreover have "decor ?c (refresh_end seen gls c)"
    by (auto simp: refresh_end_def Let_def decor_def set_gl_def split: option.split)
  ultimately show ?thesis using decor_inv by blast
qed

lemma shell_ok:
  assumes "frames_ok [] c"
  shows "frames_ok [snd (makeShell r rect a c)] (fst (makeShell r rect a c))"
    "cv_frames (fst (makeShell r rect a c)) = cv_frames c" "cv_kernel (fst (makeShell r rect a c)) = cv_kernel c"
    "cv_runs (fst (makeShell r rect a c)) = cv_runs c" "cv_mounts (fst (makeShell r rect a c)) = cv_mounts c"
  using assms by (auto simp: makeShell_def Let_def case_prod_unfold frames_ok_def frame_els_def)

text \<open>A new frame takes over the element that waited for it.\<close>

lemma add_frame_ok:
  assumes "frames_ok [e] c" "i \<notin> frame_ids c" "fr_el f = e"
  shows "frames_ok [] (c\<lparr>cv_frames := AList.update i f (cv_frames c)\<rparr>)"
  using assms by (simp add: frames_ok_def frame_els_def frame_ids_def update_fresh)

lemma handled_add:
  assumes "handled ps seen c" "rec_id r = i" "fr_rec f = r"
  shows "handled (ps @ [r]) (set_add i seen) (c\<lparr>cv_frames := AList.update i f (cv_frames c)\<rparr>)"
  using assms by (auto simp: handled_def)

lemma handled_skip:
  assumes "handled ps seen c" "viewFor (map_of r ''handler_module'') = None"
  shows "handled (ps @ [r]) seen c"
  using assms by (auto simp: handled_def)

lemma existing_ok:
  assumes "frames_ok [] c" "map_of (cv_frames c) i = Some f"
  shows "frames_ok [] (c\<lparr>cv_frames := AList.update i (f\<lparr>fr_rec := r\<rparr>) (cv_frames c)\<rparr>)"
proof -
  have "map (\<lambda>(i, x). (i, fr_el x)) (AList.update i (f\<lparr>fr_rec := r\<rparr>) (cv_frames c)) = map (\<lambda>(i, x). (i, fr_el x)) (cv_frames c)"
    by (rule map_update_same [OF assms(2)]) simp
  from arg_cong [OF this, of "map snd"]
  have "map (fr_el \<circ> snd) (AList.update i (f\<lparr>fr_rec := r\<rparr>) (cv_frames c)) = map (fr_el \<circ> snd) (cv_frames c)"
    by (simp add: comp_def case_prod_unfold)
  with assms(1) show ?thesis by (simp add: frames_ok_def frame_els_def)
qed

lemma loop_inv:
  "frames_ok [] c \<Longrightarrow> cv_runs c = [] \<Longrightarrow> cv_members (cv_kernel c) = ps @ rs \<Longrightarrow> handled ps seen c \<Longrightarrow>
   canvas_inv (refresh_loop rs idx seen gls c)"
proof (induction rs arbitrary: ps idx seen gls c)
  case Nil
  then show ?case using refresh_end_shown by simp
next
  case (Cons r rs)
  show ?case
  proof (cases "map_of (cv_frames c) (rec_id r)")
    case (Some f)
    let ?c = "c\<lparr>cv_frames := AList.update (rec_id r) (f\<lparr>fr_rec := r\<rparr>) (cv_frames c)\<rparr>"
    let ?d = "set_el (fr_el f) (applyRectFromRec r) ?c"
    have d: "decor ?c ?d" by simp
    have "frames_ok [] ?d" using existing_ok [OF Cons.prems(1) Some] decor_ok [OF d] by simp
    moreover have "handled (ps @ [r]) (set_add (rec_id r) seen) ?d"
      using handled_add [OF Cons.prems(4), of r "rec_id r" "f\<lparr>fr_rec := r\<rparr>"] decor_handled [OF d] by simp
    ultimately show ?thesis using Cons.IH [of ?d "ps @ [r]"] Cons.prems(2,3) Some by (simp add: Let_def set_el_def)
  next
    case None
    then have n: "rec_id r \<notin> frame_ids c" by (simp add: frame_ids_def map_of_eq_None_iff)
    show ?thesis
    proof (cases "viewFor (map_of r ''handler_module'')")
      case None
      let ?c = "suspend (ProbeWait r) rs idx seen gls
        (cv_do [CvCall (backend_of r) [(''type'', JStr ''get_webapp'')], CvCall (backend_of r) [(''type'', JStr ''get_gl_view'')]] c)"
      have "canvas_inv ?c" using Cons.prems n None
        by (simp add: canvas_inv_def suspend_def cv_do_def run_ok_def wait_rec_def wait_els_def frames_ok_def frame_els_def frame_ids_def
            handled_def)
      with None \<open>map_of (cv_frames c) (rec_id r) = None\<close> show ?thesis by (simp add: Let_def)
    next
      case (Some b)
      let ?s = "makeShell r (rectFromRec r 480 320 idx) NoReload c"
      let ?c = "fst (start_mount r b (snd ?s) (fst ?s))" and ?v = "length (cv_mounts c)"
      note s = shell_ok [OF Cons.prems(1), of r "rectFromRec r 480 320 idx" NoReload]
      have d: "decor (fst ?s) ?c" by (rule decor_start_mount)
      have m: "mv_el (cv_mounts ?c ! ?v) = snd ?s" "?v < length (cv_mounts ?c)" "cv_runs ?c = []" "cv_kernel ?c = cv_kernel c"
        "cv_frames ?c = cv_frames c" "snd (start_mount r b (snd ?s) (fst ?s)) = ?v"
        using s Cons.prems(2) by (simp_all add: start_mount_def)
      have "frames_ok [snd ?s] ?c" using s(1) decor_ok [OF d] by simp
      then have "canvas_inv (suspend (MountWait ?v r b) rs idx seen gls ?c)"
        using m Cons.prems n
        by (simp add: canvas_inv_def suspend_def run_ok_def wait_rec_def wait_els_def frames_ok_def frame_els_def frame_ids_def handled_def)
      with Some m None show ?thesis by (simp add: Let_def mountInline_def case_prod_unfold)
    qed
  qed
qed

lemma refresh_inv:
  assumes "frames_ok [] c" "cv_runs c = []"
  shows "canvas_inv (refresh c)"
  unfolding refresh_def using assms
  by (intro loop_inv [of _ "[]"]) (simp_all add: frames_ok_def frame_els_def handled_def)

section \<open>Refreshes one after the other\<close>

text \<open>
  Runs in which a refresh starts only when none is waiting, and no view refuses to mount. What starts is counted, so that
  the several refreshes of one operation (the cascade of a deletion) count as overlapping too.
\<close>

definition mount_fails :: "cv_event \<Rightarrow> bool" where
  "mount_fails e = (case e of CvMountFailed i \<Rightarrow> True | _ \<Rightarrow> False)"

definition serial_step :: "source_run \<Rightarrow> cv_event \<Rightarrow> canvas \<Rightarrow> canvas option" where
  "serial_step run e c =
     (case canvas_step run e c of
        None \<Rightarrow> None
      | Some c' \<Rightarrow>
          (if \<not> mount_fails e \<and>
              (cv_started c' = cv_started c \<or> (cv_started c' = Suc (cv_started c) \<and> cv_runs c = [])) then Some c' else None))"

lemma inv_frames_ok: "canvas_inv c \<Longrightarrow> cv_runs c = [] \<Longrightarrow> frames_ok [] c"
  by (simp add: canvas_inv_def shown_def)

lemma told_inv:
  assumes "canvas_inv c" "told n c c'" "n = 0 \<or> (n = Suc 0 \<and> cv_runs c = [])"
  shows "canvas_inv c'"
proof (cases "n = 0")
  case True
  with assms told_0 decor_inv show ?thesis by blast
next
  case False
  with assms have t: "told (Suc 0) c c'" and r: "cv_runs c = []" by auto
  from told_1 [OF t] obtain c1 k where d: "decor c c1" "decor (refresh (c1\<lparr>cv_kernel := k\<rparr>)) c'" by blast
  have "frames_ok [] c1" "cv_runs c1 = []"
    using inv_frames_ok [OF assms(1) r] decor_ok [OF d(1)] d(1) r by (simp_all add: decor_def)
  then have "frames_ok [] (c1\<lparr>cv_kernel := k\<rparr>)" "cv_runs (c1\<lparr>cv_kernel := k\<rparr>) = []"
    by (simp_all add: frames_ok_def frame_els_def)
  with refresh_inv d(2) decor_inv show ?thesis by blast
qed

lemma run_ok_forget: "run_ok rr (c\<lparr>cv_runs := rrs\<rparr>) = run_ok rr c"
  by (simp add: run_ok_def wait_els_def frames_ok_def frame_els_def frame_ids_def handled_def cong: waiting.case_cong)

lemma mounted_inv:
  assumes "run_ok rr c" "cv_runs c = []" "resume_mounted rr buttons c = Some c'"
  shows "canvas_inv c'"
proof -
  obtain v r b where w: "rr_wait rr = MountWait v r b"
    and c': "c' = refresh_loop (rr_rest rr) (rr_idx rr + 1) (set_add (rec_id r) (rr_dom rr)) (rr_gl rr) (mountInline_done v r b buttons c)"
    using assms(3) by (auto simp: resume_mounted_def split: waiting.splits)
  obtain ps where ps: "cv_members (cv_kernel c) = ps @ r # rr_rest rr" "frames_ok [mv_el (cv_mounts c ! v)] c" "v < length (cv_mounts c)"
    "rec_id r \<notin> frame_ids c" "handled ps (rr_dom rr) c"
    using assms(1) w by (auto simp: run_ok_def wait_rec_def wait_els_def)
  let ?e = "mv_el (cv_mounts c ! v)"
  let ?f = "\<lparr>fr_el = ?e, fr_rec = r, fr_inline = True, fr_handle = Some v\<rparr>"
  let ?c = "(set_mount v Up c)\<lparr>cv_frames := AList.update (rec_id r) ?f (cv_frames (set_mount v Up c))\<rparr>"
  have m: "frames_ok [?e] (set_mount v Up c)" "rec_id r \<notin> frame_ids (set_mount v Up c)" "handled ps (rr_dom rr) (set_mount v Up c)"
    using ps decor_ok [OF decor_set_mount] decor_ids [OF decor_set_mount] decor_handled [OF decor_set_mount] by blast+
  have ok: "frames_ok [] ?c" by (rule add_frame_ok [OF m(1,2)]) simp
  have h: "handled (ps @ [r]) (set_add (rec_id r) (rr_dom rr)) ?c" by (rule handled_add [OF m(3)]) simp_all
  have d: "decor ?c (mountInline_done v r b buttons c)" by (simp add: mountInline_done_def Let_def)
  show ?thesis unfolding c'
    using ok h decor_ok [OF d] decor_handled [OF d] d ps(1) assms(2)
    by (intro loop_inv [of _ "ps @ [r]"]) (simp_all add: decor_def set_mount_def)
qed

lemma probed_inv:
  assumes "run_ok rr c" "cv_runs c = []" "resume_probed rr wa gv c = Some c'"
  shows "canvas_inv c'"
proof -
  obtain r where w: "rr_wait rr = ProbeWait r" using assms(3) by (auto simp: resume_probed_def split: waiting.splits)
  obtain ps where ps: "cv_members (cv_kernel c) = ps @ r # rr_rest rr" "frames_ok [] c" "rec_id r \<notin> frame_ids c"
    "viewFor (map_of r ''handler_module'') = None" "handled ps (rr_dom rr) c"
    using assms(1) w by (auto simp: run_ok_def wait_rec_def wait_els_def)
  obtain c1 idx seen where
    c1: "(case webapp_url wa of
        Some url \<Rightarrow> (mountIframe r (json_members wa) url (rr_idx rr) c, rr_idx rr + 1, set_add (rec_id r) (rr_dom rr))
      | None \<Rightarrow> (c, rr_idx rr, rr_dom rr)) = (c1, idx, seen)"
    by (cases "case webapp_url wa of
        Some url \<Rightarrow> (mountIframe r (json_members wa) url (rr_idx rr) c, rr_idx rr + 1, set_add (rec_id r) (rr_dom rr))
      | None \<Rightarrow> (c, rr_idx rr, rr_dom rr)")
  have k: "frames_ok [] c1 \<and> handled (ps @ [r]) seen c1 \<and> cv_runs c1 = [] \<and> cv_kernel c1 = cv_kernel c"
  proof (cases "webapp_url wa")
    case None
    with c1 ps assms(2) handled_skip [OF ps(5,4)] show ?thesis by auto
  next
    case (Some url)
    let ?rect = "rectFromRec r (wa_num (json_members wa) ''default_width'' 340) (wa_num (json_members wa) ''default_height'' 240) (rr_idx rr)"
    let ?s = "makeShell r ?rect EmitReload c"
    let ?d = "set_el (snd ?s) (\<lambda>x. x\<lparr>el_src := Some url\<rparr>) (fst ?s)"
    note s = shell_ok [OF ps(2), of r ?rect EmitReload]
    have fd: "cv_frames ?d = cv_frames c" using s(2) by (simp add: set_el_def)
    have "frames_ok [snd ?s] ?d" using s(1) decor_ok [OF decor_set_el] by blast
    moreover have "rec_id r \<notin> frame_ids ?d" "handled ps (rr_dom rr) ?d"
      using ps(3,5) by (simp_all add: frame_ids_def handled_def fd)
    ultimately have new: "frames_ok [snd ?s] ?d" "rec_id r \<notin> frame_ids ?d" "handled ps (rr_dom rr) ?d" by blast+
    from add_frame_ok [OF new(1,2)] handled_add [OF new(3)] c1 Some s(2-5) assms(2) show ?thesis
      by (auto simp: mountIframe_def case_prod_unfold Let_def set_el_def)
  qed
  show ?thesis
  proof (cases "gl_source_of gv")
    case None
    with assms(3) w c1 have "c' = refresh_loop (rr_rest rr) idx seen (rr_gl rr) c1" by (simp add: resume_probed_def)
    with k ps(1) show ?thesis using loop_inv [of c1 "ps @ [r]"] by simp
  next
    case (Some s)
    with assms(3) w c1 have "c' = suspend (GlWait r gv (cv_glHost c1)) (rr_rest rr) idx seen (rr_gl rr) c1" by (simp add: resume_probed_def)
    moreover have "run_ok \<lparr>rr_wait = GlWait r gv (cv_glHost c1), rr_rest = rr_rest rr, rr_idx = idx, rr_dom = seen, rr_gl = rr_gl rr\<rparr> c1"
      unfolding run_ok_def using k ps(1) by (intro exI [of _ ps]) (simp add: wait_rec_def wait_els_def)
    ultimately show ?thesis using k by (simp add: canvas_inv_def suspend_def run_ok_forget)
  qed
qed

lemma gl_inv_kept:
  assumes "run_ok rr c" "cv_runs c = []" "resume_gl run rr c = Some c'"
  shows "canvas_inv c'"
proof -
  obtain r gv had where w: "rr_wait rr = GlWait r gv had" using assms(3) by (auto simp: resume_gl_def split: waiting.splits)
  obtain ps where ps: "cv_members (cv_kernel c) = (ps @ [r]) @ rr_rest rr" "frames_ok [] c" "handled (ps @ [r]) (rr_dom rr) c"
    using assms(1) w by (auto simp: run_ok_def wait_rec_def wait_els_def)
  let ?p = "ensureGlHost had c"
  let ?c = "if \<not> hasView (rec_id r) (cv_gls (fst ?p) ! snd ?p) then set_gl (snd ?p) (installView run (rec_id r) gv) (fst ?p) else fst ?p"
  have "decor c (fst ?p)" by (simp add: ensureGlHost_def decor_def split: option.split)
  then have "decor c ?c" by (simp add: decor_def set_gl_def)
  moreover have "c' = refresh_loop (rr_rest rr) (rr_idx rr) (rr_dom rr) (set_add (rec_id r) (rr_gl rr)) ?c"
    using assms(3) w by (simp add: resume_gl_def Let_def case_prod_unfold)
  ultimately have d: "decor c ?c" "c' = refresh_loop (rr_rest rr) (rr_idx rr) (rr_dom rr) (set_add (rec_id r) (rr_gl rr)) ?c" by blast+
  show ?thesis unfolding d(2)
    by (rule loop_inv [of _ "ps @ [r]"]) (use d(1) ps assms(2) decor_ok [OF d(1)] decor_handled [OF d(1)] in \<open>simp_all add: decor_def\<close>)
qed

lemma resume_at_inv:
  assumes "canvas_inv c" "resume_at i f c = Some c'"
    "\<And>rr d. run_ok rr d \<Longrightarrow> cv_runs d = [] \<Longrightarrow> f rr d = Some c' \<Longrightarrow> canvas_inv c'"
  shows "canvas_inv c'"
proof -
  from assms(2) have i: "i < length (cv_runs c)" "f (cv_runs c ! i) (c\<lparr>cv_runs := drop_at i (cv_runs c)\<rparr>) = Some c'"
    by (auto simp: resume_at_def split: if_splits)
  with assms(1) obtain rr where "cv_runs c = [rr]" "run_ok rr c" by (auto simp: canvas_inv_def split: list.splits)
  with i have "f rr (c\<lparr>cv_runs := []\<rparr>) = Some c'" "run_ok rr (c\<lparr>cv_runs := []\<rparr>)" by (auto simp: drop_at_def run_ok_forget)
  then show ?thesis using assms(3) by simp
qed

interpretation serial: step_invariant "serial_step run" "\<lambda>_. True" canvas_inv for run
proof unfold_locales
  fix c e c' assume inv: "canvas_inv c" and st: "serial_step run e c = Some c'"
  then have cs: "canvas_step run e c = Some c'" and nf: "\<not> mount_fails e"
    and n: "cv_started c' = cv_started c \<or> (cv_started c' = Suc (cv_started c) \<and> cv_runs c = [])"
    by (auto simp: serial_step_def split: option.splits if_splits)
  show "canvas_inv c'"
  proof (cases "is_resume e")
    case False
    from step_told [OF cs False] obtain m where m: "told m c c'" by blast
    with told_started [OF m] n have "m = 0 \<or> (m = Suc 0 \<and> cv_runs c = [])" by auto
    with told_inv [OF inv m] show ?thesis by blast
  next
    case True
    note r = resume_at_inv [OF inv]
    show ?thesis
    proof (cases e)
      case (CvMounted i b)
      with cs have "resume_at i (\<lambda>rr. resume_mounted rr b) c = Some c'" by simp
      then show ?thesis by (rule r) (rule mounted_inv)
    next
      case (CvProbed i wa gv)
      with cs have "resume_at i (\<lambda>rr. resume_probed rr wa gv) c = Some c'" by simp
      then show ?thesis by (rule r) (rule probed_inv)
    next
      case (CvGlReady i)
      with cs have "resume_at i (resume_gl run) c = Some c'" by simp
      then show ?thesis by (rule r) (rule gl_inv_kept)
    qed (use True nf in \<open>auto simp: mount_fails_def\<close>)
  qed
qed

lemma mountCanvas_inv: "canvas_inv (mountCanvas i k)"
  unfolding mountCanvas_def by (rule refresh_inv) (simp_all add: frames_ok_def frame_els_def)


definition member :: "string \<Rightarrow> bundle_fn agent" where
  "member i = new_agent \<lparr>init_id = i, init_handlerModule = Some ''terminal_view.ts'', init_parentId = Some ''canvas'', init_sentence = None,
     init_verbs = None, init_meta = None, init_handler = None\<rparr>"

definition one_member :: "bundle_fn kernel" where
  "one_member = register (member ''a'') (setRoot (new_agent \<lparr>init_id = ''canvas'', init_handlerModule = None, init_parentId = None,
     init_sentence = None, init_verbs = None, init_meta = None, init_handler = None\<rparr>) (new_kernel 0))"

definition two_members :: "bundle_fn kernel" where
  "two_members = register (member ''b'') one_member"


section \<open>Overlapping refreshes\<close>

text \<open>
  Overlapping refreshes break the canvas. While the first refresh waits for the view of \<^verbatim>\<open>a\<close> to mount, \<^verbatim>\<open>b\<close> is
  added. If the second refresh finishes first, the first one then removes the frame of \<^verbatim>\<open>b\<close>, although \<^verbatim>\<open>b\<close> is a member. If the
  first one finishes first, \<^verbatim>\<open>a\<close> is mounted twice: one element and one mounted view stay on the canvas that no frame knows
  about, and deleting \<^verbatim>\<open>a\<close> does not remove them.
\<close>
theorem overlapping_refreshes_break:
  "(case run_events (canvas_step sample_run) [CvKernelChanged two_members, CvMounted 1 1, CvMounted 1 1, CvMounted 0 1] (mountCanvas ''canvas'' one_member) of
      Some c \<Rightarrow> cv_runs c = [] \<and> map rec_id (cv_members (cv_kernel c)) = [''a'', ''b''] \<and> map fst (cv_frames c) = [''a''] | None \<Rightarrow> False) \<and>
   (case run_events (canvas_step sample_run) [CvKernelChanged two_members, CvMounted 0 1, CvMounted 0 1, CvMounted 0 1, CvClose 1, CvClose 2] (mountCanvas ''canvas'' one_member) of
      Some c \<Rightarrow> cv_runs c = [] \<and> cv_members (cv_kernel c) = [] \<and> cv_frames c = [] \<and> cv_world c = [0] \<and> mv_state (cv_mounts c ! 0) = Up
    | None \<Rightarrow> False)"
  by code_simp

text \<open>
  A reload always unmounts the view the frame was made with, so the view of an earlier reload is never unmounted; the header
  buttons, too, stay those of the first view.
\<close>

lemma second_reload_leaks_view:
  "case run_events (canvas_step sample_run) [CvMounted 0 1, CvReload 0, CvRemounted 0, CvReload 0, CvRemounted 0, CvChipClick 0 0, CvClose 0]
     (mountCanvas ''canvas'' one_member) of
     Some c \<Rightarrow> map mv_state (cv_mounts c) = [Down, Up, Down] \<and> cv_out c = [CvUnmount 0, CvUnmount 0, CvChip 0 0, CvUnmount 2] | None \<Rightarrow> False"
  by code_simp

end
