(* ===== verification/Gl_Camera.thy ===== *)
theory Gl_Camera
  imports Canvas_View
begin

text \<open>
  The camera of the WebGL host and the disposal of a view's objects: \<^verbatim>\<open>applyCamera\<close>, \<^verbatim>\<open>resize\<close> and \<^verbatim>\<open>disposeObject3D\<close> of
  \<^verbatim>\<open>ts/src/bundles/canvas/gl_host.ts\<close>. The camera is computed over the reals from the canvas' view and the window's size; the objects
  of a view are a tree as the traversal of the scene library sees it, with tokens for what is disposed.
\<close>

section \<open>Camera\<close>

definition BASE_Z :: real where "BASE_Z = 140"

definition BASE_Y :: real where "BASE_Y = 14"

definition LOOK_Y :: real where "LOOK_Y = - 2"

record gl_camera =
  cam_fov :: real
  cam_aspect :: real
  cam_position :: "real \<times> real \<times> real"
  cam_look :: "real \<times> real \<times> real"
  cam_zoom :: real

definition new_camera :: "rat \<Rightarrow> rat \<Rightarrow> gl_camera" where
  "new_camera w h = \<lparr>cam_fov = 60, cam_aspect = of_rat (w / h), cam_position = (0, BASE_Y, BASE_Z), cam_look = (0, LOOK_Y, 0), cam_zoom = 1\<rparr>"

text \<open>World units per pixel of a window of height \<open>h\<close>.\<close>

definition wpp :: "rat \<Rightarrow> gl_camera \<Rightarrow> real" where
  "wpp h c = 2 * BASE_Z * tan (cam_fov c * pi / 180 / 2) / of_rat h"

definition applyCamera :: "rat \<Rightarrow> rat \<Rightarrow> view_state \<Rightarrow> gl_camera \<Rightarrow> gl_camera" where
  "applyCamera w h v c =
     (let cwX = (w / 2 - vw_ox v) / vw_z v; cwY = (h / 2 - vw_oy v) / vw_z v;
          lookX = of_rat (cwX - w / 2) * wpp h c; lookY = - of_rat (cwY - h / 2) * wpp h c + LOOK_Y
      in c\<lparr>cam_position := (lookX, lookY + (BASE_Y - LOOK_Y), BASE_Z), cam_zoom := of_rat (vw_z v), cam_look := (lookX, lookY, 0)\<rparr>)"

definition gl_resize :: "rat \<Rightarrow> rat \<Rightarrow> view_state \<Rightarrow> gl_camera \<Rightarrow> gl_camera" where
  "gl_resize w h v c = applyCamera w h v (c\<lparr>cam_aspect := of_rat (w / h)\<rparr>)"

text \<open>Where a point of the canvas' world lies in the scene.\<close>

definition scene_point :: "rat \<Rightarrow> rat \<Rightarrow> gl_camera \<Rightarrow> rat \<times> rat \<Rightarrow> real \<times> real \<times> real" where
  "scene_point w h c p = (of_rat (fst p - w / 2) * wpp h c, - of_rat (snd p - h / 2) * wpp h c + LOOK_Y, 0)"

lemma wpp_upd [simp]:
  "wpp h (c\<lparr>cam_position := p\<rparr>) = wpp h c" "wpp h (c\<lparr>cam_look := p\<rparr>) = wpp h c" "wpp h (c\<lparr>cam_zoom := z\<rparr>) = wpp h c"
  "wpp h (c\<lparr>cam_aspect := a\<rparr>) = wpp h c"
  by (simp_all add: wpp_def)

lemma applyCamera_look: "cam_look (applyCamera w h v c) = scene_point w h c (screenToWorld 0 0 (w / 2) (h / 2) v)"
  by (simp add: applyCamera_def scene_point_def screenToWorld_def Let_def)

lemma applyCamera_again: "applyCamera w h v (applyCamera w h v' c) = applyCamera w h v c"
  by (simp add: applyCamera_def Let_def)

lemma new_camera_wpp: "h \<noteq> 0 \<Longrightarrow> wpp h (new_camera w h) = 280 / (sqrt 3 * of_rat h)"
proof -
  have "60 * pi / 180 / 2 = pi / 6" by simp
  then show ?thesis by (simp add: wpp_def new_camera_def BASE_Z_def tan_30)
qed

text \<open>
  The scene follows the canvas. Whatever camera it starts from, \<^verbatim>\<open>applyCamera\<close> makes the camera look at the scene point of the
  canvas point under the centre of the window, with the canvas' zoom. So while the zoom settles the camera keeps looking at the
  same point and ends with the target zoom, and a pan of \<open>dx\<close>, \<open>dy\<close> pixels moves the point it looks at by the corresponding world
  distance the other way.
\<close>
theorem camera_follows_canvas:
  assumes "view_ok v"
  shows "cam_look (applyCamera w h v c) = scene_point w h c (screenToWorld 0 0 (w / 2) (h / 2) v) \<and>
    cam_look (applyCamera w h ((tick w h ^^ 10) v) (applyCamera w h v c)) = cam_look (applyCamera w h v c) \<and>
    cam_zoom (applyCamera w h ((tick w h ^^ 10) v) c) = of_rat (vw_target v) \<and>
    (case (cam_look (applyCamera w h v c), cam_look (applyCamera w h (pan_to (vw_ox v + dx) (vw_oy v + dy) v) c)) of
       ((x, y, z), (x', y', z')) \<Rightarrow> x' - x = - of_rat (dx / vw_z v) * wpp h c \<and> y' - y = of_rat (dy / vw_z v) * wpp h c \<and> z' = z)"
proof -
  have z: "vw_z v \<noteq> 0" using assms by (auto simp: view_ok_def zoom_consts)
  have "cam_zoom (applyCamera w h ((tick w h ^^ 10) v) c) = of_rat (vw_z ((tick w h ^^ 10) v))" by (simp add: applyCamera_def Let_def)
  then have "cam_zoom (applyCamera w h ((tick w h ^^ 10) v) c) = of_rat (vw_target v)" using zoom_arrives [OF assms] by simp
  moreover have "(w / 2 - (vw_ox v + dx)) / vw_z v - w / 2 = ((w / 2 - vw_ox v) / vw_z v - w / 2) - dx / vw_z v"
    "(h / 2 - (vw_oy v + dy)) / vw_z v - h / 2 = ((h / 2 - vw_oy v) / vw_z v - h / 2) - dy / vw_z v"
    using z by (simp_all add: field_simps)
  then have "of_rat ((w / 2 - (vw_ox v + dx)) / vw_z v - w / 2) = (of_rat ((w / 2 - vw_ox v) / vw_z v - w / 2) - of_rat (dx / vw_z v) :: real)"
    "of_rat ((h / 2 - (vw_oy v + dy)) / vw_z v - h / 2) = (of_rat ((h / 2 - vw_oy v) / vw_z v - h / 2) - of_rat (dy / vw_z v) :: real)"
    by (simp_all add: of_rat_diff [symmetric])
  then have "case (cam_look (applyCamera w h v c), cam_look (applyCamera w h (pan_to (vw_ox v + dx) (vw_oy v + dy) v) c)) of
       ((x, y, z), (x', y', z')) \<Rightarrow> x' - x = - of_rat (dx / vw_z v) * wpp h c \<and> y' - y = of_rat (dy / vw_z v) * wpp h c \<and> z' = z"
    by (simp add: applyCamera_def pan_to_def Let_def left_diff_distrib)
  ultimately show ?thesis using ticks_centre [OF assms]
    by (simp add: applyCamera_again) (simp add: applyCamera_look)
qed

theorem camera_follows_canvas_witness:
  "cam_zoom (applyCamera 800 600 ((tick 800 600 ^^ 10) (wheel (-1) init_view)) (new_camera 800 600)) = of_rat (105 / 100)"
  using camera_follows_canvas [OF wheel_ok [OF init_view_ok], of 800 600 "-1" "new_camera 800 600"]
  by (simp add: wheel_def init_view_def zoom_consts)

section \<open>Disposal\<close>

text \<open>An object with its geometry, its materials (a missing one is \<^const>\<open>None\<close>), each with its textures, and its children.\<close>

record gl_material =
  gm_id :: nat
  gm_textures :: "nat list"

datatype object3d = Object3D "nat option" "gl_material option list" "object3d list"

datatype disposal = DisposeGeometry nat | DisposeTexture nat | DisposeMaterial nat

definition dispose_material :: "gl_material option \<Rightarrow> disposal list" where
  "dispose_material mo =
     (case mo of None \<Rightarrow> [] | Some m \<Rightarrow> map DisposeTexture (gm_textures m) @ [DisposeMaterial (gm_id m)])"

fun disposeObject3D :: "object3d \<Rightarrow> disposal list" where
  "disposeObject3D (Object3D g ms kids) =
     (case g of Some x \<Rightarrow> [DisposeGeometry x] | None \<Rightarrow> []) @ concat (map dispose_material ms) @ concat (map disposeObject3D kids)"

text \<open>Everything a tree of objects holds.\<close>

inductive holds :: "object3d \<Rightarrow> disposal \<Rightarrow> bool" where
  geometry: "holds (Object3D (Some g) ms kids) (DisposeGeometry g)"
| material: "Some m \<in> set ms \<Longrightarrow> holds (Object3D g ms kids) (DisposeMaterial (gm_id m))"
| texture: "Some m \<in> set ms \<Longrightarrow> t \<in> set (gm_textures m) \<Longrightarrow> holds (Object3D g ms kids) (DisposeTexture t)"
| child: "k \<in> set kids \<Longrightarrow> holds k d \<Longrightarrow> holds (Object3D g ms kids) d"

inductive_cases holdsE: "holds (Object3D g ms kids) d"

lemma holds_disposed: "holds x d \<Longrightarrow> d \<in> set (disposeObject3D x)"
  by (induction rule: holds.induct) (force simp: dispose_material_def)+

lemma disposed_holds: "d \<in> set (disposeObject3D x) \<Longrightarrow> holds x d"
proof (induction x rule: disposeObject3D.induct)
  case (1 g ms kids)
  then consider "d \<in> set (case g of Some x \<Rightarrow> [DisposeGeometry x] | None \<Rightarrow> [])"
    | mo where "mo \<in> set ms" "d \<in> set (dispose_material mo)" | k where "k \<in> set kids" "d \<in> set (disposeObject3D k)" by auto
  then show ?case
    by cases (use 1 in \<open>auto simp: dispose_material_def intro: holds.intros split: option.splits\<close>)
qed

text \<open>Disposing of a view's group frees everything it holds, and nothing else.\<close>

lemma dispose_complete: "set (disposeObject3D x) = {d. holds x d}"
  using holds_disposed disposed_holds by blast

end
