(* ===== verification/Frontend.thy ===== *)
theory Frontend
  imports Loader_Props Content_Agents
begin

text \<open>
  The boot of the frontend: \<^verbatim>\<open>ts/src/main.ts\<close>. A fresh kernel gets the frontend's bundles and readmes and the bridge, the loader
  asks the host for the stored tree, and the answer is either empty (the canvas root is seeded) or loaded; then the
  loader starts to follow the tree. \<open>boot\<close> is the part after the answer has arrived.
\<close>

section \<open>The kernel before hydration\<close>

definition LOADER :: string where
  "LOADER = ''web_loader''"

definition origin :: "string \<Rightarrow> string \<Rightarrow> string" where
  "origin protocol hostname = (if protocol = ''https:'' then ''wss://'' else ''ws://'') @ hostname"

definition register_bundles :: "bundle_fn kernel \<Rightarrow> bundle_fn kernel" where
  "register_bundles k =
     registerBundle ''ai_view.ts'' NoopView (registerBundle ''terminal_view.ts'' NoopView (registerBundle ''canvas.ts'' NoopView
       (registerHtmlAgent (registerGlAgent k))))"

definition CANVAS_README :: string where
  "CANVAS_README = ''Canvas compositor (frontend root). Renders the frontend's own member tree; mounts each member inline via its view bundle, or as an iframe for external content. Not a host client.''"

definition HTML_README :: string where
  "HTML_README = ''Frontend HTML content agent. Holds a mutable `html` body in its record, rendered in a sandboxed frame; the injected connector relays send/emit/watch/onMessage to the kernel. Content, not a host client.''"

definition GL_README :: string where
  "GL_README = ''Frontend WebGL content agent. Renders its record's `gl_source` shader and reacts to events it watches by id. Content, not a host client.''"

definition TERMINAL_README :: string where
  "TERMINAL_README = ''HTML/xterm CLIENT for a host PTY. Fronts any agent answering the PTY verb surface (boot/write/ack/resize/interrupt/stop) and emitting output/exited, bound by `backend_id`: watches the backend's output, renders it, sends keystrokes via write.''"

definition AI_README :: string where
  "AI_README = ''HTML chat CLIENT for a host LLM backend. Fronts any agent answering send/history/interrupt/status, bound by `backend_id`: renders streamed token/done events, sends user turns via send.''"

definition set_readmes :: "'h kernel \<Rightarrow> 'h kernel" where
  "set_readmes k =
     setBundleReadme ''ai_view.ts'' AI_README (setBundleReadme ''terminal_view.ts'' TERMINAL_README
       (setBundleReadme ''gl_agent.ts'' GL_README (setBundleReadme ''html_agent.ts'' HTML_README
         (setBundleReadme ''canvas.ts'' CANVAS_README k))))"

definition frontend_kernel :: "int \<Rightarrow> bundle_fn kernel" where
  "frontend_kernel now = (set_readmes (register_bundles (new_kernel now)))\<lparr>bridge := True, persistenceProvider := Some LOADER\<rparr>"

section \<open>Hydration\<close>

definition canvas_root :: "bundle_fn agent" where
  "canvas_root = new_agent \<lparr>init_id = ''canvas'', init_handlerModule = Some ''canvas.ts'', init_parentId = None,
     init_sentence = Some (''Canvas compositor '' @ [CHR 0xE2, CHR 0x80, CHR 0x94] @ '' renders the frontend's own member tree.''),
     init_verbs = None, init_meta = None, init_handler = None\<rparr>"

definition boot :: "nat \<Rightarrow> nat \<Rightarrow> int \<Rightarrow> agent_record list \<Rightarrow> kernel_error + (bundle_fn kernel \<times> loader)" where
  "boot n cb now stored =
     (let k = frontend_kernel now; (l, records) = loadTree stored (new_loader LOADER) in
      case (if records = [] then Inr (setRoot canvas_root k) else load n (BareList records) k) of
        Inl e \<Rightarrow> Inl e
      | Inr k1 \<Rightarrow> Inr (addStateSubscriber cb k1, start k1 l))"

section \<open>Reloading the page\<close>

lemma ex_nth: "(\<exists>j < length xs. Q (xs ! j)) \<longleftrightarrow> (\<exists>x \<in> set xs. Q x)"
  by (metis in_set_conv_nth)

lemma flushed_forest:
  assumes s: "saveable k root" and h: "handlers k0 = handlers k"
    and rs: "list_all2 (\<lambda>r (_, a). parent_of r = parent_of (record_of (store k ! a)) \<and>
      (\<forall>x. x \<noteq> ''parent_id'' \<longrightarrow> map_of r x = map_of (record_of (store k ! a)) x)) rs (agents k)"
  shows "load_forest (bundle_installed k0) rs = tree k"
    "r \<in> set rs \<Longrightarrow> \<exists>a. get_agent k (rec_id r) = Some a \<and> (\<forall>x. x \<noteq> ''parent_id'' \<longrightarrow> map_of r x = map_of (record_of a) x)"
    "bundle_installed k0 r \<or> r \<notin> set rs" "length rs = length (agents k)"
    "r \<in> set rs \<Longrightarrow> tree k (rec_id r) = Some (rec_parent r)"
proof -
  have wf: "addresses_ok k" and ok: "\<And>i a. get_agent k i = Some a \<Longrightarrow> meta_ok a \<and>
      (\<forall>hm. handlerModule a = Some hm \<longrightarrow> map_of (handlers k) hm \<noteq> None)"
    using s by (auto simp: saveable_def kernel_wf_def)
  have ag: "get_agent k i = Some (store k ! a) \<and> ag_id (store k ! a) = i" if "(i, a) \<in> set (agents k)" for i a
    using that wf by (auto simp: get_agent_def addresses_ok_def map_of_Some_iff)
  have look: "rec_id r = i \<and> rec_parent r = parentId (store k ! a) \<and> bundle_installed k0 r"
    if "(i, a) \<in> set (agents k)" "parent_of r = parent_of (record_of (store k ! a))"
      "\<forall>x. x \<noteq> ''parent_id'' \<longrightarrow> map_of r x = map_of (record_of (store k ! a)) x" for i a r
  proof -
    have a: "get_agent k i = Some (store k ! a)" "ag_id (store k ! a) = i" using ag [OF that(1)] by simp_all
    note l = record_of_lookup [OF conjunct1 [OF ok [OF a(1)]]]
    have "rec_id r = rec_id (record_of (store k ! a))" using that(3) by (simp add: rec_id_def)
    moreover have "rec_parent r = rec_parent (record_of (store k ! a))" using that(2) by (simp add: rec_parent_def)
    moreover have "bundle_installed k0 r"
      using that(3) l(2) ok [OF a(1)] h by (cases "handlerModule (store k ! a)") (simp_all add: bundle_installed_def)
    ultimately show ?thesis using l a(2) by simp
  qed
  have len: "length rs = length (agents k)" using rs by (rule list_all2_lengthD)
  have nth: "rec_id (rs ! j) = fst (agents k ! j) \<and> rec_parent (rs ! j) = parentId (store k ! snd (agents k ! j)) \<and>
      bundle_installed k0 (rs ! j) \<and> get_agent k (fst (agents k ! j)) = Some (store k ! snd (agents k ! j)) \<and>
      (\<forall>x. x \<noteq> ''parent_id'' \<longrightarrow> map_of (rs ! j) x = map_of (record_of (store k ! snd (agents k ! j))) x)"
    if "j < length (agents k)" for j
  proof -
    have m: "(fst (agents k ! j), snd (agents k ! j)) \<in> set (agents k)" using that by simp
    have r: "parent_of (rs ! j) = parent_of (record_of (store k ! snd (agents k ! j)))"
      "\<forall>x. x \<noteq> ''parent_id'' \<longrightarrow> map_of (rs ! j) x = map_of (record_of (store k ! snd (agents k ! j))) x"
      using rs that by (auto simp: list_all2_conv_all_nth case_prod_unfold)
    show ?thesis using look [OF m r] ag [OF m] r(2) by simp
  qed
  have ids: "map rec_id rs = map fst (agents k)" by (rule nth_equalityI) (use len nth in simp_all)
  then have d: "distinct (map rec_id rs)" using wf by (simp add: addresses_ok_def)
  have reg: "(i, a) \<in> set (agents k) \<longleftrightarrow> map_of (agents k) i = Some a" for i a
    using map_of_Some_iff [of "agents k" i a] wf by (simp add: addresses_ok_def)
  have mem: "\<exists>j < length (agents k). r = rs ! j" if "r \<in> set rs" for r using that len by (metis in_set_conv_nth)
  show "length rs = length (agents k)" by (rule len)
  show "bundle_installed k0 r \<or> r \<notin> set rs" for r using mem nth by blast
  show "tree k (rec_id r) = Some (rec_parent r)" if "r \<in> set rs" for r
    using mem [OF that] nth by (fastforce simp: tree_def)
  show "\<exists>a. get_agent k (rec_id r) = Some a \<and> (\<forall>x. x \<noteq> ''parent_id'' \<longrightarrow> map_of r x = map_of (record_of a) x)" if "r \<in> set rs" for r
    using mem [OF that] nth by fastforce
  show "load_forest (bundle_installed k0) rs = tree k"
  proof
    fix i
    have "load_forest (bundle_installed k0) rs i = Some p \<longleftrightarrow> tree k i = Some p" for p
    proof -
      have "load_forest (bundle_installed k0) rs i = Some p \<longleftrightarrow> (\<exists>j < length (agents k). rec_id (rs ! j) = i \<and> rec_parent (rs ! j) = p)"
        unfolding load_forest_simps(1) [OF d] using mem nth len by (metis nth_mem)
      also have "\<dots> \<longleftrightarrow> (\<exists>j < length (agents k). fst (agents k ! j) = i \<and> parentId (store k ! snd (agents k ! j)) = p)"
        using nth by auto
      also have "\<dots> \<longleftrightarrow> (\<exists>a. (i, a) \<in> set (agents k) \<and> parentId (store k ! a) = p)"
        unfolding ex_nth [of "agents k" "\<lambda>x. fst x = i \<and> parentId (store k ! snd x) = p"] by force
      also have "\<dots> \<longleftrightarrow> tree k i = Some p"
        unfolding reg tree_def get_agent_def by (cases "map_of (agents k) i") simp_all
      finally show ?thesis .
    qed
    then show "load_forest (bundle_installed k0) rs i = tree k i" by (metis not_None_eq)
  qed
qed

lemma fold_enqueue_ids: "hostRootId (fold (enqueue k) xs l) = hostRootId l"
  by (induction xs arbitrary: l) (simp_all add: enqueue_def Let_def)

text \<open>Loading records that agree with those of a saveable tree rebuilds the tree.\<close>

lemma load_flushed:
  assumes s: "saveable k root" and h: "handlers k0 = handlers k" and n: "length (agents k) \<le> n"
    and v: "validateRecords rs CURRENT_VERSION = Inr root"
    and rs: "list_all2 (\<lambda>r (_, a). parent_of r = parent_of (record_of (store k ! a)) \<and>
      (\<forall>x. x \<noteq> ''parent_id'' \<longrightarrow> map_of r x = map_of (record_of (store k ! a)) x)) rs (agents k)"
  obtains k1 where "load n (BareList rs) k0 = Inr k1" "kernel_wf k1" "tree k1 = tree k"
    "\<And>i a. get_agent k i = Some a \<Longrightarrow> \<exists>r. map_option record_of (get_agent k1 i) = Some (norm_record r) \<and>
       (\<forall>x. x \<noteq> ''parent_id'' \<longrightarrow> map_of r x = map_of (record_of a) x)"
proof -
  note f = flushed_forest [OF s h rs]
  have one: "{i. tree k i = Some None} = {root}" and fo: "forest_ok (tree k)" using s by (simp_all add: saveable_def kernel_wf_def)
  have sn: "snapshot_records (BareList rs) = rs" by (simp add: snapshot_records_def)
  have "validateRecords (snapshot_records (BareList rs)) (snapshot_version (BareList rs)) = Inr root"
    using v by (simp add: snapshot_records_def snapshot_version_def)
  from load_result [OF this, of n k0] f(4) n obtain k1 where k1: "load n (BareList rs) k0 = Inr k1" "kernel_wf k1"
    "dom (tree k1) = (if \<exists>r \<in> set rs. rec_id r = root \<and> bundle_installed k0 r then subtree (tree k) root else {})"
    "\<forall>j \<in> dom (tree k1). \<exists>r \<in> set rs. rec_id r = j \<and> tree k1 j = Some (rec_parent r) \<and>
       map_option record_of (get_agent k1 j) = Some (norm_record r)"
    unfolding sn f(1) by auto
  have "load_forest (bundle_installed k0) rs root = Some None" using one f(1) by auto
  then obtain x where x: "map_of (map (\<lambda>r. (rec_id r, r)) rs) root = Some x" "bundle_installed k0 x"
    by (auto simp: load_forest_def find_record_def split: option.splits if_splits)
  from map_of_SomeD [OF x(1)] x(2) have "\<exists>r \<in> set rs. rec_id r = root \<and> bundle_installed k0 r" by auto
  then have dom: "dom (tree k1) = dom (tree k)" using k1(3) single_root_subtree [OF fo one] by simp
  have "tree k1 j = tree k j" for j
  proof (cases "j \<in> dom (tree k1)")
    case True
    with k1(4) obtain r where r: "r \<in> set rs" "rec_id r = j" "tree k1 j = Some (rec_parent r)" by blast
    with f(5) [OF r(1)] show ?thesis by simp
  next
    case False
    with dom have "tree k1 j = None" "tree k j = None" by blast+
    then show ?thesis by simp
  qed
  then have same: "tree k1 = tree k" ..
  have "\<exists>r. map_option record_of (get_agent k1 i) = Some (norm_record r) \<and> (\<forall>x. x \<noteq> ''parent_id'' \<longrightarrow> map_of r x = map_of (record_of a) x)"
    if "get_agent k i = Some a" for i a
  proof -
    have "i \<in> dom (tree k1)" using that dom by (auto simp: tree_def)
    with k1(4) obtain r where r: "r \<in> set rs" "rec_id r = i" "map_option record_of (get_agent k1 i) = Some (norm_record r)" by blast
    with f(2) [OF r(1)] that show ?thesis by auto
  qed
  with k1(1,2) same that show thesis by blast
qed

lemma saveable_nonempty: "saveable k root \<Longrightarrow> agents k \<noteq> []"
  by (auto simp: saveable_def tree_def get_agent_def)


definition fresh_kernel :: "bundle_fn kernel" where
  "fresh_kernel = setRoot canvas_root (frontend_kernel 0)"

lemma fresh_agents: "agents fresh_kernel = [(''canvas'', 0)]" "handlers fresh_kernel = handlers (frontend_kernel 0)"
  by code_simp+

lemma fresh_store: "store fresh_kernel = [canvas_root\<lparr>handler := Some NoopView\<rparr>]"
  by code_simp

lemma fresh_saveable: "saveable fresh_kernel ''canvas''"
proof -
  have "kernel_wf (frontend_kernel 0)"
    using kernel_wf_new [of 0]
    by (rule same_tree_wf) (simp add: same_tree_def frontend_kernel_def set_readmes_def setBundleReadme_def register_bundles_def
        registerHtmlAgent_def registerGlAgent_def registerBundle_def new_kernel_def)
  then have "kernel_wf fresh_kernel" unfolding fresh_kernel_def
    by (rule setRoot_wf) (simp add: register_ok_def canvas_root_def new_agent_def frontend_kernel_def set_readmes_def setBundleReadme_def
        register_bundles_def registerHtmlAgent_def registerGlAgent_def registerBundle_def new_kernel_def)
  moreover have "get_agent fresh_kernel i = (if i = ''canvas'' then Some (canvas_root\<lparr>handler := Some NoopView\<rparr>) else None)" for i
    by (simp add: get_agent_def fresh_agents fresh_store)
  moreover have "map_of (handlers fresh_kernel) ''canvas.ts'' \<noteq> None" by code_simp
  ultimately show ?thesis
    by (auto simp: saveable_def tree_def meta_ok_def canvas_root_def new_agent_def split: if_splits)
qed

definition web_anchor :: agent_record where
  "web_anchor = [(''id'', JStr ''ks_1''), (''alias'', JStr ''web_loader'')]"


text \<open>On a host with nothing stored but the loader's own record, the canvas root is seeded and scheduled to be persisted.\<close>

lemma fresh_boot:
  "case boot 1 7 0 [web_anchor] of
     Inr (k, l) \<Rightarrow> rootId k = Some ''canvas'' \<and> map fst (agents k) = [''canvas''] \<and> dirtyPersist l = [''canvas''] \<and> timer l \<and> stateSubscribers k = [7]
   | Inl e \<Rightarrow> False"
  by code_simp

end
