(* ===== verification/Hello.thy ===== *)
theory Hello
  imports Reflect
begin

text \<open>
  The starter page without a canvas: \<^verbatim>\<open>ts/src/hello.ts\<close>. It makes a kernel with the root \<^verbatim>\<open>frontend\<close> and a bridge, reflects
  \<^verbatim>\<open>kernel\<close> and shows the tree of the answer. The page is the record \<open>hello_page\<close>; the text of an exception is an
  argument, and an answer that is not of the type the code asserts leaves the tree empty. The lemmas show that the page never asks the host, and that names reach the page as markup.
\<close>

section \<open>Rendering a tree\<close>

text \<open>The interface \<^verbatim>\<open>TreeNode\<close>; a null or absent name or module is \<^const>\<open>None\<close>, an absent list of children is empty.\<close>

datatype TreeNode = TreeNode (tn_id: string) (tn_name: "string option") (tn_module: "string option") (tn_children: "TreeNode list")

definition dquoted :: "string \<Rightarrow> string" where
  "dquoted s = [CHR 0x22] @ s @ [CHR 0x22]"

definition span :: "string \<Rightarrow> string \<Rightarrow> string" where
  "span cls body = ''<span class='' @ dquoted cls @ ''>'' @ body @ ''</span>''"

fun renderTree :: "TreeNode \<Rightarrow> string" where
  "renderTree (TreeNode i nm hm cs) =
     (let kids = (if cs \<noteq> [] then ''<ul>'' @ concat (map renderTree cs) @ ''</ul>'' else [])
      in ''<li>'' @ span ''name'' (case nm of Some s \<Rightarrow> s | None \<Rightarrow> i) @ '' <code>'' @ i @ ''</code> '' @
         span ''hm'' (case hm of Some s \<Rightarrow> s | None \<Rightarrow> ''(root)'') @ kids @ ''</li>'')"

text \<open>
  The type assertion of the answer: the object as a \<^verbatim>\<open>TreeNode\<close>, \<^const>\<open>None\<close> where the answer is not of that type
  or nested deeper than \<open>n\<close>.
\<close>

definition opt_string :: "json option \<Rightarrow> string option option" where
  "opt_string v = (case v of None \<Rightarrow> Some None | Some JNull \<Rightarrow> Some None | Some (JStr s) \<Rightarrow> Some (Some s) | _ \<Rightarrow> None)"

fun all_some :: "'a option list \<Rightarrow> 'a list option" where
  "all_some [] = Some []"
| "all_some (x # xs) = (case x of None \<Rightarrow> None | Some y \<Rightarrow> map_option ((#) y) (all_some xs))"

fun node_of :: "nat \<Rightarrow> json \<Rightarrow> TreeNode option" where
  "node_of (Suc n) (JObj m) =
     (case (map_of m ''id'', opt_string (map_of m ''display_name''), opt_string (map_of m ''handler_module''),
         (case map_of m ''children'' of Some (JArr cs) \<Rightarrow> all_some (map (node_of n) cs) | None \<Rightarrow> Some [] | _ \<Rightarrow> None)) of
        (Some (JStr i), Some nm, Some hm, Some cs) \<Rightarrow> Some (TreeNode i nm hm cs)
      | _ \<Rightarrow> None)"
| "node_of _ _ = None"

section \<open>The page\<close>

record hello_page =
  hp_ok :: bool
  hp_msg :: string
  hp_tree :: string

definition hello_origin :: "string \<Rightarrow> string \<Rightarrow> string" where
  "hello_origin protocol hostname = (if protocol = ''https:'' then ''wss://'' else ''ws://'') @ hostname"

definition hello_blank :: hello_page where
  "hello_blank = \<lparr>hp_ok = False, hp_msg = ''connecting'' @ [CHR 0xE2, CHR 0x80, CHR 0xA6], hp_tree = []\<rparr>"

definition hello_root :: "'h agent" where
  "hello_root = new_agent \<lparr>init_id = ''frontend'', init_handlerModule = None, init_parentId = None,
     init_sentence = Some ''TS frontend kernel (starter).'', init_verbs = None, init_meta = None, init_handler = None\<rparr>"

text \<open>The constructor of the bridge installs it in the kernel.\<close>

definition hello_kernel :: "int \<Rightarrow> 'h kernel" where
  "hello_kernel now = (setRoot hello_root (new_kernel now))\<lparr>bridge := True\<rparr>"

definition hello_request :: payload where
  "hello_request = [(''type'', JStr ''reflect''), (''tree'', JStr ''all'')]"

definition federated :: "string \<Rightarrow> string \<Rightarrow> string" where
  "federated org s = ''federated '' @ [CHR 0xE2, CHR 0x86, CHR 0x92] @ '' '' @ org @ ''  '' @ [CHR 0xC2, CHR 0xB7] @ ''  '' @ s"

definition hello_failed :: "string \<Rightarrow> hello_page \<Rightarrow> hello_page" where
  "hello_failed err p = p\<lparr>hp_msg := ''failed: '' @ err\<rparr>"

text \<open>The answer has arrived: the dot turns green first, so it stays green when reading a null answer throws.\<close>

definition hello_answer :: "nat \<Rightarrow> string \<Rightarrow> string \<Rightarrow> json \<Rightarrow> hello_page \<Rightarrow> hello_page" where
  "hello_answer n err org reply p =
     (let p1 = p\<lparr>hp_ok := True\<rparr> in
      case reply of
        JNull \<Rightarrow> hello_failed err p1
      | JObj m \<Rightarrow>
          (let p2 = p1\<lparr>hp_msg := federated org (case map_of m ''sentence'' of Some (JStr s) \<Rightarrow> s | _ \<Rightarrow> [])\<rparr> in
           case map_of m ''tree'' of
             Some t \<Rightarrow> (case node_of n t of Some nd \<Rightarrow> p2\<lparr>hp_tree := renderTree nd\<rparr> | None \<Rightarrow> p2)
           | None \<Rightarrow> p2)
      | _ \<Rightarrow> p1\<lparr>hp_msg := federated org []\<rparr>)"

definition hello_run ::
    "nat \<Rightarrow> ('h \<Rightarrow> string \<Rightarrow> payload \<Rightarrow> 'h kernel \<Rightarrow> 'h kernel \<times> json) \<Rightarrow> string \<Rightarrow> string \<Rightarrow> int \<Rightarrow> 'h kernel \<times> hello_page" where
  "hello_run n run err org now =
     (let (k, r) = send n run ''kernel'' hello_request (hello_kernel now) in
      (k, case r of Settled reply \<Rightarrow> hello_answer n err org reply hello_blank
          | Threw \<Rightarrow> hello_failed err hello_blank
          | Pending \<Rightarrow> hello_blank))"

section \<open>What the page shows\<close>

text \<open>The tree object of a kernel is a \<^verbatim>\<open>TreeNode\<close>: its posture fields leave the rendered ones alone.\<close>

fun node_view :: "'h agent list \<Rightarrow> rose \<Rightarrow> TreeNode" where
  "node_view st (Rose a ts) =
     TreeNode (ag_id (st ! a)) (Some (displayName (st ! a))) (handlerModule (st ! a)) (map (node_view st) ts)"

fun height :: "rose \<Rightarrow> nat" where
  "height (Rose a ts) = Suc (Max (set (0 # map height ts)))"

lemma map_of_posture:
  assumes "x \<notin> set POSTURE_KEYS"
  shows "map_of (add_posture a ob) x = map_of ob x"
proof -
  have "map_of (fold (\<lambda>key ob. case map_of (meta a) key of Some v \<Rightarrow> AList.update key v ob | None \<Rightarrow> ob) ks ob) x = map_of ob x"
    if "x \<notin> set ks" for ks using that by (induction ks arbitrary: ob) (auto simp: map_of_update split: option.split)
  with assms show ?thesis by (simp add: add_posture_def)
qed

lemma node_object_fields:
  "map_of (node_object a ts) ''id'' = Some (JStr (ag_id a))"
  "map_of (node_object a ts) ''display_name'' = Some (JStr (displayName a))"
  "map_of (node_object a ts) ''handler_module'' = Some (json_of_opt (handlerModule a))"
  "map_of (node_object a ts) ''children'' = Some (JArr ts)"
  by (simp_all add: node_object_def Let_def map_of_update map_of_posture POSTURE_KEYS_def split: option.split)

lemma all_some_map: "(\<And>x. x \<in> set xs \<Longrightarrow> f x = Some (g x)) \<Longrightarrow> all_some (map f xs) = Some (map g xs)"
  by (induction xs) simp_all

lemma node_of_render: "height t \<le> n \<Longrightarrow> node_of n (render st t) = Some (node_view st t)"
proof (induction t arbitrary: n)
  case (Rose a ts)
  obtain m where n: "n = Suc m" and le: "Max (set (0 # map height ts)) \<le> m" using Rose.prems by (cases n) simp_all
  have "node_of m (render st t) = Some (node_view st t)" if "t \<in> set ts" for t
    using le that by (intro Rose.IH) auto
  then have "all_some (map (node_of m) (map (render st) ts)) = Some (map (node_view st) ts)"
    using all_some_map [of ts "node_of m \<circ> render st" "node_view st"] by (simp add: comp_def)
  then show ?case
    by (cases "handlerModule (st ! a)") (simp_all add: n node_object_fields opt_string_def json_of_opt_def)
qed

fun shown_ids :: "TreeNode \<Rightarrow> string list" where
  "shown_ids (TreeNode i nm hm cs) = i # concat (map shown_ids cs)"

lemma shown_ids_view: "shown_ids (node_view st t) = preorder st t"
  by (induction t) (simp cong: map_cong)

lemma height_preorder: "height t \<le> length (preorder st t)"
proof (induction t)
  case (Rose a ts)
  have "height t \<le> length (concat (map (preorder st) ts))" if "t \<in> set ts" for t
    using Rose [OF that] that by (induction ts) (auto simp: trans_le_add1 trans_le_add2 order_trans)
  then show ?case by simp
qed

text \<open>
  The answer of a kernel is rendered whole: the tree of a reflect on a well-formed kernel is a \<^verbatim>\<open>TreeNode\<close>, and the
  page has one entry for each agent below the target and no other.
\<close>

lemma hello_renders_every_agent:
  assumes wf: "kernel_wf k" and a: "map_of (agents k) i = Some a" and n: "length (agents k) \<le> n"
  shows "\<exists>t nd. treeNode n (store k) a = Some t \<and> node_of n t = Some nd \<and>
    distinct (shown_ids nd) \<and> set (shown_ids nd) = subtree (tree k) i"
proof -
  obtain t where t: "treeNode n (store k) a = Some (render (store k) t)"
    "distinct (preorder (store k) t)" "set (preorder (store k) t) = subtree (tree k) i"
    using views_correct [OF assms] by blast
  have "length (preorder (store k) t) = card (subtree (tree k) i)" using t(2,3) distinct_card by fastforce
  also have "\<dots> \<le> n" using card_subtree_agents [OF wf, of i] a n by simp
  finally have "height t \<le> n" using height_preorder [of t "store k"] by simp
  then show ?thesis using t by (auto simp: node_of_render shown_ids_view)
qed

lemma hello_root_sel [simp]:
  "ag_id hello_root = ''frontend''" "handlerModule hello_root = None" "parentId hello_root = None" "verbs hello_root = None"
  "sentence hello_root = Some ''TS frontend kernel (starter).''" "meta hello_root = []" "children hello_root = []"
  "description hello_root = None"
  by (simp_all add: hello_root_def new_agent_def description_def as_string_simps)

text \<open>
  The page never asks the host. \<^verbatim>\<open>kernel\<close> names the root of the page's own kernel, so the reflect is answered locally:
  whatever the origin, and with no socket dialled, the page reports itself federated and shows only itself.
\<close>

lemma hello_never_federates:
  fixes run :: "'h \<Rightarrow> string \<Rightarrow> payload \<Rightarrow> 'h kernel \<Rightarrow> 'h kernel \<times> json"
  shows "hello_run (Suc n) run err org now =
    (hello_kernel now, \<lparr>hp_ok = True, hp_msg = federated org ''TS frontend kernel (starter).'',
       hp_tree = renderTree (TreeNode ''frontend'' (Some ''frontend'') None [])\<rparr>) \<and>
    trace (hello_kernel now :: 'h kernel) = []"
proof -
  let ?st = "[hello_root :: 'h agent]" and ?k = "hello_kernel now :: 'h kernel"
  have k: "store ?k = ?st" "agents ?k = [(''frontend'', 0)]"
    "rootId ?k = Some ''frontend''" "trace ?k = []"
    "persistenceProvider ?k = None"
    by (simp_all add: hello_kernel_def setRoot_def hello_root_def new_agent_def new_kernel_def register_def attach_handler_def)
  have t: "treeNode (Suc n) ?st 0 = Some (render ?st (Rose 0 []))" by (simp add: treeNode_def sortedChildren_def)
  let ?m = "AList.update ''tree'' (render ?st (Rose 0 [])) (reflect_root ?k hello_root (reflectIdentity (hello_root :: 'h agent) (Some ''frontend'')))"
  have "send (Suc n) run ''kernel'' hello_request ?k = (?k, Settled (JObj ?m))"
    by (simp add: send_def Let_def resolve_def k hello_request_def str_def applyReflectFlags_def reflect_tree_def flag_def t
      reflect_readme_def reflect_bundles_def reflect_description_def del: render.simps)
  moreover have "map_of ?m ''sentence'' = Some (JStr ''TS frontend kernel (starter).'')" "map_of ?m ''tree'' = Some (render ?st (Rose 0 []))"
    by (simp_all add: reflect_root_def reflectIdentity_def map_of_update del: render.simps)
  moreover have "node_of (Suc n) (render ?st (Rose 0 [])) = Some (node_view ?st (Rose 0 []))"
    by (rule node_of_render) simp
  ultimately show ?thesis using k
    by (simp add: hello_run_def hello_answer_def hello_blank_def displayName_def del: render.simps)
qed

text \<open>Names are interpolated as they are: a name with markup in it becomes markup of the page.\<close>

lemma hello_names_are_markup:
  "renderTree (TreeNode ''a'' (Some ''<img src=x onerror=run()>'') None []) =
     ''<li>'' @ span ''name'' ''<img src=x onerror=run()>'' @ '' <code>a</code> '' @ span ''hm'' ''(root)'' @ ''</li>''"
  by simp

end
