(* ===== verification/Harness_Env.thy ===== *)
theory Harness_Env
  imports Json_Text
begin

text \<open>
  The environment of the integration harness: \<^verbatim>\<open>integration_tests/py_ts/_host.ts\<close>, lines 24 to 236. Which target and which
  model backend a run uses, the parser of the repository's \<^verbatim>\<open>.env\<close>, and what of it reaches the daemon the harness starts. The
  process environment and the text of \<^verbatim>\<open>.env\<close> are fields of \<open>harness_env\<close>; a \<^verbatim>\<open>.env\<close> that cannot be read is \<^const>\<open>None\<close>.
  Paths are joined with a slash; the repository root carries none at its end.
\<close>

section \<open>Configuration\<close>

record harness_env =
  he_process :: "(string \<times> string) list"
  he_dotenv :: "string option"
  he_engines :: "string list"
  he_root :: string
  he_tmpdir :: string
  he_pid :: nat

definition env_or :: "harness_env \<Rightarrow> string \<Rightarrow> string \<Rightarrow> string" where
  "env_or he name fallback = (case map_of (he_process he) name of Some v \<Rightarrow> v | None \<Rightarrow> fallback)"

definition TARGET :: "harness_env \<Rightarrow> string" where
  "TARGET he = map to_lower (js_trim (env_or he ''FANTASTIC_TARGET'' ''local''))"

definition IMAGE :: "harness_env \<Rightarrow> string" where
  "IMAGE he = env_or he ''FANTASTIC_IMAGE'' ''fantastic:latest''"

definition CONTAINER_BIN :: string where "CONTAINER_BIN = ''/opt/fantastic/venv/bin/fantastic''"

definition CONTAINER_DIST :: string where "CONTAINER_DIST = ''/work/dist''"

definition LLM_BACKEND :: "harness_env \<Rightarrow> string" where
  "LLM_BACKEND he = map to_lower (env_or he ''LLM_BACKEND'' ''claude'')"

definition in_container :: "harness_env \<Rightarrow> bool" where
  "in_container he = (TARGET he = ''container'')"

text \<open>The first of the two engines whose \<^verbatim>\<open>--version\<close> exits with 0; \<open>he_engines\<close> lists those that do.\<close>

definition resolveEngine :: "harness_env \<Rightarrow> string option" where
  "resolveEngine he = find (\<lambda>e. e \<in> set (he_engines he)) [''podman'', ''docker'']"

definition path_join :: "string list \<Rightarrow> string" where
  "path_join parts = foldl (\<lambda>p q. p @ ''/'' @ q) (hd parts) (tl parts)"

definition DIST_DIR :: "harness_env \<Rightarrow> string" where
  "DIST_DIR he = path_join [he_root he, ''ts'', ''dist'']"

section \<open>The .env parser\<close>

fun split_lines :: "string \<Rightarrow> string list" where
  "split_lines [] = [[]]"
| "split_lines (c # s) =
     (if c = CHR 0x0A then [] # split_lines s
      else case split_lines s of p # ps \<Rightarrow> (c # p) # ps | [] \<Rightarrow> [[c]])"

text \<open>\<^verbatim>\<open>replace(/^export\s+/, "")\<close>: at least one space after the word.\<close>

definition strip_export :: "string \<Rightarrow> string" where
  "strip_export l =
     (if take 6 l = ''export'' \<and> strip_front js_spaces (drop 6 l) \<noteq> drop 6 l then strip_front js_spaces (drop 6 l) else l)"

definition unquote :: "string \<Rightarrow> string" where
  "unquote v =
     (if js_length v \<ge> 2 \<and> hd v = last v \<and> (hd v = CHR 0x22 \<or> hd v = CHR 0x27) then butlast (tl v) else v)"

definition dotenv_line :: "string \<Rightarrow> (string \<times> string) option" where
  "dotenv_line raw =
     (let l = strip_export (js_trim raw) in
      if l = [] \<or> hd l = CHR ''#'' \<or> CHR ''='' \<notin> set l then None
      else (let k = js_trim (takeWhile (\<lambda>c. c \<noteq> CHR ''='') l);
                v = unquote (js_trim (tl (dropWhile (\<lambda>c. c \<noteq> CHR ''='') l)))
            in if k = [] then None else Some (k, v)))"

definition set_line :: "string \<Rightarrow> (string \<times> string) list \<Rightarrow> (string \<times> string) list" where
  "set_line raw out = (case dotenv_line raw of None \<Rightarrow> out | Some (k, v) \<Rightarrow> AList.update k v out)"

definition envFromDotenv :: "harness_env \<Rightarrow> (string \<times> string) list" where
  "envFromDotenv he = (case he_dotenv he of None \<Rightarrow> [] | Some txt \<Rightarrow> fold set_line (split_lines txt) [])"

definition dotenvKey :: "harness_env \<Rightarrow> string \<Rightarrow> string option" where
  "dotenvKey he name =
     (case map_of (he_process he) name of Some v \<Rightarrow> Some v | None \<Rightarrow> map_of (envFromDotenv he) name)"

section \<open>What the daemon is given\<close>

text \<open>\<^verbatim>\<open>{ ...process.env, ...envFromDotenv() }\<close>, less the other backend's secrets.\<close>

definition daemonEnv :: "harness_env \<Rightarrow> (string \<times> string) list" where
  "daemonEnv he =
     (let env = fold (\<lambda>(k, v). AList.update k v) (envFromDotenv he) (he_process he)
      in if LLM_BACKEND he = ''ollama''
         then AList.delete ''ANTHROPIC_API_KEY'' (AList.delete ''ANTHROPIC_KEY'' env) else env)"

definition forward_keys :: "harness_env \<Rightarrow> string list" where
  "forward_keys he =
     (if LLM_BACKEND he = ''ollama'' then [''OLLAMA_HOST''] else [''ANTHROPIC_KEY'', ''ANTHROPIC_API_KEY'', ''OLLAMA_HOST''])"

definition forward_args :: "harness_env \<Rightarrow> string list" where
  "forward_args he =
     concat (map (\<lambda>k. case map_of (envFromDotenv he) k of
        Some v \<Rightarrow> if v \<noteq> [] then [''-e'', k @ ''='' @ v] else [] | None \<Rightarrow> []) (forward_keys he))"

definition containerRunArgs :: "harness_env \<Rightarrow> string \<Rightarrow> nat \<Rightarrow> string \<Rightarrow> bool \<Rightarrow> string list" where
  "containerRunArgs he name port tmp serveDist =
     [''run'', ''-d'', ''--name'', name, ''-p'', ''127.0.0.1:'' @ show_nat port @ '':'' @ show_nat port,
      ''-v'', tmp @ '':/work'', ''-e'', ''FANTASTIC_RUNTIME=python'', ''-e'', ''FANTASTIC_PORT='' @ show_nat port] @
     (if serveDist then [''-v'', DIST_DIR he @ '':'' @ CONTAINER_DIST @ '':ro''] else []) @
     forward_args he @ [IMAGE he]"

section \<open>Is the backend reachable?\<close>

definition active_model :: "harness_env \<Rightarrow> string" where
  "active_model he =
     (if LLM_BACKEND he = ''ollama'' then env_or he ''OLLAMA_MODEL'' ''gemma4:12b''
      else env_or he ''ANTHROPIC_MODEL'' ''claude-opus-4-8'')"

text \<open>
  What a \<^verbatim>\<open>fetch\<close> brings: nothing (it threw or timed out), or a status and the names in the body's \<^verbatim>\<open>models\<close> list
  (\<^const>\<open>None\<close> for a model without a name; an absent list is empty).
\<close>

record tags_reply =
  tr_ok :: bool
  tr_names :: "string option list"

definition model_matches :: "string \<Rightarrow> string option \<Rightarrow> bool" where
  "model_matches want name =
     (name = Some want \<or>
      (let n = (case name of Some n \<Rightarrow> n | None \<Rightarrow> []); p = takeWhile (\<lambda>c. c \<noteq> CHR '':'') want @ '':''
       in take (length p) n = p))"

definition llmReachable :: "harness_env \<Rightarrow> tags_reply option \<Rightarrow> bool \<Rightarrow> bool" where
  "llmReachable he tags anthropic_answers =
     (if LLM_BACKEND he = ''ollama'' then
        (case tags of None \<Rightarrow> False | Some r \<Rightarrow> tr_ok r \<and> list_ex (model_matches (active_model he)) (tr_names r))
      else if dotenvKey he ''ANTHROPIC_KEY'' \<in> {None, Some []} \<and> dotenvKey he ''ANTHROPIC_API_KEY'' \<in> {None, Some []} then False
      else anthropic_answers)"

section \<open>The parser reads back what a writer writes\<close>

definition dotenv_entry :: "string \<times> string \<Rightarrow> string" where
  "dotenv_entry kv = fst kv @ ''='' @ [CHR 0x22] @ snd kv @ [CHR 0x22]"

fun unlines :: "string list \<Rightarrow> string" where
  "unlines [] = []"
| "unlines [l] = l"
| "unlines (l # ls) = l @ CHR 0x0A # unlines ls"

definition dotenv_text :: "(string \<times> string) list \<Rightarrow> string" where
  "dotenv_text kvs = unlines (map dotenv_entry kvs)"

definition plain_name :: "string \<Rightarrow> bool" where
  "plain_name k = (k \<noteq> [] \<and> js_trim k = k \<and> strip_export k = k \<and> hd k \<noteq> CHR ''#'' \<and> CHR ''='' \<notin> set k \<and> CHR 0x0A \<notin> set k)"

lemma take_before: "take (length p) (k @ c # r) = p \<Longrightarrow> c \<notin> set p \<Longrightarrow> take (length p) k = p"
proof (induction p arbitrary: k)
  case (Cons a p)
  then show ?case by (cases k) auto
qed simp

lemma strip_front_None: "find (\<lambda>p. p \<noteq> [] \<and> take (length p) t = p) sps = None \<Longrightarrow> strip_front sps t = t"
  by (subst strip_front.simps) simp

lemma strip_front_length: "length (strip_front sps t) \<le> length t"
proof (induction sps t rule: strip_front.induct)
  case (1 sps t)
  show ?case
  proof (cases "find (\<lambda>p. p \<noteq> [] \<and> take (length p) t = p) sps")
    case (Some p)
    with 1 [OF Some] show ?thesis by (subst strip_front.simps) simp
  qed (simp add: strip_front_None)
qed

lemma strip_front_fixed:
  "strip_front sps t = t \<longleftrightarrow> find (\<lambda>p. p \<noteq> [] \<and> take (length p) t = p) sps = None"
proof
  assume e: "strip_front sps t = t"
  show "find (\<lambda>p. p \<noteq> [] \<and> take (length p) t = p) sps = None"
  proof (rule ccontr)
    assume "find (\<lambda>p. p \<noteq> [] \<and> take (length p) t = p) sps \<noteq> None"
    then obtain p where p: "find (\<lambda>p. p \<noteq> [] \<and> take (length p) t = p) sps = Some p" by blast
    then have "p \<noteq> []" "take (length p) t = p" by (auto simp: find_Some_iff)
    then have "length (drop (length p) t) < length t" by (cases t) auto
    moreover have "t = strip_front sps (drop (length p) t)" using e p by (subst (asm) strip_front.simps) simp
    ultimately show False using strip_front_length [of sps "drop (length p) t"] by simp
  qed
qed (rule strip_front_None)

lemma strip_front_before:
  assumes "strip_front sps k = k" "\<And>p. p \<in> set sps \<Longrightarrow> c \<notin> set p"
  shows "strip_front sps (k @ c # r) = k @ c # r"
  using assms take_before [of _ k c r] by (auto simp: strip_front_fixed find_None_iff)

lemma strip_front_suffix: "\<exists>u. t = u @ strip_front sps t"
proof (induction sps t rule: strip_front.induct)
  case (1 sps t)
  show ?case
  proof (cases "find (\<lambda>p. p \<noteq> [] \<and> take (length p) t = p) sps")
    case (Some p)
    with 1 [OF Some] obtain u where "drop (length p) t = u @ strip_front sps (drop (length p) t)" by blast
    then have "t = (take (length p) t @ u) @ strip_front sps (drop (length p) t)"
      by (metis append.assoc append_take_drop_id)
    moreover have "strip_front sps t = strip_front sps (drop (length p) t)" using Some by (subst strip_front.simps) simp
    ultimately show ?thesis by metis
  qed (simp add: strip_front_None)
qed

lemma js_trim_fixed: "js_trim t = t \<longleftrightarrow> strip_front js_spaces t = t \<and> strip_front (map rev js_spaces) (rev t) = rev t"
proof
  assume e: "js_trim t = t"
  have "length t = length (js_trim t)" using e by simp
  also have "\<dots> \<le> length (strip_front js_spaces t)"
    using strip_front_length [of "map rev js_spaces" "rev (strip_front js_spaces t)"] by (simp add: js_trim_def)
  finally have "length t \<le> length (strip_front js_spaces t)" .
  moreover obtain u where "t = u @ strip_front js_spaces t" using strip_front_suffix by blast
  ultimately have f: "strip_front js_spaces t = t"
    by (metis append_Nil le_add2 le_antisym length_append length_0_conv add_cancel_right_left)
  with e have "rev (strip_front (map rev js_spaces) (rev t)) = t" by (simp add: js_trim_def)
  then have "strip_front (map rev js_spaces) (rev t) = rev t" by (metis rev_rev_ident)
  with f show "strip_front js_spaces t = t \<and> strip_front (map rev js_spaces) (rev t) = rev t" by simp
qed (simp add: js_trim_def)

text \<open>No encoding of a space has an equals sign or a double quote in it.\<close>

lemma spaces_plain: "p \<in> set js_spaces \<Longrightarrow> CHR ''='' \<notin> set p \<and> CHR 0x22 \<notin> set p"
  by (auto simp: js_spaces_def)

lemma trim_quoted: "js_trim (k @ c # w @ [CHR 0x22]) = k @ c # w @ [CHR 0x22]"
  if "strip_front js_spaces k = k" "c = CHR ''='' \<or> c = CHR 0x22"
proof -
  have "strip_front js_spaces (k @ c # (w @ [CHR 0x22])) = k @ c # (w @ [CHR 0x22])"
    using that spaces_plain by (intro strip_front_before) auto
  moreover have "strip_front (map rev js_spaces) ([] @ CHR 0x22 # (rev w @ c # rev k)) = [] @ CHR 0x22 # (rev w @ c # rev k)"
    using spaces_plain by (intro strip_front_before) (auto simp: strip_front_fixed find_None_iff)
  ultimately show ?thesis by (simp add: js_trim_fixed)
qed

lemma unquote_quoted: "unquote ([CHR 0x22] @ v @ [CHR 0x22]) = v"
proof -
  have "js_length [CHR 0x22] = 1" by code_simp
  then have "js_length ([CHR 0x22] @ v @ [CHR 0x22]) \<ge> 2" by (simp only: js_length_append)
  then show ?thesis by (simp add: unquote_def)
qed

lemma strip_export_entry:
  assumes "strip_export k = k" "k \<noteq> []" "CHR ''='' \<notin> set k"
  shows "strip_export (k @ ''='' @ r) = k @ ''='' @ r"
proof -
  have False if t: "take 6 (k @ CHR ''='' # r) = ''export''"
    and s: "strip_front js_spaces (drop 6 (k @ CHR ''='' # r)) \<noteq> drop 6 (k @ CHR ''='' # r)"
  proof -
    have six: "length ''export'' = 6" by simp
    have k: "take 6 k = ''export''" using take_before [of "''export''" k "CHR ''=''" r, unfolded six] t by fastforce
    then have "length (take 6 k) = 6" by (simp only: six)
    then have l: "6 \<le> length k" by simp
    then have d: "drop 6 (k @ CHR ''='' # r) = drop 6 k @ CHR ''='' # r" by simp
    have "strip_front js_spaces (drop 6 k) = drop 6 k"
    proof (rule ccontr)
      assume n: "strip_front js_spaces (drop 6 k) \<noteq> drop 6 k"
      then have "strip_front js_spaces (drop 6 k) = k" using assms(1) k by (simp add: strip_export_def)
      with strip_front_length [of js_spaces "drop 6 k"] l show False by simp
    qed
    then have "strip_front js_spaces (drop 6 k @ CHR ''='' # r) = drop 6 k @ CHR ''='' # r"
      using spaces_plain by (intro strip_front_before) auto
    with s d show False by simp
  qed
  then show ?thesis by (auto simp: strip_export_def)
qed

lemma dotenv_line_entry:
  assumes "plain_name k"
  shows "dotenv_line (dotenv_entry (k, v)) = Some (k, v)"
proof -
  let ?l = "k @ ''='' @ [CHR 0x22] @ v @ [CHR 0x22]"
  have k: "k \<noteq> []" "hd k \<noteq> CHR ''#''" "CHR ''='' \<notin> set k" "js_trim k = k" "strip_front js_spaces k = k" "strip_export k = k"
    using assms by (auto simp: plain_name_def js_trim_fixed)
  have "js_trim (k @ CHR ''='' # ([CHR 0x22] @ v) @ [CHR 0x22]) = k @ CHR ''='' # ([CHR 0x22] @ v) @ [CHR 0x22]"
    using k(5) by (intro trim_quoted) simp_all
  then have l: "js_trim (dotenv_entry (k, v)) = ?l" by (simp add: dotenv_entry_def)
  have e: "strip_export ?l = ?l" by (rule strip_export_entry [OF k(6,1,3)])
  have tw: "takeWhile (\<lambda>c. c \<noteq> CHR ''='') ?l = k" "dropWhile (\<lambda>c. c \<noteq> CHR ''='') ?l = ''='' @ [CHR 0x22] @ v @ [CHR 0x22]"
    using k(3) by (auto simp: takeWhile_append dropWhile_append)
  have "js_trim ([] @ CHR 0x22 # v @ [CHR 0x22]) = [] @ CHR 0x22 # v @ [CHR 0x22]"
    by (rule trim_quoted) (simp_all add: strip_front_fixed find_None_iff)
  then have v: "js_trim ([CHR 0x22] @ v @ [CHR 0x22]) = [CHR 0x22] @ v @ [CHR 0x22]" by simp
  have ne: "?l \<noteq> []" "hd ?l \<noteq> CHR ''#''" "CHR ''='' \<in> set ?l" using k by simp_all
  have "tl (''='' @ [CHR 0x22] @ v @ [CHR 0x22]) = [CHR 0x22] @ v @ [CHR 0x22]" by simp
  then show ?thesis unfolding dotenv_line_def l e Let_def tw using ne k(1,4) v unquote_quoted [of v] by simp
qed

lemma split_lines_nonempty: "split_lines s \<noteq> []"
  by (cases s) (auto split: list.split)

lemma split_lines_line: "CHR 0x0A \<notin> set l \<Longrightarrow> split_lines l = [l]"
  by (induction l) auto

lemma split_lines_append: "CHR 0x0A \<notin> set l \<Longrightarrow> split_lines (l @ CHR 0x0A # s) = l # split_lines s"
  by (induction l) (auto simp: split_lines_nonempty split: list.split)

lemma split_unlines: "ls \<noteq> [] \<Longrightarrow> \<forall>l\<in>set ls. CHR 0x0A \<notin> set l \<Longrightarrow> split_lines (unlines ls) = ls"
  by (induction ls rule: unlines.induct) (simp_all add: split_lines_line split_lines_append)

lemma set_lines_entries:
  "\<forall>kv\<in>set kvs. plain_name (fst kv) \<Longrightarrow> distinct (map fst (out @ kvs)) \<Longrightarrow> fold set_line (map dotenv_entry kvs) out = out @ kvs"
proof (induction kvs arbitrary: out)
  case (Cons kv kvs)
  then have "set_line (dotenv_entry kv) out = out @ [kv]"
    using dotenv_line_entry [of "fst kv" "snd kv"] by (cases kv) (simp add: set_line_def update_fresh)
  with Cons.IH [of "out @ [kv]"] Cons.prems show ?case by simp
qed simp

text \<open>
  The \<^verbatim>\<open>.env\<close> parser reads back what is written. A file of lines \<^verbatim>\<open>NAME="value"\<close> with distinct plain names (no surrounding
  space, no \<^verbatim>\<open>=\<close>, no leading \<^verbatim>\<open>#\<close> and no \<^verbatim>\<open>export\<close> prefix) and values of any text on one line, quotes and equals signs included,
  yields exactly those names and values in order.
\<close>
theorem dotenv_roundtrip:
  assumes "he_dotenv he = Some (dotenv_text kvs)" "\<forall>kv\<in>set kvs. plain_name (fst kv) \<and> CHR 0x0A \<notin> set (snd kv)"
    and "distinct (map fst kvs)"
  shows "envFromDotenv he = kvs"
proof (cases "kvs = []")
  case True
  have "dotenv_line [] = None" by code_simp
  with True assms(1) show ?thesis by (simp add: envFromDotenv_def dotenv_text_def set_line_def)
next
  case False
  have "\<forall>l\<in>set (map dotenv_entry kvs). CHR 0x0A \<notin> set l" using assms(2) by (auto simp: dotenv_entry_def plain_name_def)
  with False have "split_lines (dotenv_text kvs) = map dotenv_entry kvs" by (simp add: dotenv_text_def split_unlines)
  with assms set_lines_entries [of kvs "[]"] show ?thesis by (simp add: envFromDotenv_def)
qed

definition sample_he :: harness_env where
  "sample_he = \<lparr>he_process = [(''LLM_BACKEND'', ''Ollama''), (''ANTHROPIC_KEY'', ''p'')],
     he_dotenv = Some (dotenv_text [(''ANTHROPIC_KEY'', ''s=1''), (''OLLAMA_HOST'', ''box'')]),
     he_engines = [''docker''], he_root = ''/r'', he_tmpdir = ''/tmp'', he_pid = 7\<rparr>"

theorem dotenv_roundtrip_witness:
  "envFromDotenv sample_he = [(''ANTHROPIC_KEY'', ''s=1''), (''OLLAMA_HOST'', ''box'')]"
proof (rule dotenv_roundtrip)
  have "plain_name ''ANTHROPIC_KEY'' \<and> plain_name ''OLLAMA_HOST''" by code_simp
  then show "\<forall>kv\<in>set [(''ANTHROPIC_KEY'', ''s=1''), (''OLLAMA_HOST'', ''box'')]. plain_name (fst kv) \<and> CHR 0x0A \<notin> set (snd kv)"
    by simp
qed (simp_all add: sample_he_def)

end
