(* ===== verification/Harness_Host.thy ===== *)
theory Harness_Host
  imports Harness_Env
begin

text \<open>
  The host processes of the integration harness: \<^verbatim>\<open>integration_tests/py_ts/_host.ts\<close> from line 238. Everything the code asks of
  the operating system is an \<open>sys_op\<close> and is answered by a parameter \<open>os\<close>, any function of what happened before; the trace keeps
  every request with its answer. \<open>Engine args\<close> runs the container engine; without one the module does not load in container mode. A step that throws ends the computation with \<open>Thrown\<close>; a wait for a port that has neither
  succeeded nor run out of time when its observations end is \<open>Waiting\<close>.
\<close>

section \<open>Requests and computations\<close>

datatype sys_op =
    StatBin
  | MkDir string
  | MkTemp string
  | Cli string "string list"
  | Engine "string list"
  | CopyDist string
  | StartDaemon string "(string \<times> string) list"
  | KillDaemon
  | RmDir string
  | WriteFile string string

record sys_answer =
  sa_ok :: bool
  sa_out :: "string option"
  sa_err :: "string option"

type_synonym sys_trace = "(sys_op \<times> sys_answer) list"

type_synonym os = "sys_trace \<Rightarrow> sys_op \<Rightarrow> sys_answer"

datatype failure = Thrown string | Waiting

type_synonym 'a io = "sys_trace \<Rightarrow> sys_trace \<times> (failure + 'a)"

definition io_return :: "'a \<Rightarrow> 'a io" where "io_return x tr = (tr, Inr x)"

definition io_fail :: "failure \<Rightarrow> 'a io" where "io_fail f tr = (tr, Inl f)"

definition io_bind :: "'a io \<Rightarrow> ('a \<Rightarrow> 'b io) \<Rightarrow> 'b io" where
  "io_bind m f tr = (case m tr of (tr', Inl e) \<Rightarrow> (tr', Inl e) | (tr', Inr x) \<Rightarrow> f x tr')"

definition ask :: "os \<Rightarrow> sys_op \<Rightarrow> sys_answer io" where
  "ask os q tr = (let a = os tr q in (tr @ [(q, a)], Inr a))"

definition perform :: "os \<Rightarrow> sys_op \<Rightarrow> unit io" where
  "perform os q = io_bind (ask os q) (\<lambda>_. io_return ())"

definition io_when :: "bool \<Rightarrow> 'a io \<Rightarrow> 'a option io" where
  "io_when b m = (if b then io_bind m (\<lambda>x. io_return (Some x)) else io_return None)"

section \<open>One-shot commands\<close>

text \<open>\<^verbatim>\<open>`${r.stderr || r.stdout}`\<close>.\<close>

definition complaint :: "sys_answer \<Rightarrow> string" where
  "complaint a =
     (case sa_err a of
        Some (c # cs) \<Rightarrow> c # cs
      | _ \<Rightarrow> (case sa_out a of Some s \<Rightarrow> s | None \<Rightarrow> ''null''))"

definition text_of :: "string option \<Rightarrow> string" where
  "text_of s = (case s of Some t \<Rightarrow> t | None \<Rightarrow> ''null'')"

definition fantasticAvailable :: "harness_env \<Rightarrow> os \<Rightarrow> bool io" where
  "fantasticAvailable he os =
     io_bind (ask os (if in_container he then Engine [''image'', ''inspect'', IMAGE he] else StatBin)) (\<lambda>a. io_return (sa_ok a))"

definition one_shot :: "harness_env \<Rightarrow> string \<Rightarrow> string list \<Rightarrow> sys_op" where
  "one_shot he tmp args =
     (if in_container he
      then Engine ([''run'', ''--rm'', ''-v'', tmp @ '':/work'', ''-w'', ''/work'', ''--entrypoint'', CONTAINER_BIN, IMAGE he] @ args)
      else Cli tmp args)"

definition runCli :: "harness_env \<Rightarrow> os \<Rightarrow> string \<Rightarrow> string list \<Rightarrow> string io" where
  "runCli he os tmp args =
     io_bind (ask os (one_shot he tmp args)) (\<lambda>a.
       if \<not> sa_ok a then io_fail (Thrown (''fantastic '' @ concat (map (\<lambda>x. x @ '' '') args) @ ''failed: '' @ complaint a))
       else io_return (text_of (sa_out a) @ CHR 0x0A # text_of (sa_err a)))"

text \<open>
  \<^verbatim>\<open>extractId\<close>: the first match of \<^verbatim>\<open>"id":\s*"(prefix_[0-9a-f]+)"\<close>. The prefixes are bundle names, which stand for themselves in
  a regular expression.
\<close>

definition is_hex :: "char \<Rightarrow> bool" where
  "is_hex c = (c \<in> set ''0123456789abcdef'')"

definition after_prefix :: "string \<Rightarrow> string \<Rightarrow> string option" where
  "after_prefix p s = (if take (length p) s = p then Some (drop (length p) s) else None)"

definition id_here :: "string \<Rightarrow> string \<Rightarrow> string option" where
  "id_here prefix s =
     (case after_prefix ([CHR 0x22] @ ''id'' @ [CHR 0x22] @ '':'') s of
        None \<Rightarrow> None
      | Some r \<Rightarrow>
          (case after_prefix ([CHR 0x22] @ prefix @ ''_'') (strip_front js_spaces r) of
             None \<Rightarrow> None
           | Some r' \<Rightarrow>
               (let h = takeWhile is_hex r'; rest = dropWhile is_hex r'
                in if h \<noteq> [] \<and> rest \<noteq> [] \<and> hd rest = CHR 0x22 then Some (prefix @ ''_'' @ h) else None)))"

fun first_id :: "string \<Rightarrow> string \<Rightarrow> string option" where
  "first_id prefix [] = id_here prefix []"
| "first_id prefix (c # cs) = (case id_here prefix (c # cs) of Some i \<Rightarrow> Some i | None \<Rightarrow> first_id prefix cs)"

definition extractId :: "string \<Rightarrow> string \<Rightarrow> string io" where
  "extractId out prefix =
     (case first_id prefix out of
        None \<Rightarrow> io_fail (Thrown (''could not find '' @ prefix @ ''_* id in: '' @ out))
      | Some i \<Rightarrow> io_return i)"

definition create :: "harness_env \<Rightarrow> os \<Rightarrow> string \<Rightarrow> string list \<Rightarrow> string \<Rightarrow> string io" where
  "create he os tmp args prefix = io_bind (runCli he os tmp args) (\<lambda>out. extractId out prefix)"

text \<open>
  \<^verbatim>\<open>waitForPort\<close>: one observation per round, the time since the start when the loop condition is tested and whether the
  \<^verbatim>\<open>fetch\<close> of that round answered with an ok status.
\<close>

fun waitForPort :: "nat \<Rightarrow> nat \<Rightarrow> (nat \<times> bool) list \<Rightarrow> unit io" where
  "waitForPort port ms [] = io_fail Waiting"
| "waitForPort port ms ((t, up) # rounds) =
     (if t < ms then (if up then io_return () else waitForPort port ms rounds)
      else io_fail (Thrown (''host did not come up on :'' @ show_nat port @ '' within '' @ show_nat ms @ ''ms'')))"

section \<open>Booting a host\<close>

record llm_options =
  lo_bundle :: "string option"
  lo_model :: "string option"
  lo_endpoint :: "string option"
  lo_num_ctx :: "nat option"

record boot_options =
  bo_webLoader :: bool
  bo_serveDist :: bool
  bo_pythonRuntime :: bool
  bo_llm :: "llm_options option"
  bo_scheduler :: bool

record harness_host =
  hh_port :: nat
  hh_webId :: string
  hh_webWsId :: string
  hh_webLoaderId :: "string option"
  hh_pyId :: "string option"
  hh_ollamaId :: "string option"
  hh_schedulerId :: "string option"
  hh_tmp :: string
  hh_container :: "string option"
  hh_serveDist :: bool

definition hh_origin :: "harness_host \<Rightarrow> string" where
  "hh_origin h = ''ws://127.0.0.1:'' @ show_nat (hh_port h)"

definition hh_httpOrigin :: "harness_host \<Rightarrow> string" where
  "hh_httpOrigin h = ''http://127.0.0.1:'' @ show_nat (hh_port h)"

definition files_args :: "string \<Rightarrow> string \<Rightarrow> string list" where
  "files_args i root =
     [''kernel_state'', ''create_agent'', ''handler_module=file_bridge.tools'', ''id='' @ i, ''root='' @ root, ''ingress_rule=allow_all'']"

definition web_args :: "nat \<Rightarrow> string list" where
  "web_args port = [''kernel_state'', ''create_agent'', ''handler_module=web.tools'', ''port='' @ show_nat port]"

definition ws_args :: "string \<Rightarrow> string list" where
  "ws_args webId = [webId, ''create_agent'', ''handler_module=web_ws.tools'', ''ingress_rule=allow_all'']"

definition loader_args :: "string \<Rightarrow> string list" where
  "loader_args webId =
     [webId, ''create_agent'', ''handler_module=kernel_state.tools'', ''root=.fantastic/web'', ''watch=false'', ''alias=web_loader'']"

definition dist_args :: "string \<Rightarrow> string \<Rightarrow> string list" where
  "dist_args webId distRoot =
     [webId, ''create_agent'', ''handler_module=file_bridge.tools'', ''id=ts_dist'', ''root='' @ distRoot, ''ingress_rule=allow_all'']"

definition python_args :: "string list" where
  "python_args = [''kernel_state'', ''create_agent'', ''handler_module=python_runtime.tools'']"

definition non_empty :: "string \<Rightarrow> string option \<Rightarrow> string list" where
  "non_empty key v = (case v of Some s \<Rightarrow> if s \<noteq> [] then [key @ ''='' @ s] else [] | None \<Rightarrow> [])"

definition llm_bundle :: "llm_options \<Rightarrow> string" where
  "llm_bundle l = (case lo_bundle l of Some b \<Rightarrow> b | None \<Rightarrow> ''ollama_backend.tools'')"

definition llm_args :: "llm_options \<Rightarrow> string list" where
  "llm_args l =
     [''kernel_state'', ''create_agent'', ''handler_module='' @ llm_bundle l, ''file_bridge_id=llm_files''] @
     non_empty ''model'' (lo_model l) @ non_empty ''endpoint'' (lo_endpoint l) @
     (case lo_num_ctx l of Some n \<Rightarrow> if n \<noteq> 0 then [''num_ctx='' @ show_nat n] else [] | None \<Rightarrow> [])"

definition sched_args :: "string list" where
  "sched_args = [''kernel_state'', ''create_agent'', ''handler_module=scheduler.tools'', ''file_bridge_id=sched_files'']"

text \<open>\<^verbatim>\<open>bundle.replace(/\.tools$/, "")\<close>.\<close>

definition strip_tools :: "string \<Rightarrow> string" where
  "strip_tools b =
     (if length b \<ge> 6 \<and> drop (length b - 6) b = ''.tools'' then take (length b - 6) b else b)"

definition seed_dist :: "harness_env \<Rightarrow> os \<Rightarrow> string \<Rightarrow> string \<Rightarrow> string io" where
  "seed_dist he os tmp webId =
     io_bind (if in_container he then io_return ''dist''
              else io_bind (perform os (CopyDist (path_join [tmp, ''ts_dist_src'']))) (\<lambda>_. io_return ''ts_dist_src''))
       (\<lambda>distRoot. runCli he os tmp (dist_args webId distRoot))"

definition seed_llm :: "harness_env \<Rightarrow> os \<Rightarrow> string \<Rightarrow> llm_options \<Rightarrow> string io" where
  "seed_llm he os tmp l =
     io_bind (runCli he os tmp (files_args ''llm_files'' ''.fantastic''))
       (\<lambda>_. create he os tmp (llm_args l) (strip_tools (llm_bundle l)))"

definition seed_sched :: "harness_env \<Rightarrow> os \<Rightarrow> string \<Rightarrow> string io" where
  "seed_sched he os tmp =
     io_bind (runCli he os tmp (files_args ''sched_files'' ''.fantastic'')) (\<lambda>_. create he os tmp sched_args ''scheduler'')"

text \<open>\<^verbatim>\<open>bootHost\<close> up to the start of the daemon: every agent is created by a one-shot command.\<close>

definition seed_host :: "harness_env \<Rightarrow> os \<Rightarrow> nat \<Rightarrow> boot_options \<Rightarrow> string \<Rightarrow> harness_host io" where
  "seed_host he os port opts tmp =
     io_bind (runCli he os tmp (files_args ''store'' ''.fantastic'')) (\<lambda>_.
     io_bind (create he os tmp (web_args port) ''web'') (\<lambda>webId.
     io_bind (create he os tmp (ws_args webId) ''web_ws'') (\<lambda>webWsId.
     io_bind (io_when (bo_webLoader opts) (create he os tmp (loader_args webId) ''kernel_state'')) (\<lambda>webLoaderId.
     io_bind (io_when (bo_serveDist opts) (seed_dist he os tmp webId)) (\<lambda>_.
     io_bind (io_when (bo_pythonRuntime opts \<or> bo_llm opts \<noteq> None) (create he os tmp python_args ''python_runtime'')) (\<lambda>pyId.
     io_bind (case bo_llm opts of None \<Rightarrow> io_return None | Some l \<Rightarrow> io_when True (seed_llm he os tmp l)) (\<lambda>ollamaId.
     io_bind (io_when (bo_scheduler opts) (seed_sched he os tmp)) (\<lambda>schedulerId.
       io_return \<lparr>hh_port = port, hh_webId = webId, hh_webWsId = webWsId, hh_webLoaderId = webLoaderId, hh_pyId = pyId,
         hh_ollamaId = ollamaId, hh_schedulerId = schedulerId, hh_tmp = tmp,
         hh_container = (if in_container he then Some (''fte2e-'' @ show_nat port @ ''-'' @ show_nat (he_pid he)) else None),
         hh_serveDist = bo_serveDist opts\<rparr>))))))))"

definition teardownHost :: "os \<Rightarrow> harness_host \<Rightarrow> unit io" where
  "teardownHost os h =
     io_bind (case hh_container h of
         Some c \<Rightarrow> io_bind (perform os (Engine [''stop'', ''-t'', ''8'', c])) (\<lambda>_. perform os (Engine [''rm'', ''-f'', c]))
       | None \<Rightarrow> perform os KillDaemon)
     (\<lambda>_. perform os (RmDir (hh_tmp h)))"

definition start_container :: "harness_env \<Rightarrow> os \<Rightarrow> string \<Rightarrow> string \<Rightarrow> harness_host \<Rightarrow> unit io" where
  "start_container he os what c h =
     io_bind (ask os (Engine (containerRunArgs he c (hh_port h) (hh_tmp h) (hh_serveDist h)))) (\<lambda>a.
       if sa_ok a then io_return () else io_fail (Thrown (what @ complaint a)))"

definition spawn_daemon :: "harness_env \<Rightarrow> os \<Rightarrow> harness_host \<Rightarrow> unit io" where
  "spawn_daemon he os h =
     (case hh_container h of
        Some c \<Rightarrow> io_bind (perform os (Engine [''rm'', ''-f'', c]))
          (\<lambda>_. start_container he os (''container start failed (:'' @ show_nat (hh_port h) @ ''): '') c h)
      | None \<Rightarrow> perform os (StartDaemon (hh_tmp h) (daemonEnv he)))"

text \<open>\<^verbatim>\<open>try { await waitForPort(...) } catch (e) { teardownHost(host); throw e; }\<close>\<close>

definition await_up :: "os \<Rightarrow> (nat \<times> bool) list \<Rightarrow> harness_host \<Rightarrow> harness_host io" where
  "await_up os rounds h tr =
     (case waitForPort (hh_port h) 30000 rounds tr of
        (tr', Inr _) \<Rightarrow> (tr', Inr h)
      | (tr', Inl (Thrown e)) \<Rightarrow> io_bind (teardownHost os h) (\<lambda>_. io_fail (Thrown e)) tr'
      | (tr', Inl Waiting) \<Rightarrow> (tr', Inl Waiting))"

definition make_tmp :: "harness_env \<Rightarrow> os \<Rightarrow> string io" where
  "make_tmp he os =
     (let tmpBase = (if in_container he then path_join [he_root he, ''integration_tests'', ''py_ts'', ''tmp''] else he_tmpdir he)
      in io_bind (if in_container he then perform os (MkDir tmpBase) else io_return ())
         (\<lambda>_. io_bind (ask os (MkTemp (path_join [tmpBase, ''ftbridge-'']))) (\<lambda>a. io_return (text_of (sa_out a)))))"

definition bootHost :: "harness_env \<Rightarrow> os \<Rightarrow> (nat \<times> bool) list \<Rightarrow> nat \<Rightarrow> boot_options \<Rightarrow> harness_host io" where
  "bootHost he os rounds port opts =
     io_bind (fantasticAvailable he os) (\<lambda>there.
       if \<not> there then io_fail (Thrown (''no fantastic bin at '' @ path_join [he_root he, ''python'', ''.venv'', ''bin'', ''fantastic'']))
       else io_bind (make_tmp he os) (\<lambda>tmp.
            io_bind (seed_host he os port opts tmp) (\<lambda>h.
            io_bind (spawn_daemon he os h) (\<lambda>_. await_up os rounds h))))"

section \<open>Restarting and serving files\<close>

text \<open>
  \<^verbatim>\<open>restartHost\<close>: at most fifty looks at the old daemon (one observation each: whether the \<^verbatim>\<open>fetch\<close> still succeeds), then the
  new daemon in the same directory.
\<close>

fun await_release :: "nat \<Rightarrow> bool list \<Rightarrow> unit io" where
  "await_release 0 looks = io_return ()"
| "await_release (Suc n) [] = io_fail Waiting"
| "await_release (Suc n) (up # looks) = (if up then await_release n looks else io_return ())"

definition restartHost :: "harness_env \<Rightarrow> os \<Rightarrow> bool list \<Rightarrow> (nat \<times> bool) list \<Rightarrow> harness_host \<Rightarrow> unit io" where
  "restartHost he os looks rounds h =
     io_bind (case hh_container h of Some c \<Rightarrow> perform os (Engine [''rm'', ''-f'', c]) | None \<Rightarrow> perform os KillDaemon) (\<lambda>_.
     io_bind (await_release 50 looks) (\<lambda>_.
     io_bind (case hh_container h of
         Some c \<Rightarrow> start_container he os ''container restart failed: '' c h
       | None \<Rightarrow> perform os (StartDaemon (hh_tmp h) (daemonEnv he)))
     (\<lambda>_. waitForPort (hh_port h) 30000 rounds)))"

definition writeServedDist :: "harness_env \<Rightarrow> os \<Rightarrow> harness_host \<Rightarrow> string \<Rightarrow> string \<Rightarrow> unit io" where
  "writeServedDist he os h name content =
     perform os (WriteFile (path_join [case hh_container h of Some _ \<Rightarrow> DIST_DIR he | None \<Rightarrow> path_join [hh_tmp h, ''ts_dist_src''], name]) content)"

end
