(* ===== verification/Harness_Props.thy ===== *)
theory Harness_Props
  imports Harness_Host
begin

text \<open>
  What the integration harness guarantees: no secret of the other backend reaches a daemon, every wait ends, a boot that fails
  leaves no daemon behind, and a boot that succeeds has seeded its agents in the planned order before the daemon started.
\<close>

named_theorems only_intros \<open>computations whose requests all have a property\<close>

section \<open>Requests of a computation\<close>

definition only :: "(sys_op \<Rightarrow> bool) \<Rightarrow> 'a io \<Rightarrow> bool" where
  "only Q m \<longleftrightarrow> (\<forall>tr. \<exists>xs. fst (m tr) = tr @ xs \<and> (\<forall>x\<in>set xs. Q (fst x)))"

lemma onlyE: "only Q m \<Longrightarrow> \<exists>xs. fst (m tr) = tr @ xs \<and> (\<forall>x\<in>set xs. Q (fst x))"
  by (simp add: only_def)

lemma only_return [only_intros]: "only Q (io_return x)"
  by (simp add: only_def io_return_def)

lemma only_fail [only_intros]: "only Q (io_fail f)"
  by (simp add: only_def io_fail_def)

lemma only_bind [only_intros]:
  assumes "only Q m" "\<And>x. only Q (f x)"
  shows "only Q (io_bind m f)"
  unfolding only_def
proof
  fix tr
  obtain xs where xs: "fst (m tr) = tr @ xs" "\<forall>x\<in>set xs. Q (fst x)" using onlyE [OF assms(1)] by blast
  show "\<exists>xs. fst (io_bind m f tr) = tr @ xs \<and> (\<forall>x\<in>set xs. Q (fst x))"
  proof (cases "snd (m tr)")
    case (Inl e)
    with xs show ?thesis by (cases "m tr") (simp add: io_bind_def)
  next
    case (Inr x)
    obtain ys where "fst (f x (tr @ xs)) = (tr @ xs) @ ys" "\<forall>x\<in>set ys. Q (fst x)" using onlyE [OF assms(2)] by blast
    with Inr xs show ?thesis by (cases "m tr") (auto simp: io_bind_def intro!: exI [of _ "xs @ ys"])
  qed
qed

lemma only_ask [only_intros]: "Q q \<Longrightarrow> only Q (ask os q)"
  by (simp add: only_def ask_def Let_def)

lemma only_perform [only_intros]: "Q q \<Longrightarrow> only Q (perform os q)"
  by (simp add: perform_def only_intros)

lemma only_when [only_intros]: "(b \<Longrightarrow> only Q m) \<Longrightarrow> only Q (io_when b m)"
  by (simp add: io_when_def only_intros)

lemma only_if [only_intros]: "(b \<Longrightarrow> only Q m) \<Longrightarrow> (\<not> b \<Longrightarrow> only Q m') \<Longrightarrow> only Q (if b then m else m')"
  by simp

lemma only_wait [only_intros]: "only Q (waitForPort port ms rounds)"
  by (induction rounds) (auto intro: only_intros)

lemma only_release [only_intros]: "only Q (await_release n looks)"
  by (induction n looks rule: await_release.induct) (auto intro: only_intros)

lemma only_runCli [only_intros]: "Q (one_shot he tmp args) \<Longrightarrow> only Q (runCli he os tmp args)"
  unfolding runCli_def by (intro only_intros)

lemma only_extractId [only_intros]: "only Q (extractId out prefix)"
  by (cases "first_id prefix out") (simp_all add: extractId_def only_intros)

lemma only_create [only_intros]: "Q (one_shot he tmp args) \<Longrightarrow> only Q (create he os tmp args prefix)"
  unfolding create_def by (intro only_intros)

text \<open>Seeding asks only for what every one-shot command and the copy of the build output ask for.\<close>

lemma only_seed [only_intros]:
  assumes "\<And>tmp args. Q (one_shot he tmp args)" "\<And>d. Q (CopyDist d)"
  shows "only Q (seed_host he os port opts tmp)"
proof -
  have "only Q (case bo_llm opts of None \<Rightarrow> io_return None | Some l \<Rightarrow> io_when True (seed_llm he os tmp l))"
    unfolding seed_llm_def by (cases "bo_llm opts") (auto intro!: only_intros assms)
  then show ?thesis unfolding seed_host_def seed_dist_def seed_sched_def by (intro only_intros assms)
qed

lemma only_tmp [only_intros]: "(\<And>d. Q (MkDir d)) \<Longrightarrow> (\<And>d. Q (MkTemp d)) \<Longrightarrow> only Q (make_tmp he os)"
  unfolding make_tmp_def Let_def by (intro only_intros)

lemma onlyD: "only Q m \<Longrightarrow> m tr = (tr', r) \<Longrightarrow> \<exists>xs. tr' = tr @ xs \<and> (\<forall>x\<in>set xs. Q (fst x))"
  unfolding only_def by (metis fst_conv)

section \<open>Secrets\<close>

definition secrets :: "string list" where "secrets = [''ANTHROPIC_KEY'', ''ANTHROPIC_API_KEY'']"

fun env_args :: "string list \<Rightarrow> string list" where
  "env_args (a # b # rest) = (if a = ''-e'' then b # env_args rest else env_args (b # rest))"
| "env_args _ = []"

definition detached :: "string list \<Rightarrow> bool" where
  "detached args = (take 2 args = [''run'', ''-d''])"

text \<open>A request that hands a secret to a process: in the daemon's environment or as an environment option of its container.\<close>

fun leaks :: "sys_op \<Rightarrow> bool" where
  "leaks (StartDaemon tmp env) = list_ex (\<lambda>k. map_of env k \<noteq> None) secrets"
| "leaks (Engine args) = (detached args \<and> list_ex (\<lambda>x. takeWhile (\<lambda>c. c \<noteq> CHR ''='') x \<in> set secrets) (env_args args))"
| "leaks _ = False"

lemma daemonEnv_safe: "LLM_BACKEND he = ''ollama'' \<Longrightarrow> \<not> leaks (StartDaemon tmp (daemonEnv he))"
  by (simp add: daemonEnv_def Let_def secrets_def)

lemma one_shot_safe: "\<not> leaks (one_shot he tmp args)"
  by (simp add: one_shot_def detached_def)

lemma env_args_skip: "a \<noteq> ''-e'' \<Longrightarrow> env_args (a # rest) = env_args rest"
  by (cases rest) auto

lemma forward_args_ollama:
  assumes "LLM_BACKEND he = ''ollama''"
  shows "forward_args he = [] \<or> (\<exists>v. forward_args he = [''-e'', ''OLLAMA_HOST='' @ v])"
  using assms by (auto simp: forward_args_def forward_keys_def split: option.split)

lemma container_safe:
  assumes "LLM_BACKEND he = ''ollama''"
  shows "\<not> leaks (Engine (containerRunArgs he c port tmp d))"
proof -
  have w: "x @ '':/work'' \<noteq> ''-e''" "x @ '':'' @ y @ '':ro'' \<noteq> ''-e''" for x y :: string
    by (rule notI, drule arg_cong [of _ _ length], simp)+
  define f where "f = forward_args he @ [IMAGE he]"
  have f: "\<forall>x\<in>set (env_args f). takeWhile (\<lambda>c. c \<noteq> CHR ''='') x \<notin> set secrets"
    using forward_args_ollama [OF assms] by (auto simp: f_def secrets_def)
  let ?p = "''127.0.0.1:'' @ show_nat port @ '':'' @ show_nat port"
  let ?m = "(if d then [''-v'', DIST_DIR he @ '':'' @ CONTAINER_DIST @ '':ro''] else []) @ f"
  have m: "env_args ?m = env_args f" using w(2) by (simp add: env_args_skip)
  have "env_args (''-p'' # ?p # ''-v'' # (tmp @ '':/work'') # ''-e'' # ''FANTASTIC_RUNTIME=python'' # ''-e'' # (''FANTASTIC_PORT='' @ show_nat port) # ?m)
    = [''FANTASTIC_RUNTIME=python'', ''FANTASTIC_PORT='' @ show_nat port] @ env_args f"
    using w(1) m by (simp add: env_args_skip)
  then have "\<forall>x\<in>set (env_args (containerRunArgs he c port tmp d)). takeWhile (\<lambda>c. c \<noteq> CHR ''='') x \<notin> set secrets"
    using f w(1) m by (cases "c = ''-e''") (auto simp: containerRunArgs_def f_def secrets_def env_args_skip)
  then show ?thesis by (auto simp: list_ex_iff)
qed

lemma engine_safe: "\<not> leaks (Engine [''rm'', ''-f'', c])" "\<not> leaks (Engine [''stop'', ''-t'', ''8'', c])"
  "\<not> leaks (Engine [''image'', ''inspect'', c])"
  by (simp_all add: detached_def)

lemma teardown_safe [only_intros]: "only (\<lambda>q. \<not> leaks q) (teardownHost os h)"
  unfolding teardownHost_def
  by (cases "hh_container h") (auto intro!: only_intros simp: engine_safe simp del: leaks.simps(2))

lemma start_container_safe [only_intros]:
  "LLM_BACKEND he = ''ollama'' \<Longrightarrow> only (\<lambda>q. \<not> leaks q) (start_container he os what c h)"
  unfolding start_container_def by (intro only_intros container_safe)

lemma spawn_safe [only_intros]: "LLM_BACKEND he = ''ollama'' \<Longrightarrow> only (\<lambda>q. \<not> leaks q) (spawn_daemon he os h)"
  unfolding spawn_daemon_def
  by (cases "hh_container h") (auto intro!: only_intros daemonEnv_safe simp: engine_safe simp del: leaks.simps(1,2))

lemma waitForPort_trace: "waitForPort port ms rounds tr = (tr', r) \<Longrightarrow> tr' = tr"
  by (induction rounds) (auto simp: io_return_def io_fail_def split: if_splits)

lemma only_await_up [only_intros]:
  assumes "only Q (teardownHost os h)"
  shows "only Q (await_up os rounds h)"
  unfolding only_def
proof
  fix tr
  have t: "only Q (io_bind (teardownHost os h) (\<lambda>_. io_fail (Thrown e) :: harness_host io))" for e
    using assms by (intro only_intros)
  obtain tr' r where w: "waitForPort (hh_port h) 30000 rounds tr = (tr', r)" by fastforce
  note waitForPort_trace [OF w]
  with w onlyE [OF t] show "\<exists>xs. fst (await_up os rounds h tr) = tr @ xs \<and> (\<forall>x\<in>set xs. Q (fst x))"
    by (simp add: await_up_def split: sum.split failure.split)
qed

text \<open>
  C36: no secret leaks into a run against the local model. With \<^verbatim>\<open>LLM_BACKEND\<close> set to \<^verbatim>\<open>ollama\<close> (in any case), whatever the process
  environment and the \<^verbatim>\<open>.env\<close> hold, whatever the target, the options and the answers of the system, neither booting nor
  restarting a host starts a daemon with \<^verbatim>\<open>ANTHROPIC_KEY\<close> or \<^verbatim>\<open>ANTHROPIC_API_KEY\<close> in its environment or on its container's
  command line.
\<close>
theorem ollama_run_keeps_secrets:
  assumes "LLM_BACKEND he = ''ollama''"
  shows "(\<forall>x\<in>set (fst (bootHost he os rounds port opts [])). \<not> leaks (fst x)) \<and>
    (\<forall>x\<in>set (fst (restartHost he os looks rounds h [])). \<not> leaks (fst x))"
proof -
  have "only (\<lambda>q. \<not> leaks q) (bootHost he os rounds port opts)"
    unfolding bootHost_def fantasticAvailable_def
    by (intro only_intros one_shot_safe assms) (auto simp: engine_safe simp del: leaks.simps(2))
  moreover have "only (\<lambda>q. \<not> leaks q) (restartHost he os looks rounds h)"
    unfolding restartHost_def
    by (cases "hh_container h")
      (auto intro!: only_intros daemonEnv_safe assms simp: engine_safe simp del: leaks.simps(1,2))
  ultimately show ?thesis by (auto dest!: onlyE [where tr = "[]"])
qed

theorem ollama_run_keeps_secrets_witness:
  "LLM_BACKEND sample_he = ''ollama'' \<and> map_of (he_process sample_he) ''ANTHROPIC_KEY'' = Some ''p'' \<and>
   list_all (\<lambda>x. \<not> leaks (fst x)) (fst (bootHost sample_he (\<lambda>_ _. \<lparr>sa_ok = True, sa_out = None, sa_err = None\<rparr>) [(0, True)] 1
      \<lparr>bo_webLoader = True, bo_serveDist = True, bo_pythonRuntime = True, bo_llm = None, bo_scheduler = True\<rparr> []))"
proof -
  have b: "LLM_BACKEND sample_he = ''ollama''" by code_simp
  with ollama_run_keeps_secrets [OF b] show ?thesis by (simp add: sample_he_def list_all_iff)
qed

section \<open>Daemons\<close>

text \<open>Whether a daemon is up after a trace: started, or its container started, and not killed or removed since.\<close>

fun daemon_after :: "sys_op \<times> sys_answer \<Rightarrow> bool \<Rightarrow> bool" where
  "daemon_after (StartDaemon _ _, _) up = True"
| "daemon_after (KillDaemon, _) up = False"
| "daemon_after (Engine args, a) up =
     (if detached args then up \<or> sa_ok a else if args \<noteq> [] \<and> hd args \<in> {''rm'', ''stop''} then False else up)"
| "daemon_after _ up = up"

definition running :: "sys_trace \<Rightarrow> bool" where
  "running tr = fold daemon_after tr False"

fun preparing :: "sys_op \<Rightarrow> bool" where
  "preparing (StartDaemon _ _) = False"
| "preparing KillDaemon = False"
| "preparing (Engine args) = (\<not> detached args \<and> (args = [] \<or> hd args \<notin> {''rm'', ''stop''}))"
| "preparing _ = True"

lemma preparing_keeps: "preparing q \<Longrightarrow> daemon_after (q, a) up = up"
  by (cases q) auto

lemma preparing_trace: "\<forall>x\<in>set xs. preparing (fst x) \<Longrightarrow> fold daemon_after xs up = up"
proof (induction xs arbitrary: up)
  case (Cons x xs)
  then show ?case using preparing_keeps [of "fst x" "snd x" up] by simp
qed simp

lemma preparing_ops: "preparing (one_shot he tmp args)" "preparing (Engine [''image'', ''inspect'', c])"
  by (simp_all add: one_shot_def detached_def)

lemma io_bind_cases:
  assumes "io_bind m f tr = (tr', r)"
  obtains e where "m tr = (tr', Inl e)" "r = Inl e" | t x where "m tr = (t, Inr x)" "f x t = (tr', r)"
  using assms by (auto simp: io_bind_def split: prod.splits sum.splits)

text \<open>Everything before the daemon: the trace is preparation, and the computation has thrown or has a seeded host.\<close>

definition prepared :: "harness_env \<Rightarrow> os \<Rightarrow> nat \<Rightarrow> boot_options \<Rightarrow> harness_host io" where
  "prepared he os port opts =
     io_bind (fantasticAvailable he os) (\<lambda>there.
       if \<not> there then io_fail (Thrown (''no fantastic bin at '' @ path_join [he_root he, ''python'', ''.venv'', ''bin'', ''fantastic'']))
       else io_bind (make_tmp he os) (\<lambda>tmp. seed_host he os port opts tmp))"

lemma io_bind_assoc: "io_bind (io_bind m f) g = io_bind m (\<lambda>x. io_bind (f x) g)"
  by (auto simp: io_bind_def fun_eq_iff split: prod.split sum.split)

lemma io_bind_fail: "io_bind (io_fail e) f = io_fail e"
  by (simp add: io_bind_def io_fail_def fun_eq_iff)

lemma io_bind_if: "io_bind (if b then m else m') f = (if b then io_bind m f else io_bind m' f)"
  by simp

lemma bootHost_prepared:
  "bootHost he os rounds port opts =
     io_bind (prepared he os port opts) (\<lambda>h. io_bind (spawn_daemon he os h) (\<lambda>_. await_up os rounds h))"
  unfolding bootHost_def prepared_def io_bind_assoc io_bind_if io_bind_fail by (rule refl)

lemma prepared_only: "only preparing (prepared he os port opts)"
  unfolding prepared_def fantasticAvailable_def by (intro only_intros preparing_ops) (simp_all add: preparing_ops del: preparing.simps(3))

lemma prepared_down: "prepared he os port opts [] = (tr, r) \<Longrightarrow> \<not> running tr"
  using onlyD [OF prepared_only] by (fastforce simp: running_def preparing_trace)

lemmas io_defs = io_bind_def io_return_def io_fail_def ask_def perform_def Let_def

lemma spawn_result:
  assumes "spawn_daemon he os h tr = (tr', r)"
  shows "case r of Inr _ \<Rightarrow> running tr' | Inl e \<Rightarrow> \<not> running tr' \<and> e \<noteq> Waiting"
proof (cases "hh_container h")
  case None
  with assms show ?thesis by (auto simp: spawn_daemon_def io_defs running_def)
next
  case (Some c)
  have "detached (containerRunArgs he c p t d)" for p t d by (simp add: detached_def containerRunArgs_def)
  with Some assms show ?thesis
    by (auto simp: spawn_daemon_def start_container_def io_defs running_def detached_def split: if_splits)
qed

lemma teardown_result: "teardownHost os h tr = (tr', r) \<Longrightarrow> \<not> running tr' \<and> r = Inr ()"
  by (cases "hh_container h") (auto simp: teardownHost_def io_defs running_def detached_def)

lemma await_up_thrown:
  assumes "await_up os rounds h tr = (tr', Inl (Thrown e))"
  obtains t where "io_bind (teardownHost os h) (\<lambda>_. io_fail (Thrown e) :: harness_host io) t = (tr', Inl (Thrown e))"
proof -
  obtain t r where w: "waitForPort (hh_port h) 30000 rounds tr = (t, r)" by fastforce
  show ?thesis
  proof (cases r)
    case (Inl f)
    with assms w obtain e' where f: "f = Thrown e'" by (cases f) (auto simp: await_up_def)
    with assms w Inl have b: "io_bind (teardownHost os h) (\<lambda>_. io_fail (Thrown e') :: harness_host io) t = (tr', Inl (Thrown e))"
      by (simp add: await_up_def)
    then have "e' = e" by (auto elim!: io_bind_cases simp: io_fail_def dest: teardown_result)
    with b that show ?thesis by blast
  qed (use assms w in \<open>simp add: await_up_def\<close>)
qed


section \<open>A boot that succeeds\<close>

text \<open>The arguments of the one-shot commands of a trace, in order.\<close>

fun shot :: "sys_op \<Rightarrow> string list option" where
  "shot (Cli tmp args) = Some args"
| "shot (Engine args) = (if take 2 args = [''run'', ''--rm''] then Some (drop 9 args) else None)"
| "shot _ = None"

definition shots :: "sys_trace \<Rightarrow> string list list" where
  "shots tr = List.map_filter (shot \<circ> fst) tr"

text \<open>The agents a boot creates: who is asked, and for what.\<close>

definition boot_plan :: "harness_env \<Rightarrow> nat \<Rightarrow> boot_options \<Rightarrow> string \<Rightarrow> string list list" where
  "boot_plan he port opts webId =
     [files_args ''store'' ''.fantastic'', web_args port, ws_args webId] @
     (if bo_webLoader opts then [loader_args webId] else []) @
     (if bo_serveDist opts then [dist_args webId (if in_container he then ''dist'' else ''ts_dist_src'')] else []) @
     (if bo_pythonRuntime opts \<or> bo_llm opts \<noteq> None then [python_args] else []) @
     (case bo_llm opts of Some l \<Rightarrow> [files_args ''llm_files'' ''.fantastic'', llm_args l] | None \<Rightarrow> []) @
     (if bo_scheduler opts then [files_args ''sched_files'' ''.fantastic'', sched_args] else [])"

text \<open>\<open>shoots m f\<close>: when \<open>m\<close> succeeds with \<open>x\<close>, the one-shot commands it ran are \<open>f x\<close>.\<close>

definition shoots :: "'a io \<Rightarrow> ('a \<Rightarrow> string list list) \<Rightarrow> bool" where
  "shoots m f \<longleftrightarrow> (\<forall>tr tr' x. m tr = (tr', Inr x) \<longrightarrow> shots tr' = shots tr @ f x)"

lemma shootsD: "shoots m f \<Longrightarrow> m tr = (tr', Inr x) \<Longrightarrow> shots tr' = shots tr @ f x"
  by (simp add: shoots_def)

lemma shoots_return: "f x = [] \<Longrightarrow> shoots (io_return x) f"
  by (simp add: shoots_def io_return_def)

lemma shoots_fail: "shoots (io_fail e) f"
  by (simp add: shoots_def io_fail_def)

lemma shoots_bind:
  assumes "shoots m f" "\<And>x. shoots (g x) (h x)" "\<And>x y t t'. g x t = (t', Inr y) \<Longrightarrow> f x @ h x y = k y"
  shows "shoots (io_bind m g) k"
  unfolding shoots_def
proof (intro allI impI)
  fix tr tr' y assume "io_bind m g tr = (tr', Inr y)"
  then obtain t x where m: "m tr = (t, Inr x)" and g: "g x t = (tr', Inr y)" by (auto elim!: io_bind_cases)
  from shootsD [OF assms(1) m] shootsD [OF assms(2) g] assms(3) [OF g] show "shots tr' = shots tr @ k y" by simp
qed

lemma shot_one_shot [simp]: "shot (one_shot he tmp args) = Some args"
  by (simp add: one_shot_def)

lemma shots_append [simp]: "shots (xs @ ys) = shots xs @ shots ys"
  by (simp add: shots_def List.map_filter_def)

lemma shots_one: "shots ((q, a) # xs) = (case shot q of Some args \<Rightarrow> [args] | None \<Rightarrow> []) @ shots xs" "shots [] = []"
  by (simp_all add: shots_def List.map_filter_def split: option.split)

lemma shoots_runCli: "shoots (runCli he os tmp args) (\<lambda>_. [args])"
  by (auto simp: shoots_def runCli_def io_defs shots_one split: if_splits)

lemma shoots_extractId: "shoots (extractId out prefix) (\<lambda>_. [])"
  by (cases "first_id prefix out") (simp_all add: extractId_def shoots_return shoots_fail)

lemma shoots_create: "shoots (create he os tmp args prefix) (\<lambda>_. [args])"
  unfolding create_def by (rule shoots_bind [OF shoots_runCli shoots_extractId]) simp

lemma shoots_when: "shoots m (\<lambda>_. as) \<Longrightarrow> shoots (io_when b m) (\<lambda>_. if b then as else [])"
  by (auto simp: io_when_def intro: shoots_return intro!: shoots_bind [where f = "\<lambda>_. as" and h = "\<lambda>_ _. []"])

lemma shoots_perform: "shot q = None \<Longrightarrow> shoots (perform os q) (\<lambda>_. [])"
  by (simp add: shoots_def io_defs shots_one)

lemma shoots_dist: "shoots (seed_dist he os tmp webId) (\<lambda>_. [dist_args webId (if in_container he then ''dist'' else ''ts_dist_src'')])"
  by (auto simp: shoots_def seed_dist_def runCli_def io_defs shots_one split: if_splits)

lemma shoots_llm: "shoots (seed_llm he os tmp l) (\<lambda>_. [files_args ''llm_files'' ''.fantastic'', llm_args l])"
  unfolding seed_llm_def by (rule shoots_bind [OF shoots_runCli shoots_create]) simp

lemma shoots_sched: "shoots (seed_sched he os tmp) (\<lambda>_. [files_args ''sched_files'' ''.fantastic'', sched_args])"
  unfolding seed_sched_def by (rule shoots_bind [OF shoots_runCli shoots_create]) simp

lemma shoots_llm_opt:
  "shoots (case o' of None \<Rightarrow> io_return None | Some l \<Rightarrow> io_when True (seed_llm he os tmp l))
     (\<lambda>_. case o' of Some l \<Rightarrow> [files_args ''llm_files'' ''.fantastic'', llm_args l] | None \<Rightarrow> [])"
  using shoots_when [OF shoots_llm, where b = True] by (cases o') (auto intro: shoots_return)

lemma shoots_seed: "shoots (seed_host he os port opts tmp) (\<lambda>h. boot_plan he port opts (hh_webId h))"
  unfolding shoots_def
proof (intro allI impI)
  fix tr tr' h assume "seed_host he os port opts tmp tr = (tr', Inr h)"
  then show "shots tr' = shots tr @ boot_plan he port opts (hh_webId h)"
    unfolding seed_host_def
    by (auto elim!: io_bind_cases simp: io_return_def boot_plan_def
        dest!: shootsD [OF shoots_runCli] shootsD [OF shoots_create] shootsD [OF shoots_when [OF shoots_create]]
          shootsD [OF shoots_when [OF shoots_dist]] shootsD [OF shoots_llm_opt] shootsD [OF shoots_when [OF shoots_sched]])
qed

lemma shoots_none: "only (\<lambda>q. shot q = None) m \<Longrightarrow> shoots m (\<lambda>_. [])"
proof -
  have "\<forall>x\<in>set xs. shot (fst x) = None \<Longrightarrow> shots xs = []" for xs
    by (induction xs) (auto simp: shots_one(2) shots_one(1) [of "fst x" "snd x" for x, simplified])
  then show "only (\<lambda>q. shot q = None) m \<Longrightarrow> shoots m (\<lambda>_. [])" unfolding shoots_def by (auto dest!: onlyD)
qed

lemma shoots_prepared: "shoots (prepared he os port opts) (\<lambda>h. boot_plan he port opts (hh_webId h))"
proof -
  have "shoots (make_tmp he os) (\<lambda>_. [])" by (intro shoots_none only_intros) simp_all
  then have 1: "shoots (io_bind (make_tmp he os) (\<lambda>tmp. seed_host he os port opts tmp)) (\<lambda>h. boot_plan he port opts (hh_webId h))"
    by (rule shoots_bind [OF _ shoots_seed]) simp
  have 2: "shoots (fantasticAvailable he os) (\<lambda>_. [])"
    unfolding fantasticAvailable_def by (intro shoots_none only_intros) simp
  have "shoots (if \<not> b then io_fail e else io_bind (make_tmp he os) (\<lambda>tmp. seed_host he os port opts tmp))
      (\<lambda>h. boot_plan he port opts (hh_webId h))" for b e using 1 shoots_fail by auto
  then show ?thesis unfolding prepared_def by (rule shoots_bind [OF 2]) simp
qed

lemma spawn_no_shots: "only (\<lambda>q. shot q = None) (spawn_daemon he os h)"
  unfolding spawn_daemon_def start_container_def
  by (cases "hh_container h") (auto intro!: only_intros simp: containerRunArgs_def)

lemma await_up_ok: "await_up os rounds h tr = (tr', Inr h') \<Longrightarrow> tr' = tr \<and> h' = h"
proof -
  assume a: "await_up os rounds h tr = (tr', Inr h')"
  obtain t r where w: "waitForPort (hh_port h) 30000 rounds tr = (t, r)" by fastforce
  from waitForPort_trace [OF w] a w show ?thesis
    by (auto simp: await_up_def io_bind_def io_fail_def split: sum.splits failure.splits prod.splits)
qed


section \<open>Every wait ends\<close>

lemma waitForPort_ends:
  assumes "\<forall>i<length rounds. 150 * i + t0 \<le> fst (rounds ! i)" "ms \<le> 150 * (length rounds - 1) + t0" "rounds \<noteq> []"
  shows "snd (waitForPort port ms rounds tr) \<noteq> Inl Waiting"
  using assms
proof (induction rounds arbitrary: t0)
  case (Cons r rounds)
  obtain t up where r: "r = (t, up)" by fastforce
  show ?case
  proof (cases "t < ms \<and> \<not> up")
    case True
    have "t0 \<le> t" using Cons.prems(1) r by force
    have ne: "rounds \<noteq> []" using Cons.prems(2) True \<open>t0 \<le> t\<close> by auto
    have "150 * i + (t0 + 150) \<le> fst (rounds ! i)" if "i < length rounds" for i
      using Cons.prems(1) that by (auto dest!: spec [of _ "Suc i"])
    moreover have "ms \<le> 150 * (length rounds - 1) + (t0 + 150)" using Cons.prems(2) ne by (cases rounds) simp_all
    ultimately show ?thesis using Cons.IH [of "t0 + 150"] ne True r by auto
  qed (auto simp: r io_return_def io_fail_def)
qed simp

lemma await_release_ends: "n \<le> length looks \<Longrightarrow> await_release n looks tr = (tr, Inr ())"
  by (induction n looks rule: await_release.induct) (simp_all add: io_return_def)

named_theorems settles_intros \<open>computations that return or throw\<close>

definition settles :: "'a io \<Rightarrow> bool" where
  "settles m \<longleftrightarrow> (\<forall>tr. snd (m tr) \<noteq> Inl Waiting)"

lemma settles_basic [settles_intros]:
  "settles (io_return x)" "settles (io_fail (Thrown e))" "settles (ask os q)" "settles (perform os q)"
  by (simp_all add: settles_def io_defs)

lemma settles_bind [settles_intros]: "settles m \<Longrightarrow> (\<And>x. settles (f x)) \<Longrightarrow> settles (io_bind m f)"
  unfolding settles_def by (auto simp: io_bind_def split: prod.split sum.split) (metis snd_conv)

lemma settles_if [settles_intros]: "(b \<Longrightarrow> settles m) \<Longrightarrow> (\<not> b \<Longrightarrow> settles m') \<Longrightarrow> settles (if b then m else m')"
  by simp

lemma settles_case [settles_intros]: "settles m \<Longrightarrow> (\<And>x. settles (f x)) \<Longrightarrow> settles (case v of None \<Rightarrow> m | Some x \<Rightarrow> f x)"
  by (cases v) simp_all

lemma settles_steps [settles_intros]:
  "settles m \<Longrightarrow> settles (io_when b m)" "settles (runCli he os tmp args)" "settles (extractId out prefix)"
  "settles (start_container he os what c h)"
  unfolding io_when_def runCli_def extractId_def start_container_def by (intro settles_intros; assumption?)+

lemma settles_create [settles_intros]: "settles (create he os tmp args prefix)"
  unfolding create_def by (intro settles_intros)

lemma settles_prepared [settles_intros]: "settles (prepared he os port opts)"
  unfolding prepared_def fantasticAvailable_def make_tmp_def seed_host_def seed_dist_def seed_llm_def seed_sched_def Let_def
  by (intro settles_intros)

lemma settles_daemon [settles_intros]: "settles (spawn_daemon he os h)" "settles (teardownHost os h)"
  unfolding spawn_daemon_def teardownHost_def by (intro settles_intros)+

lemma settles_await_up:
  assumes "settles (waitForPort (hh_port h) 30000 rounds)"
  shows "settles (await_up os rounds h)"
proof -
  have t: "settles (io_bind (teardownHost os h) (\<lambda>_. io_fail (Thrown e) :: harness_host io))" for e by (intro settles_intros)
  show ?thesis unfolding settles_def
  proof
    fix tr
    obtain t' r where w: "waitForPort (hh_port h) 30000 rounds tr = (t', r)" by fastforce
    moreover have "r \<noteq> Inl Waiting" using assms w unfolding settles_def by (metis snd_conv)
    ultimately show "snd (await_up os rounds h tr) \<noteq> Inl Waiting"
      using t unfolding settles_def by (auto simp: await_up_def split: sum.split failure.split)
  qed
qed


section \<open>Runs of the harness\<close>

text \<open>A system on which every request succeeds and every one-shot command prints an id of the bundle it creates.\<close>

definition sample_os :: os where
  "sample_os tr q =
     \<lparr>sa_ok = True,
      sa_out = Some (case shot q of
          Some (_ # _ # m # _) \<Rightarrow> [CHR 0x22] @ ''id'' @ [CHR 0x22] @ '': '' @ [CHR 0x22] @ strip_tools (drop 15 m) @ ''_0a'' @ [CHR 0x22]
        | _ \<Rightarrow> ''/tmp/x''),
      sa_err = Some []\<rparr>"

definition sample_opts :: boot_options where
  "sample_opts = \<lparr>bo_webLoader = True, bo_serveDist = False, bo_pythonRuntime = False, bo_llm = None, bo_scheduler = False\<rparr>"

definition slow_rounds :: "(nat \<times> bool) list" where
  "slow_rounds = map (\<lambda>i. (150 * i, False)) [0..<201]"

lemma sample_prepared:
  obtains tr h where "prepared sample_he sample_os 1 sample_opts [] = (tr, Inr h)" "hh_webId h = ''web_0a''" "hh_container h = None"
proof -
  have "case prepared sample_he sample_os 1 sample_opts [] of
      (tr, Inr h) \<Rightarrow> hh_webId h = ''web_0a'' \<and> hh_container h = None | (tr, Inl e) \<Rightarrow> False" by code_simp
  with that show ?thesis by (cases "prepared sample_he sample_os 1 sample_opts []") (auto split: sum.splits)
qed


text \<open>A boot that throws while seeding leaves its temporary directory behind: only a failed wait removes it.\<close>

definition failing_os :: os where
  "failing_os tr q = (sample_os tr q)\<lparr>sa_ok := (shot q = None)\<rparr>"

lemma failed_seed_keeps_tmp:
  "case prepared sample_he failing_os 1 sample_opts [] of
     (tr, Inl (Thrown e)) \<Rightarrow> map fst tr = [StatBin, MkTemp ''/tmp/ftbridge-'', Cli ''/tmp/x'' (files_args ''store'' ''.fantastic'')]
   | _ \<Rightarrow> False"
  by code_simp



text \<open>
  \<^verbatim>\<open>restartHost\<close> gives up on an old daemon that answers for fifty looks, and then takes its answers for those of the new one.
\<close>

lemma restart_trusts_old_daemon:
  "snd (restartHost sample_he sample_os (replicate 50 True) [(0, True)] h []) = Inr ()"
  if "hh_container h = None"
  using that by (simp add: restartHost_def await_release_ends io_defs)

text \<open>
  The two readers of \<^verbatim>\<open>.env\<close> disagree on precedence: \<^verbatim>\<open>dotenvKey\<close> lets the process environment win, the daemon's environment the file.
\<close>

lemma dotenv_precedence_differs:
  "let he = sample_he\<lparr>he_process := [(''ANTHROPIC_KEY'', ''p'')]\<rparr>
   in dotenvKey he ''ANTHROPIC_KEY'' = Some ''p'' \<and> map_of (daemonEnv he) ''ANTHROPIC_KEY'' = Some ''s=1''"
  by code_simp

text \<open>
  A key in the process environment alone makes the live tests run, but is not forwarded into a container: they run against a
  daemon without the key.
\<close>

lemma container_misses_process_key:
  "let he = sample_he\<lparr>he_process := [(''ANTHROPIC_KEY'', ''p''), (''FANTASTIC_TARGET'', ''container'')], he_dotenv := None\<rparr>
   in llmReachable he None True \<and> in_container he \<and>
      env_args (containerRunArgs he ''c'' 1 ''/t'' False) = [''FANTASTIC_RUNTIME=python'', ''FANTASTIC_PORT=1'']"
  by code_simp

end
