(* ===== verification/Chrome_Driver.thy ===== *)
theory Chrome_Driver
  imports Conn Harness_Env
begin

text \<open>
  The headless-browser driver of the integration tests: class \<^verbatim>\<open>Browser\<close> of \<^verbatim>\<open>integration_tests/py_ts/_chrome.ts\<close>, a client of the
  DevTools protocol over one socket. The state starts where \<^verbatim>\<open>launch\<close> has an open socket; its handshake of five commands is
  part of the steps. A command is a promise, named by a token; messages are parsed objects. Polling loops are functions of what
  they observe in each round. The browser process and the socket's transport are outside.
\<close>

section \<open>State\<close>

datatype cdp_call = LaunchStep nat | UserCall nat

datatype cdp_outcome = CdpResult payload | CdpError string

datatype cdp_effect =
    CdpSend payload
  | CdpSettle cdp_call cdp_outcome
  | CloseWs
  | KillChrome
  | RmUserDir

datatype launch_state = Launching | Launched | LaunchFailed string

record browser =
  br_msgId :: nat
  br_pending :: "(int \<times> cdp_call) list"
  br_sessionId :: "json option"
  br_mainFrameId :: json
  br_contexts :: "(int \<times> json) list"
  br_pageErrors :: "json list"
  br_launch :: launch_state
  br_open :: bool
  br_out :: "cdp_effect list"

definition br_do :: "cdp_effect list \<Rightarrow> browser \<Rightarrow> browser" where
  "br_do es b = b\<lparr>br_out := br_out b @ es\<rparr>"

text \<open>\<^verbatim>\<open>v?.k\<close> and \<^verbatim>\<open>a ?? b\<close> on values that may be absent.\<close>

definition chain :: "json option \<Rightarrow> string \<Rightarrow> json option" where
  "chain v k = (case v of Some (JObj ms) \<Rightarrow> map_of ms k | _ \<Rightarrow> None)"

definition default :: "json option \<Rightarrow> json \<Rightarrow> json" where
  "default v d = (case nullish v of Some x \<Rightarrow> x | None \<Rightarrow> d)"

definition number_of :: "json option \<Rightarrow> int option" where
  "number_of v = (case v of Some (JNum n) \<Rightarrow> Some n | _ \<Rightarrow> None)"

section \<open>Commands\<close>

definition cdp_frame :: "nat \<Rightarrow> string \<Rightarrow> payload \<Rightarrow> payload" where
  "cdp_frame i method params = [(''id'', JNum (int i)), (''method'', JStr method), (''params'', JObj params)]"

definition rawSend :: "string \<Rightarrow> payload \<Rightarrow> cdp_call \<Rightarrow> browser \<Rightarrow> browser" where
  "rawSend method params c b =
     (let i = Suc (br_msgId b)
      in br_do [CdpSend (cdp_frame i method params)]
           (b\<lparr>br_msgId := i, br_pending := AList.update (int i) c (br_pending b)\<rparr>))"

text \<open>\<^verbatim>\<open>JSON.stringify\<close> leaves out a session id that is \<^verbatim>\<open>undefined\<close>.\<close>

definition session_member :: "browser \<Rightarrow> payload" where
  "session_member b = (case br_sessionId b of Some s \<Rightarrow> [(''sessionId'', s)] | None \<Rightarrow> [])"

definition cdp_send :: "string \<Rightarrow> payload \<Rightarrow> cdp_call \<Rightarrow> browser \<Rightarrow> browser" where
  "cdp_send method params c b =
     (let i = Suc (br_msgId b)
      in br_do [CdpSend (cdp_frame i method params @ session_member b)]
           (b\<lparr>br_msgId := i, br_pending := AList.update (int i) c (br_pending b)\<rparr>))"

definition goto :: "nat \<Rightarrow> string \<Rightarrow> browser \<Rightarrow> browser" where
  "goto t u b = cdp_send ''Page.navigate'' [(''url'', JStr u)] (UserCall t) b"

definition evaluate :: "nat \<Rightarrow> string \<Rightarrow> browser \<Rightarrow> browser" where
  "evaluate t expression b =
     cdp_send ''Runtime.evaluate'' [(''expression'', JStr expression), (''awaitPromise'', JBool True), (''returnByValue'', JBool True)]
       (UserCall t) b"

definition evalInContext :: "nat \<Rightarrow> int \<Rightarrow> string \<Rightarrow> browser \<Rightarrow> browser" where
  "evalInContext t cid expression b =
     cdp_send ''Runtime.evaluate''
       [(''expression'', JStr expression), (''contextId'', JNum cid), (''awaitPromise'', JBool True), (''returnByValue'', JBool True)]
       (UserCall t) b"

text \<open>What \<^verbatim>\<open>evaluate\<close> makes of the reply: the value (absent for \<^verbatim>\<open>undefined\<close>), or the error it throws.\<close>

definition evaluate_reply :: "string \<Rightarrow> payload \<Rightarrow> string + json option" where
  "evaluate_reply what r =
     (let d = map_of r ''exceptionDetails'' in
      if js_truthy d
      then Inl (what @ '' evaluate threw: '' @
             js_String_opt (case nullish (chain (chain d ''exception'') ''description'') of Some x \<Rightarrow> Some x | None \<Rightarrow> chain d ''text''))
      else Inr (chain (map_of r ''result'') ''value''))"

section \<open>The handshake\<close>

definition new_browser :: browser where
  "new_browser = rawSend ''Target.createTarget'' [(''url'', JStr ''about:blank'')] (LaunchStep 0)
     \<lparr>br_msgId = 0, br_pending = [], br_sessionId = Some (JStr []), br_mainFrameId = JStr [], br_contexts = [], br_pageErrors = [],
       br_launch = Launching, br_open = True, br_out = []\<rparr>"

definition launch_resolved :: "nat \<Rightarrow> payload \<Rightarrow> browser \<Rightarrow> browser" where
  "launch_resolved n r b =
     (if n = 0 then
        rawSend ''Target.attachToTarget''
          ((case map_of r ''targetId'' of Some t \<Rightarrow> [(''targetId'', t)] | None \<Rightarrow> []) @ [(''flatten'', JBool True)]) (LaunchStep 1) b
      else if n = 1 then cdp_send ''Page.enable'' [] (LaunchStep 2) (b\<lparr>br_sessionId := map_of r ''sessionId''\<rparr>)
      else if n = 2 then cdp_send ''Runtime.enable'' [] (LaunchStep 3) b
      else if n = 3 then cdp_send ''Page.getFrameTree'' [] (LaunchStep 4) b
      else b\<lparr>br_mainFrameId := default (chain (chain (map_of r ''frameTree'') ''frame'') ''id'') (JStr []), br_launch := Launched\<rparr>)"

text \<open>Settling a promise runs the handshake's continuation before the next message is delivered.\<close>

definition settle :: "cdp_call \<Rightarrow> cdp_outcome \<Rightarrow> browser \<Rightarrow> browser" where
  "settle c r b =
     (let b1 = br_do [CdpSettle c r] b in
      case c of
        UserCall t \<Rightarrow> b1
      | LaunchStep n \<Rightarrow> (case r of CdpResult p \<Rightarrow> launch_resolved n p b1 | CdpError e \<Rightarrow> b1\<lparr>br_launch := LaunchFailed e\<rparr>))"

section \<open>Messages\<close>

definition cdp_reply :: "int \<Rightarrow> payload \<Rightarrow> browser \<Rightarrow> browser" where
  "cdp_reply i msg b =
     (case map_of (br_pending b) i of
        None \<Rightarrow> b
      | Some c \<Rightarrow>
          settle c
            (if js_truthy (map_of msg ''error'')
             then CdpError (case chain (map_of msg ''error'') ''message'' of Some m \<Rightarrow> js_String m | None \<Rightarrow> [])
             else CdpResult (case default (map_of msg ''result'') (JObj []) of JObj ms \<Rightarrow> ms | _ \<Rightarrow> []))
            (b\<lparr>br_pending := AList.delete i (br_pending b)\<rparr>))"

text \<open>The three messages on execution contexts.\<close>

definition created_context :: "payload \<Rightarrow> (int \<times> json) option" where
  "created_context msg =
     (let ctx = nullish (chain (map_of msg ''params'') ''context'')
      in map_option (\<lambda>i. (i, default (chain (chain ctx ''auxData'') ''frameId'') (JStr []))) (number_of (chain ctx ''id'')))"

definition destroyed_context :: "payload \<Rightarrow> int option" where
  "destroyed_context msg = number_of (chain (map_of msg ''params'') ''executionContextId'')"

definition on_context_note :: "string \<Rightarrow> payload \<Rightarrow> browser \<Rightarrow> browser" where
  "on_context_note method msg b =
     (if method = ''Runtime.executionContextCreated'' then
        (case created_context msg of Some (i, f) \<Rightarrow> b\<lparr>br_contexts := AList.update i f (br_contexts b)\<rparr> | None \<Rightarrow> b)
      else if method = ''Runtime.executionContextDestroyed'' then
        (case destroyed_context msg of Some i \<Rightarrow> b\<lparr>br_contexts := AList.delete i (br_contexts b)\<rparr> | None \<Rightarrow> b)
      else b\<lparr>br_contexts := []\<rparr>)"

definition context_methods :: "string list" where
  "context_methods =
     [''Runtime.executionContextCreated'', ''Runtime.executionContextDestroyed'', ''Runtime.executionContextsCleared'']"

definition exception_text :: "payload \<Rightarrow> json" where
  "exception_text msg =
     (let d = nullish (chain (map_of msg ''params'') ''exceptionDetails'')
      in default (chain (chain d ''exception'') ''description'') (default (chain d ''text'') (JStr ''exception'')))"

fun joined :: "string \<Rightarrow> string list \<Rightarrow> string" where
  "joined sep [] = []"
| "joined sep [x] = x"
| "joined sep (x # xs) = x @ sep @ joined sep xs"

definition console_text :: "payload \<Rightarrow> json" where
  "console_text p =
     (case map_of p ''args'' of
        Some (JArr vs) \<Rightarrow> JStr (joined '' '' (map (\<lambda>a. js_String_opt (chain (Some a) ''value'')) vs))
      | _ \<Rightarrow> JStr [])"

text \<open>\<^const>\<open>None\<close>: the handler throws, on a console message without parameters.\<close>

definition br_onMessage :: "payload \<Rightarrow> browser \<Rightarrow> browser option" where
  "br_onMessage msg b =
     (case number_of (map_of msg ''id'') of
        Some i \<Rightarrow> Some (cdp_reply i msg b)
      | None \<Rightarrow>
          (case map_of msg ''method'' of
             Some (JStr method) \<Rightarrow>
               (if method \<in> set context_methods then Some (on_context_note method msg b)
                else if method = ''Runtime.exceptionThrown'' then Some (b\<lparr>br_pageErrors := br_pageErrors b @ [exception_text msg]\<rparr>)
                else if method = ''Runtime.consoleAPICalled'' then
                  (case map_of msg ''params'' of
                     Some (JObj p) \<Rightarrow>
                       Some (if map_of p ''type'' = Some (JStr ''error'') then b\<lparr>br_pageErrors := br_pageErrors b @ [console_text p]\<rparr> else b)
                   | _ \<Rightarrow> None)
                else Some b)
           | _ \<Rightarrow> Some b))"

definition subframeContextIds :: "browser \<Rightarrow> int list" where
  "subframeContextIds b =
     map fst (filter (\<lambda>(_, f). f \<noteq> JStr [] \<and> f \<noteq> br_mainFrameId b) (br_contexts b))"

definition br_close :: "browser \<Rightarrow> browser" where
  "br_close b = br_do [CloseWs, KillChrome, RmUserDir] (b\<lparr>br_open := False\<rparr>)"

section \<open>Polling\<close>

text \<open>
  \<^verbatim>\<open>evalInAnyIframe\<close>: per round, what the evaluation in each sub-frame context gave, in order, and the time when all have been
  tried. \<^const>\<open>None\<close> is a poll that goes on.
\<close>

definition value_of :: "string + json option \<Rightarrow> json option" where
  "value_of r = (case r of Inl _ \<Rightarrow> None | Inr v \<Rightarrow> nullish v)"

fun evalInAnyIframe :: "nat \<Rightarrow> ((string + json option) list \<times> nat) list \<Rightarrow> json option option" where
  "evalInAnyIframe ms [] = None"
| "evalInAnyIframe ms ((rs, t) # rounds) =
     (case List.map_filter value_of rs of
        v # _ \<Rightarrow> Some (Some v)
      | [] \<Rightarrow> if t \<ge> ms then Some None else evalInAnyIframe ms rounds)"

definition click_expression :: "string \<Rightarrow> string" where
  "click_expression selector =
     ''(() => { const el = document.querySelector('' @ quote_string selector @ '');'' @ CHR 0x0A #
     ''                if (!el) return null; el.click(); return true; })()''"

text \<open>The rounds are those of the click's expression.\<close>

definition clickInAnyIframe :: "nat \<Rightarrow> ((string + json option) list \<times> nat) list \<Rightarrow> bool option" where
  "clickInAnyIframe ms rounds = map_option (\<lambda>v. v = Some (JBool True)) (evalInAnyIframe ms rounds)"

text \<open>\<^verbatim>\<open>evalAllIframes\<close>: first a wait for a sub-frame (per round: whether there is one, and the time), then all results.\<close>

fun await_subframes :: "nat \<Rightarrow> (bool \<times> nat) list \<Rightarrow> bool" where
  "await_subframes ms [] = False"
| "await_subframes ms ((some, t) # rounds) = (if \<not> some \<and> t < ms then await_subframes ms rounds else True)"

definition evalAllIframes :: "nat \<Rightarrow> (bool \<times> nat) list \<Rightarrow> (string + json option) list \<Rightarrow> json list option" where
  "evalAllIframes ms rounds rs = (if await_subframes ms rounds then Some (List.map_filter value_of rs) else None)"

definition timeout_text :: "nat \<Rightarrow> string \<Rightarrow> browser \<Rightarrow> string" where
  "timeout_text ms expression b =
     ''waitFor timed out after '' @ show_nat ms @ ''ms: '' @ expression @ CHR 0x0A # ''page errors: '' @
     joined '' | '' (map (\<lambda>e. if e = JNull then [] else js_String e) (br_pageErrors b))"

text \<open>
  \<^verbatim>\<open>waitFor\<close>: per round, the time at the test of the loop, the driver then, and what \<^verbatim>\<open>evaluate\<close> gave (\<^const>\<open>None\<close>: it has not come
  back).
\<close>

fun waitFor :: "string \<Rightarrow> nat \<Rightarrow> (nat \<times> browser \<times> (string + json option) option) list \<Rightarrow> (string + json) option" where
  "waitFor expression ms [] = None"
| "waitFor expression ms ((t, b, r) # rounds) =
     (if t < ms then
        (case r of
           None \<Rightarrow> None
         | Some (Inl e) \<Rightarrow> Some (Inl e)
         | Some (Inr v) \<Rightarrow> (if js_truthy v then map_option Inr v else waitFor expression ms rounds))
      else Some (Inl (timeout_text ms expression b)))"

text \<open>\<^verbatim>\<open>launch\<close>: the socket's address from the text of \<^verbatim>\<open>DevToolsActivePort\<close>, once it has two lines.\<close>

definition devtools_url :: "string \<Rightarrow> string option" where
  "devtools_url txt =
     (case split_lines (js_trim txt) of
        port # path # _ \<Rightarrow> if port \<noteq> [] then Some (''ws://127.0.0.1:'' @ port @ path) else None
      | _ \<Rightarrow> None)"

fun await_devtools :: "(nat \<times> string option) list \<Rightarrow> (cdp_effect list \<times> (string + string)) option" where
  "await_devtools [] = None"
| "await_devtools ((t, file) # rounds) =
     (if t < 15000 then
        (case file of
           None \<Rightarrow> await_devtools rounds
         | Some txt \<Rightarrow> (case devtools_url txt of Some u \<Rightarrow> Some ([], Inr u) | None \<Rightarrow> await_devtools rounds))
      else Some ([KillChrome, RmUserDir], Inl ''chrome devtools endpoint never appeared''))"

section \<open>Steps\<close>

datatype br_event =
    BMessage payload
  | BGoto nat string
  | BEvaluate nat string
  | BEvalIn nat int string
  | BClose

text \<open>A client has the driver only once \<^verbatim>\<open>launch\<close> has returned it; a closed socket delivers nothing.\<close>

fun br_step :: "br_event \<Rightarrow> browser \<Rightarrow> browser option" where
  "br_step (BMessage msg) b = (if br_open b then br_onMessage msg b else None)"
| "br_step (BGoto t u) b = (if br_launch b = Launched then Some (goto t u b) else None)"
| "br_step (BEvaluate t e) b = (if br_launch b = Launched then Some (evaluate t e b) else None)"
| "br_step (BEvalIn t cid e) b = (if br_launch b = Launched then Some (evalInContext t cid e b) else None)"
| "br_step BClose b = (if br_launch b = Launched then Some (br_close b) else None)"

section \<open>Invariant\<close>

definition is_launch :: "cdp_call \<Rightarrow> bool" where
  "is_launch c = (case c of LaunchStep _ \<Rightarrow> True | UserCall _ \<Rightarrow> False)"

definition target_methods :: "json list" where
  "target_methods = [JStr ''Target.createTarget'', JStr ''Target.attachToTarget'']"

text \<open>The session id of a frame that is not one of the two commands on targets.\<close>

definition session_frames :: "cdp_effect list \<Rightarrow> payload list" where
  "session_frames es =
     List.map_filter (\<lambda>e. case e of
        CdpSend f \<Rightarrow> (case map_of f ''method'' of Some m \<Rightarrow> if m \<in> set target_methods then None else Some f | None \<Rightarrow> None)
      | _ \<Rightarrow> None) es"

definition launch_ok :: "browser \<Rightarrow> bool" where
  "launch_ok b =
     (case br_launch b of
        Launching \<Rightarrow> br_open b \<and> (\<exists>i n. br_pending b = [(i, LaunchStep n)] \<and> (n \<le> 1 \<longrightarrow> session_frames (br_out b) = []))
      | Launched \<Rightarrow> \<forall>c\<in>snd ` set (br_pending b). \<not> is_launch c
      | LaunchFailed _ \<Rightarrow> br_pending b = [])"

definition br_inv :: "browser \<Rightarrow> bool" where
  "br_inv b =
     (distinct (map fst (br_pending b)) \<and> (\<forall>i\<in>set (map fst (br_pending b)). i \<le> int (br_msgId b)) \<and>
      distinct (map fst (br_contexts b)) \<and> launch_ok b \<and>
      (\<forall>f\<in>set (session_frames (br_out b)). map_of f ''sessionId'' = br_sessionId b))"

lemma session_frames_simps [simp]:
  "session_frames (es @ fs) = session_frames es @ session_frames fs" "session_frames [] = []"
  "session_frames [CdpSettle c r] = []" "session_frames [CloseWs, KillChrome, RmUserDir] = []"
  "session_frames [CdpSend (cdp_frame i meth params @ x)] =
     (if JStr meth \<in> set target_methods then [] else [cdp_frame i meth params @ x])"
  by (simp_all add: session_frames_def List.map_filter_def cdp_frame_def)

lemma session_frames_raw [simp]:
  "session_frames [CdpSend (cdp_frame i meth params)] = (if JStr meth \<in> set target_methods then [] else [cdp_frame i meth params])"
  using session_frames_simps(5) [of i meth params "[]"] by simp

lemma frame_session: "(map_of (session_member b) ++ map_of (cdp_frame i meth params)) ''sessionId'' = br_sessionId b"
  by (simp add: cdp_frame_def session_member_def map_add_def split: option.split)

lemma br_do_sel [simp]:
  "br_msgId (br_do es b) = br_msgId b" "br_pending (br_do es b) = br_pending b" "br_sessionId (br_do es b) = br_sessionId b"
  "br_contexts (br_do es b) = br_contexts b" "br_launch (br_do es b) = br_launch b" "br_open (br_do es b) = br_open b"
  "br_out (br_do es b) = br_out b @ es" "br_mainFrameId (br_do es b) = br_mainFrameId b"
  by (simp_all add: br_do_def)

lemma fresh_msgId: "br_inv b \<Longrightarrow> 1 + int (br_msgId b) \<notin> fst ` set (br_pending b)"
  by (auto simp: br_inv_def)

text \<open>Sending a session command with no launch step outstanding but the one that is sent.\<close>

lemma cdp_send_inv:
  assumes "br_inv b" "JStr method \<notin> set target_methods" "br_launch b = Launched" "\<not> is_launch c"
  shows "br_inv (cdp_send method params c b)"
proof -
  have "session_member (b\<lparr>br_msgId := x, br_pending := y\<rparr>) = session_member b" for x y by (simp add: session_member_def)
  with assms fresh_msgId [OF assms(1)] show ?thesis
    by (auto simp: br_inv_def cdp_send_def Let_def launch_ok_def fst_set_update update_fresh frame_session)
qed

lemma new_browser_inv: "br_inv new_browser"
  by (simp add: br_inv_def new_browser_def rawSend_def Let_def launch_ok_def target_methods_def)

lemma launch_resolved_inv:
  assumes "br_pending b = []" "br_launch b = Launching" "br_open b" "distinct (map fst (br_contexts b))"
    and "n \<le> 1 \<Longrightarrow> session_frames (br_out b) = []"
    and "\<forall>f\<in>set (session_frames (br_out b)). map_of f ''sessionId'' = br_sessionId b"
  shows "br_inv (launch_resolved n r b)"
proof -
  consider "n = 0" | "n = 1" | "n = 2 \<or> n = 3" | "n > 3" by linarith
  then show ?thesis
    by cases (use assms in \<open>auto simp: launch_resolved_def br_inv_def rawSend_def cdp_send_def Let_def launch_ok_def
        target_methods_def frame_session\<close>)
qed

lemma cdp_reply_inv:
  assumes "br_inv b" "br_open b"
  shows "br_inv (cdp_reply i msg b)"
proof (cases "map_of (br_pending b) i")
  case (Some c)
  define b1 where "b1 = b\<lparr>br_pending := AList.delete i (br_pending b)\<rparr>"
  have inv: "distinct (map fst (br_pending b))" "launch_ok b" "distinct (map fst (br_contexts b))"
    "\<forall>f\<in>set (session_frames (br_out b)). map_of f ''sessionId'' = br_sessionId b"
    "\<forall>i\<in>set (map fst (br_pending b)). i \<le> int (br_msgId b)"
    using assms(1) by (simp_all add: br_inv_def)
  have "br_inv (settle c r b1)" for r
  proof (cases c)
    case (UserCall t)
    from Some UserCall have "br_launch b = Launched"
      using inv(2) by (cases "br_launch b") (auto simp: launch_ok_def split: if_splits)
    moreover have "set (AList.delete i (br_pending b)) \<subseteq> set (br_pending b)" by (auto simp: AList.delete_eq)
    ultimately show ?thesis using inv UserCall
      by (auto 4 4 simp: settle_def br_inv_def launch_ok_def b1_def)
  next
    case (LaunchStep n)
    from Some LaunchStep inv(2) have l: "br_launch b = Launching"
      by (cases "br_launch b") (auto simp: launch_ok_def is_launch_def dest!: map_of_SomeD)
    with inv(2) Some LaunchStep have p: "br_pending b = [(i, LaunchStep n)]" "n \<le> 1 \<Longrightarrow> session_frames (br_out b) = []"
      by (auto simp: launch_ok_def split: if_splits)
    show ?thesis
    proof (cases r)
      case (CdpResult ms)
      have "br_inv (launch_resolved n ms (br_do [CdpSettle c r] b1))"
        using l p inv assms(2) by (intro launch_resolved_inv) (simp_all add: b1_def)
      then show ?thesis using CdpResult LaunchStep by (simp add: settle_def)
    next
      case (CdpError e)
      with LaunchStep p inv show ?thesis by (simp add: settle_def br_inv_def launch_ok_def b1_def)
    qed
  qed
  with Some show ?thesis by (simp add: cdp_reply_def b1_def)
qed (use assms in \<open>simp add: cdp_reply_def\<close>)

lemma launch_ok_upd [simp]:
  "launch_ok (b\<lparr>br_contexts := cs\<rparr>) = launch_ok b" "launch_ok (b\<lparr>br_pageErrors := es\<rparr>) = launch_ok b"
  by (simp_all add: launch_ok_def split: launch_state.split)

lemma br_inv_upd:
  "br_inv (b\<lparr>br_pageErrors := es\<rparr>) = br_inv b" "br_inv b \<Longrightarrow> distinct (map fst cs) \<Longrightarrow> br_inv (b\<lparr>br_contexts := cs\<rparr>)"
  by (simp_all add: br_inv_def)

lemma on_context_note_inv: "br_inv b \<Longrightarrow> br_inv (on_context_note method msg b)"
proof -
  assume inv: "br_inv b"
  then have "distinct (map fst (br_contexts b))" by (simp add: br_inv_def)
  with inv show ?thesis by (auto simp: on_context_note_def intro!: br_inv_upd(2) split: option.split)
qed

lemma on_message_inv:
  assumes "br_inv b" "br_open b" "br_onMessage msg b = Some b'"
  shows "br_inv b'"
  using assms cdp_reply_inv on_context_note_inv
  by (auto simp: br_onMessage_def br_inv_upd(1) split: option.splits json.splits if_splits)

lemma br_close_inv: "br_inv b \<Longrightarrow> br_launch b = Launched \<Longrightarrow> br_inv (br_close b)"
  by (simp add: br_close_def br_inv_def launch_ok_def)

interpretation br: step_invariant br_step "\<lambda>_. True" br_inv
proof
  fix b e b' assume inv: "br_inv b" and st: "br_step e b = Some b'"
  show "br_inv b'"
  proof (cases e)
    case (BMessage msg)
    with inv st on_message_inv show ?thesis by (auto split: if_splits)
  next
    case BClose
    with inv st br_close_inv show ?thesis by (auto split: if_splits)
  qed (use inv st in \<open>auto simp: goto_def evaluate_def evalInContext_def is_launch_def target_methods_def
      intro!: cdp_send_inv split: if_splits\<close>)
qed

section \<open>Commands are settled once\<close>

definition user_tokens :: "cdp_call list \<Rightarrow> nat list" where
  "user_tokens cs = List.map_filter (\<lambda>c. case c of UserCall t \<Rightarrow> Some t | LaunchStep _ \<Rightarrow> None) cs"

definition cdp_settled :: "cdp_effect list \<Rightarrow> cdp_call list" where
  "cdp_settled es = List.map_filter (\<lambda>e. case e of CdpSettle c _ \<Rightarrow> Some c | _ \<Rightarrow> None) es"

fun issued_command :: "br_event \<Rightarrow> nat multiset" where
  "issued_command (BGoto t _) = {#t#}"
| "issued_command (BEvaluate t _) = {#t#}"
| "issued_command (BEvalIn t _ _) = {#t#}"
| "issued_command _ = {#}"

definition br_ledger :: "browser \<Rightarrow> nat multiset" where
  "br_ledger b = mset (user_tokens (map snd (br_pending b))) + mset (user_tokens (cdp_settled (br_out b)))"

lemma user_tokens_simps [simp]:
  "user_tokens [] = []" "user_tokens (UserCall t # cs) = t # user_tokens cs" "user_tokens (LaunchStep n # cs) = user_tokens cs"
  "user_tokens (cs @ ds) = user_tokens cs @ user_tokens ds"
  by (simp_all add: user_tokens_def List.map_filter_def)

lemma cdp_settled_simps [simp]:
  "cdp_settled [] = []" "cdp_settled (CdpSettle c r # es) = c # cdp_settled es" "cdp_settled (CdpSend f # es) = cdp_settled es"
  "cdp_settled (es @ fs) = cdp_settled es @ cdp_settled fs" "cdp_settled [CloseWs, KillChrome, RmUserDir] = []"
  by (simp_all add: cdp_settled_def List.map_filter_def)

lemma ledger_upd [simp]:
  "br_ledger (b\<lparr>br_contexts := cs\<rparr>) = br_ledger b" "br_ledger (b\<lparr>br_pageErrors := es\<rparr>) = br_ledger b"
  by (simp_all add: br_ledger_def)

lemma ledger_send:
  assumes "br_inv b"
  shows "br_ledger (cdp_send method params (UserCall t) b) = br_ledger b + {#t#}"
  using fresh_msgId [OF assms] by (simp add: br_ledger_def cdp_send_def Let_def update_fresh)

lemma ledger_launch: "br_pending b = [] \<Longrightarrow> br_ledger (launch_resolved n r b) = br_ledger b"
  by (simp add: launch_resolved_def br_ledger_def rawSend_def cdp_send_def Let_def)

lemma tokens_delete:
  "distinct (map fst m) \<Longrightarrow> map_of m i = Some c \<Longrightarrow>
   mset (user_tokens (map snd m)) = mset (user_tokens [c]) + mset (user_tokens (map snd (AList.delete i m)))"
proof (induction m)
  case (Cons p m)
  show ?case
  proof (cases "fst p = i")
    case True
    then have "i \<notin> fst ` set m" using Cons.prems(1) by simp
    then have "AList.delete i m = m" by (induction m) auto
    with True Cons.prems show ?thesis by (cases p; cases c) simp_all
  next
    case False
    with Cons show ?thesis by (cases p; cases "snd p") simp_all
  qed
qed simp

lemma ledger_reply:
  assumes "br_inv b"
  shows "br_ledger (cdp_reply i msg b) = br_ledger b"
proof (cases "map_of (br_pending b) i")
  case (Some c)
  let ?b = "b\<lparr>br_pending := AList.delete i (br_pending b)\<rparr>"
  have d: "distinct (map fst (br_pending b))" using assms by (simp add: br_inv_def)
  have "br_ledger (settle c r ?b) = br_ledger b" for r
  proof (cases c)
    case (UserCall t)
    with tokens_delete [OF d Some] show ?thesis by (simp add: settle_def br_ledger_def)
  next
    case (LaunchStep n)
    then have l: "br_launch b = Launching" using assms Some
      by (cases "br_launch b") (auto simp: br_inv_def launch_ok_def is_launch_def dest!: map_of_SomeD)
    then have p: "br_pending b = [(i, c)]" using assms Some by (auto simp: br_inv_def launch_ok_def split: if_splits)
    with LaunchStep ledger_launch [of "br_do [CdpSettle c r] ?b" n] show ?thesis
      by (cases r) (simp_all add: settle_def br_ledger_def)
  qed
  with Some show ?thesis by (simp add: cdp_reply_def)
qed (simp add: cdp_reply_def)

interpretation br_calls: step_ledger br_step "\<lambda>_. True" br_inv issued_command br_ledger
proof
  fix b e b' assume inv: "br_inv b" and st: "br_step e b = Some b'"
  show "br_ledger b' = br_ledger b + issued_command e"
  proof (cases e)
    case (BMessage msg)
    have "br_ledger (on_context_note m msg b) = br_ledger b" for m by (simp add: on_context_note_def split: option.split)
    with BMessage st ledger_reply [OF inv] show ?thesis
      by (auto simp: br_onMessage_def split: option.splits json.splits if_splits)
  next
    case BClose
    with st show ?thesis by (auto simp: br_close_def br_ledger_def split: if_splits)
  qed (use st ledger_send [OF inv] in \<open>auto simp: goto_def evaluate_def evalInContext_def split: if_splits\<close>)
qed

text \<open>
  C40: the driver settles a command at most once. After any interleaving of commands, replies, events, late or unknown replies and
  a close, the commands issued so far are exactly those still outstanding and those settled, each counted once.
\<close>
theorem driver_calls_accounted:
  assumes "run_events br_step es new_browser = Some b"
  shows "sum_list (map issued_command es) =
    mset (user_tokens (map snd (br_pending b))) + mset (user_tokens (cdp_settled (br_out b)))"
proof -
  have "br_ledger new_browser = {#}" by (simp add: br_ledger_def new_browser_def rawSend_def Let_def)
  with br_calls.run_ledger [OF assms new_browser_inv] show ?thesis by (simp add: br_ledger_def list_all_iff)
qed

text \<open>
  Commands go to the page's session. In every run, each frame the driver has sent, but for the two that create the target and
  attach to it, carries the session id of that attachment; none is sent before the attachment has answered.
\<close>
theorem driver_frames_carry_session:
  assumes "run_events br_step es new_browser = Some b" "CdpSend f \<in> set (br_out b)" "map_of f ''method'' = Some m"
    and "m \<notin> {JStr ''Target.createTarget'', JStr ''Target.attachToTarget''}"
  shows "map_of f ''sessionId'' = br_sessionId b"
proof -
  have "br_inv b" using br.run_inv [OF assms(1) new_browser_inv] by (simp add: list_all_iff)
  moreover have "f \<in> set (session_frames (br_out b))"
    using assms(2-4) by (auto simp: session_frames_def List.map_filter_def target_methods_def image_iff intro!: bexI [of _ "CdpSend f"])
  ultimately show ?thesis by (simp add: br_inv_def)
qed

section \<open>Execution contexts\<close>

text \<open>The messages a run delivers, latest first, that are not replies.\<close>

fun notices :: "br_event list \<Rightarrow> payload list" where
  "notices [] = []"
| "notices (BMessage msg # es) = notices es @ (if number_of (map_of msg ''id'') = None then [msg] else [])"
| "notices (_ # es) = notices es"

text \<open>Reference: what a message says about a context (its frame, or that it is gone), and the latest that was said.\<close>

definition says :: "payload \<Rightarrow> int \<Rightarrow> json option option" where
  "says msg cid =
     (case as_string (map_of msg ''method'') of
        None \<Rightarrow> None
      | Some m \<Rightarrow>
          if m = ''Runtime.executionContextsCleared'' then Some None
          else if m = ''Runtime.executionContextDestroyed'' then (if destroyed_context msg = Some cid then Some None else None)
          else if m = ''Runtime.executionContextCreated'' then
            (case created_context msg of Some (i, f) \<Rightarrow> if i = cid then Some (Some f) else None | None \<Rightarrow> None)
          else None)"

fun context_of :: "int \<Rightarrow> payload list \<Rightarrow> json option" where
  "context_of cid [] = None"
| "context_of cid (msg # older) = (case says msg cid of Some r \<Rightarrow> r | None \<Rightarrow> context_of cid older)"

definition ctx_map :: "browser \<Rightarrow> int \<Rightarrow> json option" where
  "ctx_map b = map_of (br_contexts b)"

lemma settle_contexts: "br_contexts (cdp_reply i msg b) = br_contexts b"
  by (simp add: cdp_reply_def settle_def launch_resolved_def rawSend_def cdp_send_def Let_def
      split: option.split cdp_call.split cdp_outcome.split)

lemma on_context_says:
  assumes "map_of msg ''method'' = Some (JStr m)" "m \<in> set context_methods"
  shows "ctx_map (on_context_note m msg b) cid = (case says msg cid of Some r \<Rightarrow> r | None \<Rightarrow> ctx_map b cid)"
proof -
  from assms(2) consider "m = ''Runtime.executionContextCreated''" | "m = ''Runtime.executionContextDestroyed''"
    | "m = ''Runtime.executionContextsCleared''" unfolding context_methods_def by auto
  then show ?thesis
  proof cases
    case 1
    then show ?thesis using assms(1) by (cases "created_context msg") (auto simp: says_def on_context_note_def ctx_map_def)
  next
    case 2
    then show ?thesis using assms(1) by (cases "destroyed_context msg") (auto simp: says_def on_context_note_def ctx_map_def)
  next
    case 3
    then show ?thesis using assms(1) by (simp add: says_def on_context_note_def ctx_map_def)
  qed
qed

lemma message_contexts:
  assumes "br_onMessage msg b = Some b'" "number_of (map_of msg ''id'') = None"
  shows "ctx_map b' cid = (case says msg cid of Some r \<Rightarrow> r | None \<Rightarrow> ctx_map b cid)"
proof (cases "\<exists>m. map_of msg ''method'' = Some (JStr m) \<and> m \<in> set context_methods")
  case True
  then obtain m where m: "map_of msg ''method'' = Some (JStr m)" "m \<in> set context_methods" by blast
  then have "b' = on_context_note m msg b" using assms by (simp add: br_onMessage_def)
  with on_context_says [OF m] show ?thesis by simp
next
  case False
  then have "br_contexts b' = br_contexts b"
    using assms by (auto simp: br_onMessage_def split: option.splits json.splits if_splits)
  moreover have "says msg cid = None"
    using False by (cases "as_string (map_of msg ''method'')") (auto simp: says_def context_methods_def)
  ultimately show ?thesis by (simp add: ctx_map_def)
qed

lemma step_contexts:
  assumes "br_step e b = Some b'" "ctx_map b cid = context_of cid ms"
  shows "ctx_map b' cid = context_of cid (notices [e] @ ms)"
proof (cases e)
  case (BMessage msg)
  with assms(1) have m: "br_onMessage msg b = Some b'" by (simp split: if_splits)
  show ?thesis
  proof (cases "number_of (map_of msg ''id'')")
    case None
    with message_contexts [OF m None, of cid] BMessage assms(2) show ?thesis by (simp split: option.split)
  next
    case (Some i)
    then have "b' = cdp_reply i msg b" using m by (simp add: br_onMessage_def)
    with Some BMessage assms(2) show ?thesis by (simp add: ctx_map_def settle_contexts)
  qed
qed (use assms in \<open>auto simp: ctx_map_def goto_def evaluate_def evalInContext_def cdp_send_def br_close_def Let_def split: if_splits\<close>)

lemma notices_append: "notices (es @ fs) = notices fs @ notices es"
  by (induction es rule: notices.induct) simp_all

lemma run_contexts:
  "run_events br_step es b = Some b' \<Longrightarrow> ctx_map b cid = context_of cid ms \<Longrightarrow> ctx_map b' cid = context_of cid (notices es @ ms)"
proof (induction es arbitrary: b ms)
  case (Cons e es)
  then obtain b1 where b1: "br_step e b = Some b1" "run_events br_step es b1 = Some b'" by (auto split: option.splits)
  from Cons.IH [OF b1(2) step_contexts [OF b1(1) Cons.prems(2)]] show ?case
    using notices_append [of "[e]" es] by simp
qed simp

text \<open>
  The driver knows the live contexts. After any run, the contexts \<^verbatim>\<open>evalInAnyIframe\<close> tries are those whose latest message says they
  were created in a frame other than the main one (and not destroyed or cleared since), each once.
\<close>
theorem driver_subframes_live:
  assumes "run_events br_step es new_browser = Some b"
  shows "distinct (subframeContextIds b) \<and>
    (\<forall>cid. cid \<in> set (subframeContextIds b) \<longleftrightarrow>
       (\<exists>f. context_of cid (notices es) = Some f \<and> f \<noteq> JStr [] \<and> f \<noteq> br_mainFrameId b))"
proof -
  have "br_inv b" using br.run_inv [OF assms new_browser_inv] by (simp add: list_all_iff)
  then have d: "distinct (map fst (br_contexts b))" by (simp add: br_inv_def)
  have "ctx_map new_browser cid = context_of cid []" for cid
    by (simp add: ctx_map_def new_browser_def rawSend_def Let_def)
  from run_contexts [OF assms this] have c: "context_of cid (notices es) = map_of (br_contexts b) cid" for cid
    by (simp add: ctx_map_def)
  have "distinct (subframeContextIds b)" unfolding subframeContextIds_def using d by (rule distinct_map_filter)
  moreover have "cid \<in> set (subframeContextIds b) \<longleftrightarrow>
      (\<exists>f. map_of (br_contexts b) cid = Some f \<and> f \<noteq> JStr [] \<and> f \<noteq> br_mainFrameId b)" for cid
    using d by (force simp: subframeContextIds_def map_of_Some_iff)
  ultimately show ?thesis using c by simp
qed

section \<open>A run of the driver\<close>

definition cdp_ok :: "nat \<Rightarrow> payload \<Rightarrow> br_event" where
  "cdp_ok i r = BMessage [(''id'', JNum (int i)), (''result'', JObj r)]"

definition cdp_note :: "string \<Rightarrow> payload \<Rightarrow> br_event" where
  "cdp_note m p = BMessage [(''method'', JStr m), (''params'', JObj p)]"

definition new_context :: "int \<Rightarrow> string \<Rightarrow> br_event" where
  "new_context cid f = cdp_note ''Runtime.executionContextCreated''
     [(''context'', JObj [(''id'', JNum cid), (''auxData'', JObj [(''frameId'', JStr f)])])]"

definition launch_replies :: "br_event list" where
  "launch_replies = [cdp_ok 1 [(''targetId'', JStr ''t'')], cdp_ok 2 [(''sessionId'', JStr ''s'')], cdp_ok 3 [], cdp_ok 4 [],
     cdp_ok 5 [(''frameTree'', JObj [(''frame'', JObj [(''id'', JStr ''main'')])])]]"

definition sample_drive :: "br_event list" where
  "sample_drive = launch_replies @
     [new_context 1 ''main'', new_context 2 ''pane'', BEvaluate 10 ''1'', BEvalIn 11 2 ''x'', cdp_ok 7 [], cdp_ok 7 [],
      cdp_note ''Runtime.executionContextDestroyed'' [(''executionContextId'', JNum 1)], BClose]"

lemma sample_drive_run:
  obtains b where "run_events br_step sample_drive new_browser = Some b" "subframeContextIds b = [2]"
    "user_tokens (map snd (br_pending b)) = [10]" "user_tokens (cdp_settled (br_out b)) = [11]"
    "CdpSend (cdp_frame 6 ''Runtime.evaluate'' [(''expression'', JStr ''1''), (''awaitPromise'', JBool True), (''returnByValue'', JBool True)] @
       [(''sessionId'', JStr ''s'')]) \<in> set (br_out b)" "br_sessionId b = Some (JStr ''s'')"
proof -
  have "case run_events br_step sample_drive new_browser of
      Some b \<Rightarrow> subframeContextIds b = [2] \<and> user_tokens (map snd (br_pending b)) = [10] \<and>
        user_tokens (cdp_settled (br_out b)) = [11] \<and>
        CdpSend (cdp_frame 6 ''Runtime.evaluate'' [(''expression'', JStr ''1''), (''awaitPromise'', JBool True), (''returnByValue'', JBool True)] @
          [(''sessionId'', JStr ''s'')]) \<in> set (br_out b) \<and> br_sessionId b = Some (JStr ''s'')
    | None \<Rightarrow> False" by code_simp
  with that show ?thesis by (cases "run_events br_step sample_drive new_browser") simp_all
qed

theorem driver_calls_accounted_witness:
  "\<exists>b. run_events br_step sample_drive new_browser = Some b \<and>
     sum_list (map issued_command sample_drive) = {#10#} + {#11#}"
proof (rule sample_drive_run)
  fix b assume b: "run_events br_step sample_drive new_browser = Some b"
    "user_tokens (map snd (br_pending b)) = [10]" "user_tokens (cdp_settled (br_out b)) = [11]"
  from driver_calls_accounted [OF b(1)] b show ?thesis by simp
qed

theorem driver_frames_carry_session_witness:
  "\<exists>b f. run_events br_step sample_drive new_browser = Some b \<and> CdpSend f \<in> set (br_out b) \<and>
     map_of f ''method'' = Some (JStr ''Runtime.evaluate'') \<and> map_of f ''sessionId'' = br_sessionId b"
proof (rule sample_drive_run)
  let ?f = "cdp_frame 6 ''Runtime.evaluate'' [(''expression'', JStr ''1''), (''awaitPromise'', JBool True), (''returnByValue'', JBool True)] @
       [(''sessionId'', JStr ''s'')]"
  fix b assume b: "run_events br_step sample_drive new_browser = Some b" "CdpSend ?f \<in> set (br_out b)"
  have m: "map_of ?f ''method'' = Some (JStr ''Runtime.evaluate'')" by (simp add: cdp_frame_def)
  have "map_of ?f ''sessionId'' = br_sessionId b" by (rule driver_frames_carry_session [OF b m]) simp
  with b m show ?thesis by blast
qed

theorem driver_subframes_live_witness:
  "\<exists>b. run_events br_step sample_drive new_browser = Some b \<and> subframeContextIds b = [2] \<and>
     (\<exists>f. context_of 2 (notices sample_drive) = Some f)"
proof (rule sample_drive_run)
  fix b assume b: "run_events br_step sample_drive new_browser = Some b" "subframeContextIds b = [2]"
  then have "2 \<in> set (subframeContextIds b)" by simp
  with driver_subframes_live [OF b(1)] b show ?thesis by blast
qed

text \<open>A poll over the iframes ends: with a result, or with null at the first round that ends after the limit.\<close>

lemma evalInAnyIframe_ends: "\<exists>r\<in>set rounds. snd r \<ge> ms \<Longrightarrow> evalInAnyIframe ms rounds \<noteq> None"
  by (induction ms rounds rule: evalInAnyIframe.induct) (auto split: list.split)

lemma await_devtools_ends: "\<exists>r\<in>set rounds. fst r \<ge> 15000 \<Longrightarrow> await_devtools rounds \<noteq> None"
  by (induction rounds rule: await_devtools.induct) (auto split: option.split)

section \<open>Where the driver goes wrong\<close>

text \<open>
  Closing the driver does not settle what is outstanding, and a closed socket delivers nothing: the command of token 10 in the
  sample never settles. A \<^verbatim>\<open>waitFor\<close> whose \<^verbatim>\<open>evaluate\<close> does not come back does not time out either: its limit is tested between
  evaluations only.
\<close>

lemma closed_driver_strands_commands: "br_open b = False \<Longrightarrow> br_step (BMessage msg) b = None"
  by simp

lemma waitFor_hangs_with_evaluate: "0 < ms \<Longrightarrow> waitFor expression ms ((0, b, None) # rounds) = None"
  by simp

text \<open>A handshake that is refused leaves the browser process: nothing kills it and nothing removes its directory.\<close>

lemma refused_launch_leaves_chrome:
  "case run_events br_step [BMessage [(''id'', JNum 1), (''error'', JObj [(''message'', JStr ''no'')])]] new_browser of
     Some b \<Rightarrow> br_launch b = LaunchFailed ''no'' \<and> KillChrome \<notin> set (br_out b) \<and> RmUserDir \<notin> set (br_out b)
   | None \<Rightarrow> False"
  by code_simp

end
