(* ===== verification/Test_Checks.thy ===== *)
theory Test_Checks
  imports Conn
begin

text \<open>
  The checks of the integration tests that have an algorithm of their own
  (\<^verbatim>\<open>integration_tests/py_ts\<close>): \<^verbatim>\<open>e2e/pairing_verify.ts\<close>, which judges how views are paired with
  backends; \<^verbatim>\<open>hostHasTerminalBackend\<close> of \<^verbatim>\<open>bundle_revive.browser.itest.ts\<close>, a walk over the host's directory
  with an explicit stack; \<^verbatim>\<open>until\<close>; and the two clients of \<^verbatim>\<open>llm_e2e.browser.itest.ts\<close>, \<^verbatim>\<open>runLLM\<close> and \<^verbatim>\<open>wsCall\<close>, from the
  open socket on. Each is shown to compute what it is used for.
\<close>

section \<open>Records and pairing\<close>

datatype Rec = Rec (rc_id: "string option") (rc_module: "string option") (rc_backend: "string option") (rc_html: "string option")
  (rc_children: "Rec list")

fun flatten :: "Rec \<Rightarrow> Rec list" where
  "flatten (Rec i hm b h cs) = Rec i hm b h cs # concat (map flatten cs)"

text \<open>\<^verbatim>\<open>hay.includes(needle)\<close>, which is also what the patterns without anchors test.\<close>

fun contains :: "string \<Rightarrow> string \<Rightarrow> bool" where
  "contains needle [] = (needle = [])"
| "contains needle (c # hay) = (take (length needle) (c # hay) = needle \<or> contains needle hay)"

definition isAi :: "string option \<Rightarrow> bool" where
  "isAi hm =
     (let s = (case hm of Some s \<Rightarrow> s | None \<Rightarrow> []) in
      list_ex (\<lambda>provider. contains (provider @ ''_backend.tools'') s) [''anthropic'', ''ollama'', ''nvidia_nim'', ''foundation_models''])"

definition of_module :: "string \<Rightarrow> Rec list \<Rightarrow> Rec list" where
  "of_module hm rs = filter (\<lambda>r. rc_module r = Some hm) rs"

text \<open>A string that is not empty.\<close>

definition truthy_str :: "string option \<Rightarrow> string option" where
  "truthy_str v = (case v of Some s \<Rightarrow> if s = [] then None else Some s | None \<Rightarrow> None)"

datatype pair_fail =
    NoBackend "string option"
  | MissingBackend "string option" string
  | SharedBackend
  | BackendFronted "string option" nat
  | PanelBound "string option" string
  | NoPanelWired

definition bound_fails :: "Rec list \<Rightarrow> Rec list \<Rightarrow> pair_fail list" where
  "bound_fails views backends =
     concat (map (\<lambda>v. case truthy_str (rc_backend v) of
         None \<Rightarrow> [NoBackend (rc_id v)]
       | Some b \<Rightarrow> if Some b \<in> set (map rc_id backends) then [] else [MissingBackend (rc_id v) b]) views)"

definition terminal_fails :: "Rec list \<Rightarrow> Rec list \<Rightarrow> pair_fail list" where
  "terminal_fails views backends =
     (let used = List.map_filter (\<lambda>v. truthy_str (rc_backend v)) views in
      bound_fails views backends @ (if length (remdups used) \<noteq> length used then [SharedBackend] else []) @
      concat (map (\<lambda>b. let n = length (filter (\<lambda>v. rc_backend v = rc_id b) views) in
        if n \<noteq> 1 then [BackendFronted (rc_id b) n] else []) backends))"

definition wired :: "Rec list \<Rightarrow> Rec \<Rightarrow> bool" where
  "wired pyRuntimes p =
     (let body = (case rc_html p of Some s \<Rightarrow> s | None \<Rightarrow> []) in
      list_ex (\<lambda>i. contains i body) (List.map_filter (\<lambda>r. truthy_str (rc_id r)) pyRuntimes) \<or> contains ''python_runtime'' body)"

definition panel_fails :: "Rec list \<Rightarrow> Rec list \<Rightarrow> pair_fail list" where
  "panel_fails panels pyRuntimes =
     concat (map (\<lambda>p. case truthy_str (rc_backend p) of Some b \<Rightarrow> [PanelBound (rc_id p) b] | None \<Rightarrow> []) panels) @
     (if pyRuntimes \<noteq> [] \<and> length (filter (wired pyRuntimes) panels) = 0 then [NoPanelWired] else [])"

definition pairing_fails :: "Rec list \<Rightarrow> Rec list \<Rightarrow> pair_fail list" where
  "pairing_fails hostAgents frontend =
     terminal_fails (of_module ''terminal_view.ts'' frontend) (of_module ''terminal_backend.tools'' hostAgents) @
     bound_fails (of_module ''ai_view.ts'' frontend) (filter (\<lambda>a. isAi (rc_module a)) hostAgents) @
     panel_fails (of_module ''html_agent.ts'' frontend) (of_module ''python_runtime.tools'' hostAgents)"

section \<open>The directory walk\<close>

text \<open>A directory tree without links; \<^verbatim>\<open>readdirSync\<close> throws on what is no readable directory.\<close>

datatype fs = File string | Unreadable | Dir "(string \<times> fs) list"

fun readdir :: "fs \<Rightarrow> (string \<times> fs) list option" where
  "readdir (Dir es) = Some es"
| "readdir _ = None"

definition terminal_here :: "(string \<times> fs) list \<Rightarrow> bool" where
  "terminal_here es =
     (case map_of es ''agent.json'' of
        Some (File text) \<Rightarrow>
          (case json_parse text of
             Some (JObj m) \<Rightarrow> map_of m ''handler_module'' = Some (JStr ''terminal_backend.tools'')
           | _ \<Rightarrow> False)
      | _ \<Rightarrow> False)"

definition subdirs :: "(string \<times> fs) list \<Rightarrow> fs list" where
  "subdirs es = filter (\<lambda>f. readdir f \<noteq> None) (map snd es)"

fun fs_size :: "fs \<Rightarrow> nat" where
  "fs_size (Dir es) = Suc (sum_list (map (\<lambda>(_, f). fs_size f) es))"
| "fs_size _ = 1"

lemma subdirs_size: "sum_list (map fs_size (subdirs es)) \<le> sum_list (map (\<lambda>(_, f). fs_size f) es)"
  by (induction es) (auto simp: subdirs_def)

text \<open>The loop; the top of the stack is the head of the list.\<close>

function walk :: "fs list \<Rightarrow> bool" where
  "walk [] = False"
| "walk (d # stack) =
     (case readdir d of
        None \<Rightarrow> walk stack
      | Some es \<Rightarrow> if terminal_here es then True else walk (rev (subdirs es) @ stack))"
  by pat_completeness auto

termination
proof (relation "measure (\<lambda>st. sum_list (map fs_size st))")
  fix d stack assume "readdir d = None"
  then show "(stack, d # stack) \<in> measure (\<lambda>st. sum_list (map fs_size st))" by (cases d) simp_all
next
  fix d stack es assume "readdir d = Some es" "\<not> terminal_here es"
  then show "(rev (subdirs es) @ stack, d # stack) \<in> measure (\<lambda>st. sum_list (map fs_size st))"
    using subdirs_size [of es] by (cases d) (simp_all add: sum_list_rev flip: rev_map)
qed simp

definition hostHasTerminalBackend :: "fs \<Rightarrow> bool" where
  "hostHasTerminalBackend agents_dir = walk [agents_dir]"

text \<open>
  \<^verbatim>\<open>until\<close>: each round sees whether the deadline has passed and what the condition is then. The list is what the rounds see;
  \<^const>\<open>None\<close>: the loop is still running.
\<close>

fun until_loop :: "(bool \<times> bool) list \<Rightarrow> bool option" where
  "until_loop [] = None"
| "until_loop ((in_time, cond) # rounds) = (if in_time \<and> \<not> cond then until_loop rounds else Some cond)"

section \<open>The test clients\<close>

text \<open>What reaches a client after its call is sent: frames, as their text, and its own timer.\<close>

datatype client_in = FrameIn string | TimeoutIn

text \<open>
  What a frame means to \<^verbatim>\<open>runLLM\<close>: an event to collect, the settlement of its promise, or nothing. Reading \<^verbatim>\<open>null\<close> throws in
  the listener, which changes nothing either.
\<close>

datatype llm_frame = Collect json | Settles "string + json" | Ignored

definition llm_frame :: "string \<Rightarrow> llm_frame" where
  "llm_frame text =
     (case json_parse text of
        Some (JObj m) \<Rightarrow>
          (let ty = map_of m ''type'' in
           if ty = Some (JStr ''event'') \<and> js_truthy (map_of m ''payload'') then Collect (the (map_of m ''payload''))
           else if ty = Some (JStr ''reply'') then Settles (Inr (case nullish (map_of m ''data'') of Some d \<Rightarrow> d | None \<Rightarrow> JNull))
           else if ty = Some (JStr ''error'') then Settles (Inl (js_String_opt (map_of m ''error'')))
           else Ignored)
      | _ \<Rightarrow> Ignored)"

text \<open>The promise and the events collected until it is settled; the socket is closed then. \<^const>\<open>None\<close>: still waiting.\<close>

definition llm_timeout :: "nat \<Rightarrow> string" where
  "llm_timeout ms = ''LLM send timed out after '' @ show_nat ms @ ''ms''"

fun runLLM :: "nat \<Rightarrow> client_in list \<Rightarrow> json list \<Rightarrow> ((string + json) \<times> json list) option" where
  "runLLM ms [] evs = None"
| "runLLM ms (TimeoutIn # ins) evs = Some (Inl (llm_timeout ms), evs)"
| "runLLM ms (FrameIn text # ins) evs =
     (case llm_frame text of
        Collect p \<Rightarrow> runLLM ms ins (evs @ [p])
      | Settles r \<Rightarrow> Some (r, evs)
      | Ignored \<Rightarrow> runLLM ms ins evs)"

definition llm_call :: "string \<Rightarrow> string \<Rightarrow> payload" where
  "llm_call ollamaId text = [(''type'', JStr ''call''), (''target'', JStr ollamaId),
     (''payload'', JObj [(''type'', JStr ''send''), (''text'', JStr text), (''client_id'', JStr ''diag'')]), (''id'', JStr ''send-1'')]"

text \<open>\<^verbatim>\<open>wsCall\<close> looks at replies to its own id only.\<close>

definition ws_reply :: "string \<Rightarrow> json option option" where
  "ws_reply text =
     (case json_parse text of
        Some (JObj m) \<Rightarrow>
          (if map_of m ''type'' = Some (JStr ''reply'') \<and> map_of m ''id'' = Some (JStr ''q1'') then Some (map_of m ''data'') else None)
      | _ \<Rightarrow> None)"

fun wsCall :: "client_in list \<Rightarrow> (string + json option) option" where
  "wsCall [] = None"
| "wsCall (TimeoutIn # ins) = Some (Inl ''wsCall timeout'')"
| "wsCall (FrameIn text # ins) = (case ws_reply text of Some d \<Rightarrow> Some (Inr d) | None \<Rightarrow> wsCall ins)"

section \<open>What the checks decide\<close>

lemma bound_fails_Nil:
  "bound_fails views backends = [] \<longleftrightarrow>
     (\<forall>v\<in>set views. truthy_str (rc_backend v) = rc_backend v \<and> rc_backend v \<noteq> None \<and> rc_backend v \<in> set (map rc_id backends))"
proof (induction views)
  case (Cons v views)
  then show ?case
    by (cases "rc_backend v") (simp_all add: bound_fails_def truthy_str_def)
qed (simp add: bound_fails_def)

lemma bound_fails_Nil_subset:
  assumes n: "None \<notin> set (map rc_id backends)" "Some [] \<notin> set (map rc_id backends)"
  shows "bound_fails views backends = [] \<longleftrightarrow> set (map rc_backend views) \<subseteq> set (map rc_id backends)"
proof -
  have "x \<noteq> None \<and> truthy_str x = x" if "x \<in> set (map rc_id backends)" for x
  proof -
    have "x \<noteq> None" "x \<noteq> Some []" using that n by metis+
    then show ?thesis by (cases x) (simp_all add: truthy_str_def)
  qed
  then show ?thesis unfolding bound_fails_Nil by auto
qed

lemma panel_fails_Nil:
  "panel_fails panels pys = [] \<longleftrightarrow>
     (\<forall>p\<in>set panels. truthy_str (rc_backend p) = None) \<and> (pys = [] \<or> (\<exists>p\<in>set panels. wired pys p))"
  by (auto simp: panel_fails_def filter_empty_conv split: option.splits)

text \<open>Distinct keys that are each fronted once, by views that front nothing else.\<close>

lemma mset_eq_distinct:
  assumes "distinct ys"
  shows "mset xs = mset ys \<longleftrightarrow> set xs \<subseteq> set ys \<and> (\<forall>y\<in>set ys. length (filter (\<lambda>x. x = y) xs) = 1)"
proof -
  have c: "count (mset ys) y = (if y \<in> set ys then 1 else 0)" for y using assms by (simp add: distinct_count_atmost_1)
  have x: "length (filter (\<lambda>x. x = y) xs) = count (mset xs) y" for y
    by (induction xs) simp_all
  show ?thesis unfolding multiset_eq_iff c x
    by (auto simp: count_eq_zero_iff)
qed

lemma terminal_fails_Nil:
  assumes d: "distinct (map rc_id backends)" and n: "None \<notin> set (map rc_id backends)" "Some [] \<notin> set (map rc_id backends)"
  shows "terminal_fails views backends = [] \<longleftrightarrow> mset (map rc_backend views) = mset (map rc_id backends)"
proof -
  let ?xs = "map rc_backend views" and ?ys = "map rc_id backends"
  let ?used = "List.map_filter (\<lambda>v. truthy_str (rc_backend v)) views"
  note b = bound_fails_Nil_subset [OF n, of views]
  have used: "map Some ?used = ?xs" if "bound_fails views backends = []"
    using that unfolding bound_fails_Nil by (induction views) (auto simp: map_filter_simps split: option.splits)
  have cnt: "concat (map (\<lambda>b. let n = length (filter (\<lambda>v. rc_backend v = rc_id b) views) in
      if n \<noteq> 1 then [BackendFronted (rc_id b) n] else []) backends) = [] \<longleftrightarrow>
      (\<forall>y\<in>set ?ys. length (filter (\<lambda>x. x = y) ?xs) = 1)"
    by (auto simp: Let_def filter_map comp_def)
  have "distinct ?used" if "set ?xs \<subseteq> set ?ys" "mset ?xs = mset ?ys"
  proof -
    have "distinct (map Some ?used)" using used b that mset_eq_imp_distinct_iff [OF that(2)] d by simp
    then show ?thesis by (simp add: distinct_map)
  qed
  with b cnt mset_eq_distinct [OF d, of ?xs] show ?thesis
    by (simp only: terminal_fails_def Let_def append_is_Nil_conv length_remdups_eq remdups_id_iff_distinct) (auto split: if_splits)
qed

text \<open>
  The pairing check decides what it prints of terminals and panels. For host agents with distinct ids, it passes exactly when the
  terminal views and the terminal backends are paired one to one, each backend bound by exactly one view and each view to
  a backend there is, every AI view is bound to some AI backend, no panel is bound, and some panel mentions a Python
  runtime if there is one.
\<close>
theorem pairing_verdict_exact:
  assumes "distinct (map rc_id hostAgents)" "None \<notin> set (map rc_id hostAgents)" "Some [] \<notin> set (map rc_id hostAgents)"
  shows "pairing_fails hostAgents frontend = [] \<longleftrightarrow>
    mset (map rc_backend (of_module ''terminal_view.ts'' frontend)) = mset (map rc_id (of_module ''terminal_backend.tools'' hostAgents)) \<and>
    set (map rc_backend (of_module ''ai_view.ts'' frontend)) \<subseteq> set (map rc_id (filter (\<lambda>a. isAi (rc_module a)) hostAgents)) \<and>
    (\<forall>p\<in>set (of_module ''html_agent.ts'' frontend). truthy_str (rc_backend p) = None) \<and>
    (of_module ''python_runtime.tools'' hostAgents = [] \<or>
      (\<exists>p\<in>set (of_module ''html_agent.ts'' frontend). wired (of_module ''python_runtime.tools'' hostAgents) p))"
proof -
  have t: "distinct (map rc_id (filter Q hostAgents))" "None \<notin> set (map rc_id (filter Q hostAgents))" "Some [] \<notin> set (map rc_id (filter Q hostAgents))" for Q
    using assms by (auto simp: distinct_map_filter)
  show ?thesis
    unfolding pairing_fails_def append_is_Nil_conv panel_fails_Nil bound_fails_Nil_subset [OF t(2,3)]
      terminal_fails_Nil [OF t [of "\<lambda>r. rc_module r = Some ''terminal_backend.tools''", folded of_module_def]] by blast
qed

theorem pairing_verdict_exact_witness:
  "pairing_fails [Rec (Some ''t1'') (Some ''terminal_backend.tools'') None None []]
     [Rec (Some ''v1'') (Some ''terminal_view.ts'') (Some ''t1'') None []] = []"
  using pairing_verdict_exact [of "[Rec (Some ''t1'') (Some ''terminal_backend.tools'') None None []]"
    "[Rec (Some ''v1'') (Some ''terminal_view.ts'') (Some ''t1'') None []]"]
  by (simp add: of_module_def)

text \<open>The check of AI views is not one to one: two views on one backend, and a backend without a view, pass.\<close>

lemma shared_ai_backend_passes:
  "pairing_fails [Rec (Some ''a'') (Some ''ollama_backend.tools'') None None [], Rec (Some ''b'') (Some ''ollama_backend.tools'') None None []]
     [Rec (Some ''v'') (Some ''ai_view.ts'') (Some ''a'') None [], Rec (Some ''w'') (Some ''ai_view.ts'') (Some ''a'') None []] = []"
  by code_simp

text \<open>A terminal backend somewhere in a directory tree.\<close>

fun holds_terminal :: "fs \<Rightarrow> bool" where
  "holds_terminal (Dir es) \<longleftrightarrow> terminal_here es \<or> (\<exists>(_, f)\<in>set es. holds_terminal f)"
| "holds_terminal _ \<longleftrightarrow> False"

lemma holds_subdirs: "(\<exists>f\<in>set (subdirs es). holds_terminal f) \<longleftrightarrow> (\<exists>(_, f)\<in>set es. holds_terminal f)"
proof -
  have "\<not> holds_terminal f" if "readdir f = None" for f using that by (cases f) simp_all
  then show ?thesis by (induction es) (auto simp: subdirs_def)
qed

lemma walk_holds: "walk st \<longleftrightarrow> (\<exists>d\<in>set st. holds_terminal d)"
proof (induction st rule: walk.induct)
  case (2 d stack)
  show ?case
  proof (cases "readdir d")
    case None
    then have "\<not> holds_terminal d" by (cases d) simp_all
    with "2.IH"(1) [OF None] None show ?thesis by simp
  next
    case (Some es)
    then have d: "d = Dir es" by (cases d) simp_all
    show ?thesis
    proof (cases "terminal_here es")
      case False
      with "2.IH"(2) [OF Some False] Some d holds_subdirs [of es] show ?thesis by (simp add: bex_Un)
    qed (simp add: d)
  qed
qed simp

text \<open>
  The walk over the host's agents finds a terminal backend exactly when some directory below, at any depth, holds a record of that
  module; unreadable entries and records that do not parse are passed over, and the walk always ends.
\<close>
theorem terminal_backend_walk_exact: "hostHasTerminalBackend d \<longleftrightarrow> holds_terminal d"
  by (simp add: hostHasTerminalBackend_def walk_holds)

lemma until_ends: "(\<exists>r\<in>set rounds. \<not> fst r) \<Longrightarrow> until_loop rounds \<noteq> None"
  by (induction rounds rule: until_loop.induct) auto

lemma until_sees_truth: "until_loop rounds = Some True \<Longrightarrow> \<exists>r\<in>set rounds. snd r"
  by (induction rounds rule: until_loop.induct) (auto split: if_splits)

text \<open>
  A run of the LLM client: what it returns is the first frame that settles it, or its timeout, and the events collected are those of
  the frames before, in order.
\<close>

fun settles_llm :: "nat \<Rightarrow> client_in \<Rightarrow> (string + json) option" where
  "settles_llm ms TimeoutIn = Some (Inl (llm_timeout ms))"
| "settles_llm ms (FrameIn text) = (case llm_frame text of Settles r \<Rightarrow> Some r | _ \<Rightarrow> None)"

fun collects :: "client_in \<Rightarrow> json option" where
  "collects TimeoutIn = None"
| "collects (FrameIn text) = (case llm_frame text of Collect p \<Rightarrow> Some p | _ \<Rightarrow> None)"

lemma runLLM_result:
  "runLLM ms ins evs =
     (case dropWhile (\<lambda>x. settles_llm ms x = None) ins of
        [] \<Rightarrow> None
      | x # _ \<Rightarrow> Some (the (settles_llm ms x), evs @ List.map_filter collects (takeWhile (\<lambda>x. settles_llm ms x = None) ins)))"
  by (induction ms ins evs rule: runLLM.induct) (simp_all add: map_filter_simps del: dropWhile_eq_Nil_conv split: llm_frame.split list.split)

text \<open>The one-shot client does not look at error frames: a refused call ends in its timeout only.\<close>

lemma wsCall_misses_errors:
  "wsCall [FrameIn (stringify (JObj [(''type'', JStr ''error''), (''id'', JStr ''q1''), (''error'', JStr ''no'')])), TimeoutIn] = Some (Inl ''wsCall timeout'')"
proof -
  have "ws_reply (stringify (JObj [(''type'', JStr ''error''), (''id'', JStr ''q1''), (''error'', JStr ''no'')])) = None"
    using parse_stringify [of "JObj [(''type'', JStr ''error''), (''id'', JStr ''q1''), (''error'', JStr ''no'')]"]
    by (simp add: ws_reply_def del: stringify.simps)
  then show ?thesis by (simp del: stringify.simps)
qed

end
