(* ===== verification/Spec2Isabelle.thy ===== *)
theory Spec2Isabelle
  imports Kernel_Run Conn_Props Ws_Bridge Federation Loader_Props Page_Props Html_View Terminal_View Ai_View Canvas_Props Gl_Camera Frontend Hello
    Harness_Props Chrome_Driver Test_Checks
begin

text \<open>
  A verification library for the browser frontend of Fantastic Canvas: the TypeScript sources under \<^verbatim>\<open>src/ts/src\<close> and the
  transport script the hosts inject into web pages
  (\<^verbatim>\<open>src/rust/crates/bundles/fantastic-web/src/transport.js\<close>; the Swift copy differs in comments only), and for the harness its
  integration tests run on (\<^verbatim>\<open>_host.ts\<close> and \<^verbatim>\<open>_chrome.ts\<close> under \<^verbatim>\<open>src/integration_tests/py_ts\<close>).

  \<^bold>\<open>The program.\<close> The frontend is a kernel of its own. It holds a tree of agents (\<^verbatim>\<open>kernel/\<close>), answers messages to them,
  and forwards messages to agents it does not have over WebSockets to a host kernel (\<^verbatim>\<open>transport/\<close>). At boot (\<^verbatim>\<open>main.ts\<close>) it
  loads its tree from a host agent, and a loader (\<^verbatim>\<open>bundles/loader\<close>) then writes every change of the tree back. The canvas
  (\<^verbatim>\<open>bundles/canvas\<close>) shows one frame per child of the root and mounts a view in it: a terminal, a chat, a
  sandboxed HTML panel (\<^verbatim>\<open>bundles/terminal_view\<close>, \<^verbatim>\<open>ai_view\<close>, \<^verbatim>\<open>html_agent\<close>), or an iframe or a WebGL scene. A page served by
  a host talks to that host through the injected script instead. The integration tests seed and start a host, serve the frontend
  from it and drive it in a headless browser.

  \<^bold>\<open>How it is modelled.\<close> Strings are their UTF-8 bytes; objects and Maps are association lists in insertion order; a number of the
  JSON lattice is an integer; what may be absent is an option. Objects that are shared by reference (agents, connections, promises,
  DOM elements, views) live in stores and are named by address. A function value (handler, listener, callback) is a token,
  and calling it is recorded in order. Code that awaits is cut at its awaits: a component is a step function from an event (a call, a message,
  a timer, the continuation of an await) and a state to the next state, \<^const>\<open>None\<close> where the event cannot happen;
  \<^const>\<open>run_events\<close> runs a sequence. So every interleaving is a list of events. Recursion over the tree takes the
  available call-stack depth; the number of agents is enough on a well-formed tree, and this is proved. The JSON parser takes fuel: twice
  the length of the text plus two, which is proved to be enough for every printed value. The harness' waits take the list of what they
  observe; how long a list is enough is proved from the sleep between rounds.

  \<^bold>\<open>Theories.\<close>
  \<^item> \<open>Prelude\<close>: the JSON lattice of \<^verbatim>\<open>kernel/json.ts\<close> and the pieces of JavaScript the code uses, with their laws.
    \<open>Steps\<close>: event-driven components; the locale \<open>step_invariant\<close> (an invariant of the steps holds along runs) and its extension
    \<open>step_ledger\<close> (what comes in is accounted for) and \<open>step_refinement\<close> (an abstraction takes runs to runs of a specification),
    interpreted for the components below.
  \<^item> \<open>Snapshot\<close>: \<^verbatim>\<open>kernel/state.ts\<close>; \<^verbatim>\<open>validateRecords\<close> accepts exactly the valid snapshots, with the right error otherwise.
  \<^item> \<open>Kernel\<close>: \<^verbatim>\<open>kernel/agent.ts\<close> and \<^verbatim>\<open>kernel/kernel.ts\<close>: the registry, snapshots, state events, inboxes, watches, routing.
    \<open>Kernel_Tree\<close>: the abstract tree, the well-formedness invariant and what each operation does to it.
    \<open>Kernel_Load\<close>: \<^verbatim>\<open>load\<close> (which records are loaded, with which stack), \<^verbatim>\<open>save\<close> after \<^verbatim>\<open>load\<close>, \<^verbatim>\<open>remove\<close> and the order of its
    events.
  \<^item> \<open>Reflect\<close>: \<^verbatim>\<open>kernel/reflect.ts\<close> and \<^verbatim>\<open>send\<close>; the locale \<open>handler_contract\<close> states what the kernel expects of bundle handlers.
    \<open>Kernel_Run\<close>: every client of the kernel at once: any sequence of its operations keeps the registry well formed and does to the tree
    what an abstract forest of ids does.
  \<^item> \<open>Json_Text\<close>: \<^verbatim>\<open>JSON.stringify\<close> and \<^verbatim>\<open>JSON.parse\<close> with their round trip. \<open>Frame\<close>: \<^verbatim>\<open>transport/frame.ts\<close>, the binary frames
    and their round trip.
  \<^item> \<open>Conn\<close>, \<open>Conn_Props\<close>: the class \<^verbatim>\<open>Conn\<close> of \<^verbatim>\<open>transport/bridge.ts\<close>, one reconnecting socket: every call is settled once or
    pending, replies are correlated, the back-off, the state stream. \<open>Ws_Bridge\<close>: the class \<^verbatim>\<open>WsBridge\<close>: one connection per
    endpoint, routing, and (locale \<open>remote_watches\<close>) sockets exactly for the watched sources.
    \<open>Federation\<close>: the kernel, the bridge and its sockets composed: calls are neither lost nor answered twice, a call is answered with
    the reply to it, and the events of a watched source reach its watchers.
  \<^item> \<open>Proxy_Loader\<close>, \<open>Loader_Props\<close>: \<^verbatim>\<open>bundles/loader/proxy_loader.ts\<close> with its kernel and an abstract host (locale
    \<open>host_loader\<close>): the host mirrors the kernel whenever the loader is quiescent; hydration undoes the flush.
  \<^item> \<open>Page_Frame\<close>, \<open>Page_Transport\<close>, \<open>Page_Props\<close>: the injected script: its codec agrees with \<open>Frame\<close>; its calls are accounted for,
    its subscriptions are replayed, its bus reaches the right pages.
  \<^item> \<open>Content_Agents\<close>: \<^verbatim>\<open>gl_agent.ts\<close>, \<^verbatim>\<open>html_agent.ts\<close> and the facade \<^verbatim>\<open>host.ts\<close>; the handlers satisfy
    \<open>handler_contract\<close>. \<open>Html_View\<close>: \<^verbatim>\<open>connector.ts\<close> and \<^verbatim>\<open>html_view.ts\<close>, the script in the iframe and the relay in the page, with the two
    message queues between them and the kernel.
  \<^item> \<open>Terminal_View\<close>: \<^verbatim>\<open>terminal_view.ts\<close>: flow control, paste, fitting, mounting. \<open>Ai_View\<close>: \<^verbatim>\<open>ai_view.ts\<close>: the queue of messages, the
    reply in flight, tool blocks, the boot from history and snapshot.
  \<^item> \<open>Gl_Host\<close>: \<^verbatim>\<open>canvas/gl_host.ts\<close>, the life cycle of WebGL views. \<open>Canvas_View\<close>: zoom and pan. \<open>Gl_Camera\<close>: the camera that follows them,
    and the disposal of a view's objects. \<open>Canvas\<close>: \<^verbatim>\<open>canvas/canvas.ts\<close>, with
    \<^verbatim>\<open>refresh\<close> as a coroutine whose waiting runs are part of the state. \<open>Canvas_Props\<close>: what the canvas shows.
  \<^item> \<open>Frontend\<close>: \<^verbatim>\<open>main.ts\<close>, and that a page reload restores the tree (the composition of loader, snapshot validation and load).
  \<^item> \<open>Hello\<close>: \<^verbatim>\<open>hello.ts\<close>, the starter page: it renders every agent of an answer once, and never asks the host.
  \<^item> \<open>Harness_Env\<close>: target, backend and \<^verbatim>\<open>.env\<close> of the integration harness. \<open>Harness_Host\<close>: booting, restarting and tearing down a host, as
    computations over an arbitrary operating system that leave a trace of requests and answers. \<open>Harness_Props\<close>: secrets stay out of
    the daemon, waits end, failed boots leave no daemon, successful ones follow the plan. \<open>Chrome_Driver\<close>: the browser driver: commands
    are settled once and go to the page's session, and the driver knows the live iframe contexts.
  \<^item> \<open>Test_Checks\<close>: checks and clients of the integration tests that have an algorithm of their own: the verdict on how views are paired
    with backends, the walk that looks for a terminal backend, and the clients of the LLM test.

  \<^bold>\<open>Where the code goes wrong.\<close> Some theorems exhibit runs in which the code does not do what it means to: calls stranded by a failed first
  dial, overlapping flushes and overlapping canvas refreshes, a removed agent that comes back elsewhere, binary values lost under
  reserved keys, error frames a page ignores, answers mixed up by a panel reload, tool blocks erased by tokens, a failed send that stays
  queued, a terminal that outlives its failed mount, a starter page that reflects itself, GL sources that are never refetched, and in the harness a restart that trusts the old daemon, keys the gate sees and the container does
  not, commands stranded by a closed driver. The correctness theorems of these components state the condition under which
  the code is right (for instance that refreshes do not overlap).

  \<^bold>\<open>Not modelled.\<close> The DOM beyond the elements the components keep, style sheets, titles and scroll positions; the renderer of the GL
  host; xterm and three.js (parameters); the bundle entry \<^verbatim>\<open>bundle.ts\<close>; the scenarios of the integration tests and the
  processes their harness starts; the hosts in
  other languages. Of JavaScript: the enumeration order of integer-like keys and the key \<^verbatim>\<open>__proto__\<close> of plain objects, numbers that are no
  integers (the view coordinates are exact rationals, without floating-point rounding), lone surrogates and the replacement character,
  the difference between UTF-16 and UTF-8 order when sorting, and host functions that throw where the language does not say so. Keys drawn from
  \<^verbatim>\<open>Math.random\<close> are taken to be new.
\<close>

end
